(* ===== verification/Prelude.thy ===== *)
theory Prelude
  imports Main "HOL-Library.Word" "HOL-Library.Multiset"
begin

text \<open>
  Shared vocabulary of the development: the machine integers of the Rust code, the casts
  between them, the bounded channel of \<^verbatim>\<open>tokio::sync::mpsc\<close>, the iterator functions the
  code calls, and the generic lemmas every component uses.

  \<^item> \<^verbatim>\<open>u8\<close>, \<^verbatim>\<open>u32\<close> and \<^verbatim>\<open>u64\<close> are words, so that wrap-around is the code's own.
  \<^item> \<^verbatim>\<open>i32\<close> and \<^verbatim>\<open>i64\<close> are integers: they are only stored, compared and cast. The casts
    \<^verbatim>\<open>as i64\<close> and \<^verbatim>\<open>as u64\<close> are the two's complement reinterpretations.
\<close>

section \<open>Machine integers\<close>

type_synonym u8 = "8 word"
type_synonym u32 = "32 word"
type_synonym u64 = "64 word"
type_synonym i32 = int
type_synonym i64 = int

definition in_i64 :: "int \<Rightarrow> bool" where
  "in_i64 i \<longleftrightarrow> - (2 ^ 63) \<le> i \<and> i < 2 ^ 63"

definition as_i64 :: "u64 \<Rightarrow> i64" where
  "as_i64 w = sint w"

definition as_u64 :: "i64 \<Rightarrow> u64" where
  "as_u64 i = word_of_int i"

definition as_u32 :: "i32 \<Rightarrow> u32" where
  "as_u32 i = word_of_int i"

definition saturating_sub :: "u64 \<Rightarrow> u64 \<Rightarrow> u64" where
  "saturating_sub a b = (if a < b then 0 else a - b)"

definition checked_mul :: "u64 \<Rightarrow> u64 \<Rightarrow> u64 option" where
  "checked_mul a b = (if unat a * unat b < 2 ^ 64 then Some (a * b) else None)"

definition u8_of_i32 :: "i32 \<Rightarrow> u8 option" where
  "u8_of_i32 i = (if 0 \<le> i \<and> i < 256 then Some (word_of_int i) else None)"

definition u8_of_u64 :: "u64 \<Rightarrow> u8 option" where
  "u8_of_u64 n = (if unat n < 256 then Some (ucast n) else None)"

lemma as_u64_as_i64 [simp]: "as_u64 (as_i64 w) = w"
  by (simp add: as_u64_def as_i64_def)

lemma as_i64_as_u64: "in_i64 i \<Longrightarrow> as_i64 (as_u64 i) = i"
  by (simp add: as_u64_def as_i64_def in_i64_def signed_of_int signed_take_bit_int_eq_self)

lemma in_i64_as_i64: "in_i64 (as_i64 w)"
  using sint_range_size [of w] by (simp add: in_i64_def as_i64_def word_size)

lemma as_i64_small: "unat w < 2 ^ 63 \<Longrightarrow> as_i64 w = int (unat w)"
proof -
  assume small: "unat w < 2 ^ 63"
  then have "int (unat w) < int (2 ^ 63)" by (simp only: of_nat_less_iff)
  then have "uint w < 2 ^ 63" by simp
  then have "in_i64 (int (unat w))"
    using uint_nonnegative [of w] unfolding in_i64_def by (simp, linarith?)
  then have "as_i64 (as_u64 (int (unat w))) = int (unat w)" by (rule as_i64_as_u64)
  then show ?thesis by (simp add: as_u64_def)
qed

lemma unat_saturating_sub: "unat (saturating_sub a b) = unat a - unat b"
  by (auto simp: saturating_sub_def unat_sub word_less_nat_alt word_le_nat_alt)

lemma checked_mul_Some: "checked_mul a b = Some c \<Longrightarrow> unat c = unat a * unat b"
  by (auto simp: checked_mul_def unat_word_ariths split: if_splits)

lemma u8_of_i32_uint [simp]: "u8_of_i32 (uint (b :: u8)) = Some b"
  using uint_range_size [of b] by (simp add: u8_of_i32_def word_size)

lemma u8_of_u64_ucast [simp]: "u8_of_u64 (ucast (b :: u8)) = Some b"
proof -
  have "unat b < 256" using unsigned_less [of b, where ?'a = nat] by simp
  moreover have "take_bit 64 b = b" by (rule bit_word_eqI) (simp add: bit_take_bit_iff)
  moreover have "take_bit 64 (unat b) = unat b"
    using \<open>unat b < 256\<close> by (simp add: take_bit_nat_eq_self)
  ultimately show ?thesis by (simp add: u8_of_u64_def unsigned_ucast_eq)
qed

section \<open>Iterator functions\<close>

text \<open>
  \<^verbatim>\<open>Iterator::max_by_key\<close>: \<^verbatim>\<open>None\<close> on an empty iterator; among several maximal elements
  the last one.
\<close>

fun max_by_key :: "('a \<Rightarrow> 'k::linorder) \<Rightarrow> 'a list \<Rightarrow> 'a option" where
  "max_by_key k [] = None"
| "max_by_key k (x # xs) =
     (case max_by_key k xs of
        None \<Rightarrow> Some x
      | Some y \<Rightarrow> if k x \<le> k y then Some y else Some x)"

lemma max_by_key_None [simp]: "max_by_key k xs = None \<longleftrightarrow> xs = []"
  by (cases xs) (auto split: option.splits)

lemma max_by_key_Some:
  "max_by_key k xs = Some y \<Longrightarrow> y \<in> set xs \<and> (\<forall>x \<in> set xs. k x \<le> k y)"
proof (induction xs arbitrary: y)
  case Nil
  then show ?case by simp
next
  case (Cons x xs)
  show ?case
  proof (cases "max_by_key k xs")
    case None
    with Cons.prems show ?thesis by simp
  next
    case (Some z)
    with Cons.IH [OF Some] Cons.prems show ?thesis by (fastforce split: if_splits)
  qed
qed

section \<open>Bounded channels\<close>

text \<open>
  \<^verbatim>\<open>mpsc::channel(capacity)\<close>. \<^verbatim>\<open>try_send\<close> fails when the channel is full or the receiver
  is gone; \<^verbatim>\<open>recv\<close> takes the oldest element.
\<close>

record 'a chan =
  items :: "'a list"
  capacity :: nat
  receiver_alive :: bool

definition new_chan :: "nat \<Rightarrow> 'a chan" where
  "new_chan n = \<lparr>items = [], capacity = n, receiver_alive = True\<rparr>"

definition try_send :: "'a \<Rightarrow> 'a chan \<Rightarrow> 'a chan option" where
  "try_send x c =
     (if receiver_alive c \<and> length (items c) < capacity c
      then Some (c\<lparr>items := items c @ [x]\<rparr>) else None)"

definition recv :: "'a chan \<Rightarrow> ('a \<times> 'a chan) option" where
  "recv c = (case items c of [] \<Rightarrow> None | x # xs \<Rightarrow> Some (x, c\<lparr>items := xs\<rparr>))"

lemma try_send_Some:
  "try_send x c = Some c' \<Longrightarrow> items c' = items c @ [x] \<and> capacity c' = capacity c
     \<and> length (items c') \<le> capacity c"
  by (auto simp: try_send_def split: if_splits)

lemma recv_new [simp]: "recv (new_chan n) = None"
  by (simp add: recv_def new_chan_def)

section \<open>Registers that only move forward\<close>

text \<open>
  \<^verbatim>\<open>AtomicU64::fetch_max\<close> is used for three shared numbers: the stream's watermark and the
  two slot gauges. What their users rely on is stated once: reading after an update gives the
  maximum of the old value and the argument.
\<close>

locale max_register =
  fixes reading :: "'m \<Rightarrow> u64"
    and advance :: "u64 \<Rightarrow> 'm \<Rightarrow> 'm"
  assumes reading_advance: "reading (advance s m) = max (reading m) s"
begin

lemma never_back: "reading m \<le> reading (advance s m)"
  by (simp add: reading_advance)

lemma reading_run: "reading (fold advance ss m) = fold max ss (reading m)"
  by (induction ss arbitrary: m) (auto simp: reading_advance max.commute)

lemma reading_run_Max: "reading (fold advance ss m) = Max (insert (reading m) (set ss))"
  by (simp only: reading_run Max.set_eq_fold [symmetric] list.set)

lemma order_irrelevant:
  "set ss = set ss' \<Longrightarrow> reading (fold advance ss m) = reading (fold advance ss' m)"
  by (simp add: reading_run_Max)

end

end
