(* ===== verification/Sql.thy ===== *)
theory Sql
  imports Prelude
begin

text \<open>
  The part of Postgres the code relies on, as statements over an abstract store.

  \<^item> \<open>insert_do_nothing\<close> is \<^verbatim>\<open>INSERT ... ON CONFLICT DO NOTHING\<close> against one unique key.
  \<^item> A \<open>server\<close> is the store together with the answers it will give to the coming
    statements. \<open>execute\<close> runs one statement: it may be refused, be executed while its answer
    is lost, or never be answered (executed or not). An empty script means that every further
    statement is executed normally.
  \<^item> \<open>transaction\<close> is \<^verbatim>\<open>begin\<close>, a body and \<^verbatim>\<open>commit\<close>; whatever happens before a commit that
    lands leaves the store as it was.
  \<^item> Rows are read in the order in which the executor scans them. Where the code gives no
    complete \<^verbatim>\<open>ORDER BY\<close>, that order is a parameter of the reading operations.

  The locale \<open>keyed_store\<close> states what the writers, the repair and the recovery rely on when
  they insert the same rows again.
\<close>

section \<open>Insertion under a unique key\<close>

fun insert_do_nothing :: "('r \<Rightarrow> 'k) \<Rightarrow> 'r list \<Rightarrow> 'r list \<Rightarrow> 'r list" where
  "insert_do_nothing key tbl [] = tbl"
| "insert_do_nothing key tbl (r # rs) =
     insert_do_nothing key (if key r \<in> key ` set tbl then tbl else tbl @ [r]) rs"

lemma keys_insert_do_nothing [simp]:
  "key ` set (insert_do_nothing key tbl rs) = key ` set tbl \<union> key ` set rs"
  by (induction key tbl rs rule: insert_do_nothing.induct) auto

lemma distinct_insert_do_nothing:
  "distinct (map key tbl) \<Longrightarrow> distinct (map key (insert_do_nothing key tbl rs))"
  by (induction key tbl rs rule: insert_do_nothing.induct) auto

lemma insert_do_nothing_known:
  "key ` set rs \<subseteq> key ` set tbl \<Longrightarrow> insert_do_nothing key tbl rs = tbl"
  by (induction key tbl rs rule: insert_do_nothing.induct) auto

lemma insert_do_nothing_extends: "\<exists>new. insert_do_nothing key tbl rs = tbl @ new"
  by (induction key tbl rs rule: insert_do_nothing.induct) auto

lemma take_insert_do_nothing: "take (length tbl) (insert_do_nothing key tbl rs) = tbl"
  using insert_do_nothing_extends [of key tbl rs] by auto

lemma insert_do_nothing_old: "set tbl \<subseteq> set (insert_do_nothing key tbl rs)"
  using insert_do_nothing_extends [of key tbl rs] by auto

lemma insert_do_nothing_only:
  "r \<in> set (insert_do_nothing key tbl rs) \<Longrightarrow>
     r \<in> set tbl \<or> r \<in> set rs \<and> key r \<notin> key ` set tbl"
  by (induction key tbl rs rule: insert_do_nothing.induct) (auto split: if_splits)

lemma insert_do_nothing_added:
  "insert_do_nothing key tbl rs = tbl @ added \<Longrightarrow> set added \<subseteq> set rs"
proof (induction key tbl rs arbitrary: added rule: insert_do_nothing.induct)
  case (2 key tbl r rs)
  show ?case
  proof (cases "key r \<in> key ` set tbl")
    case True
    with 2 show ?thesis by auto
  next
    case False
    with "2.prems" have run: "insert_do_nothing key (tbl @ [r]) rs = tbl @ added" by simp
    obtain rest where "insert_do_nothing key (tbl @ [r]) rs = (tbl @ [r]) @ rest"
      using insert_do_nothing_extends by blast
    with run "2.IH" False show ?thesis by (auto split: if_splits)
  qed
qed simp

lemma insert_do_nothing_append:
  "insert_do_nothing key tbl (rs @ rs') =
     insert_do_nothing key (insert_do_nothing key tbl rs) rs'"
  by (induction key tbl rs rule: insert_do_nothing.induct) auto

lemma insert_do_nothing_fresh:
  "distinct (map key rs) \<Longrightarrow> key ` set rs \<inter> key ` set tbl = {} \<Longrightarrow>
     insert_do_nothing key tbl rs = tbl @ rs"
  by (induction key tbl rs rule: insert_do_nothing.induct) auto

lemma length_insert_do_nothing: "length tbl \<le> length (insert_do_nothing key tbl rs)"
  using insert_do_nothing_extends [of key tbl rs] by auto

section \<open>Stores that absorb repeated rows\<close>

locale keyed_store =
  fixes inv :: "'s \<Rightarrow> bool"
    and keys :: "'s \<Rightarrow> 'k set"
    and put :: "'r list \<Rightarrow> 's \<Rightarrow> 's"
    and key :: "'r \<Rightarrow> 'k"
  assumes inv_put: "inv s \<Longrightarrow> inv (put rs s)"
    and keys_put: "inv s \<Longrightarrow> keys (put rs s) = keys s \<union> key ` set rs"
    and put_known: "inv s \<Longrightarrow> key ` set rs \<subseteq> keys s \<Longrightarrow> put rs s = s"
begin

lemma put_again: "inv s \<Longrightarrow> put rs (put rs s) = put rs s"
  by (rule put_known) (auto simp: inv_put keys_put)

lemma inv_run: "inv s \<Longrightarrow> inv (fold put bs s)"
  by (induction bs arbitrary: s) (auto simp: inv_put)

lemma keys_run: "inv s \<Longrightarrow> keys (fold put bs s) = keys s \<union> key ` set (concat bs)"
  by (induction bs arbitrary: s) (auto simp: inv_put keys_put)

lemma batching_irrelevant:
  "inv s \<Longrightarrow> set (concat bs) = set (concat bs') \<Longrightarrow>
     keys (fold put bs s) = keys (fold put bs' s)"
  by (simp add: keys_run)

lemma replay_run: "inv s \<Longrightarrow> key ` set rs \<subseteq> keys s \<Longrightarrow> set (concat bs) \<subseteq> set rs \<Longrightarrow>
  fold put bs s = s"
proof (induction bs)
  case (Cons b bs)
  then have "key ` set b \<subseteq> keys s" by auto
  with Cons show ?case by (simp add: put_known)
qed simp

end

section \<open>Statements and their answers\<close>

datatype db_error =
    Check_violation
  | Foreign_key_violation
  | Numeric_out_of_range
  | Invalid_limit
  | Server_error string

datatype reply = Done | Refused db_error | Lost db_error | Hung bool

datatype 'a outcome = Answer 'a | Failure db_error | No_answer

record 't server =
  store :: 't
  script :: "reply list"

definition next_reply :: "'t server \<Rightarrow> reply \<times> 't server" where
  "next_reply d = (case script d of
      [] \<Rightarrow> (Done, d)
    | r # rs \<Rightarrow> (r, d\<lparr>script := rs\<rparr>))"

definition landed :: "('t \<Rightarrow> db_error + 'a \<times> 't) \<Rightarrow> 't server \<Rightarrow> 't server" where
  "landed stmt d = (case stmt (store d) of Inl e \<Rightarrow> d | Inr (x, t) \<Rightarrow> d\<lparr>store := t\<rparr>)"

definition execute ::
  "('t \<Rightarrow> db_error + 'a \<times> 't) \<Rightarrow> 't server \<Rightarrow> 'a outcome \<times> 't server" where
  "execute stmt d = (case next_reply d of (r, d1) \<Rightarrow>
     (case r of
        Done \<Rightarrow>
          (case stmt (store d1) of
             Inl e \<Rightarrow> (Failure e, d1)
           | Inr (x, t) \<Rightarrow> (Answer x, d1\<lparr>store := t\<rparr>))
      | Refused e \<Rightarrow> (Failure e, d1)
      | Lost e \<Rightarrow> (Failure e, landed stmt d1)
      | Hung b \<Rightarrow> (No_answer, if b then landed stmt d1 else d1)))"

definition and_then ::
  "('t server \<Rightarrow> 'a outcome \<times> 't server) \<Rightarrow> ('a \<Rightarrow> 't server \<Rightarrow> 'b outcome \<times> 't server) \<Rightarrow>
     't server \<Rightarrow> 'b outcome \<times> 't server" where
  "and_then m f d = (case m d of
      (Answer x, d') \<Rightarrow> f x d'
    | (Failure e, d') \<Rightarrow> (Failure e, d')
    | (No_answer, d') \<Rightarrow> (No_answer, d'))"

definition return :: "'a \<Rightarrow> 't server \<Rightarrow> 'a outcome \<times> 't server" where
  "return x d = (Answer x, d)"

definition transaction ::
  "('t server \<Rightarrow> unit outcome \<times> 't server) \<Rightarrow> 't server \<Rightarrow> unit outcome \<times> 't server" where
  "transaction body d = (case execute (\<lambda>t. Inr ((), t)) d of
      (Answer _, d0) \<Rightarrow>
        (case body d0 of
           (Answer _, d1) \<Rightarrow>
             execute (\<lambda>_. Inr ((), store d1)) (d1\<lparr>store := store d0\<rparr>)
         | (Failure e, d1) \<Rightarrow> (Failure e, d1\<lparr>store := store d0\<rparr>)
         | (No_answer, d1) \<Rightarrow> (No_answer, d1\<lparr>store := store d0\<rparr>))
    | (Failure e, d0) \<Rightarrow> (Failure e, d0)
    | (No_answer, d0) \<Rightarrow> (No_answer, d0))"

definition healthy :: "'t server \<Rightarrow> bool" where
  "healthy d \<longleftrightarrow> (\<forall>r \<in> set (script d). r = Done)"

lemma execute_healthy:
  assumes "healthy d" "stmt (store d) = Inr (x, t)"
  shows "\<exists>d'. execute stmt d = (Answer x, d') \<and> store d' = t \<and> healthy d'"
  using assms
  by (cases "script d") (auto simp: execute_def next_reply_def healthy_def)

lemma execute_healthy_err:
  assumes "healthy d" "stmt (store d) = Inl e"
  shows "\<exists>d'. execute stmt d = (Failure e, d') \<and> store d' = store d \<and> healthy d'"
  using assms
  by (cases "script d") (auto simp: execute_def next_reply_def healthy_def)

lemma store_execute:
  assumes "execute stmt d = (r, d')"
  shows "store d' = store d \<or> (\<exists>x. stmt (store d) = Inr (x, store d'))"
  using assms
  by (cases "script d")
    (auto simp: execute_def next_reply_def landed_def split: reply.splits sum.splits if_splits)

lemma execute_Answer:
  assumes "execute stmt d = (Answer x, d')"
  shows "stmt (store d) = Inr (x, store d')"
  using assms
  by (cases "script d")
    (auto simp: execute_def next_reply_def split: reply.splits sum.splits if_splits)

text \<open>
  A transaction is all or nothing: its answer says that the body succeeded and its final store
  is in place; otherwise the store is the old one, or the body succeeded and the commit landed
  although its answer did not arrive.
\<close>

lemma transaction_all_or_nothing:
  assumes "transaction body d = (r, d')"
  shows "store d' = store d \<or>
    (\<exists>d0 d1. store d0 = store d \<and> body d0 = (Answer (), d1) \<and> store d' = store d1)"
proof (cases "execute (\<lambda>t. Inr ((), t)) d")
  case (Pair r0 d0)
  have s0: "store d0 = store d" using store_execute [OF Pair] by auto
  show ?thesis
  proof (cases r0)
    case (Answer u)
    show ?thesis
    proof (cases "body d0")
      case body: (Pair r1 d1)
      show ?thesis
      proof (cases r1)
        case [simp]: (Answer u1)
        from assms Pair \<open>r0 = Answer u\<close> body
        have "execute (\<lambda>_. Inr ((), store d1)) (d1\<lparr>store := store d0\<rparr>) = (r, d')"
          by (simp add: transaction_def)
        from store_execute [OF this] s0 body show ?thesis by auto
      qed (use assms Pair \<open>r0 = Answer u\<close> body s0 in \<open>auto simp: transaction_def\<close>)
    qed
  qed (use assms Pair s0 in \<open>auto simp: transaction_def\<close>)
qed

lemma transaction_Answer:
  assumes "transaction body d = (Answer u, d')"
  shows "\<exists>d0 d1. store d0 = store d \<and> body d0 = (Answer (), d1) \<and> store d' = store d1"
proof (cases "execute (\<lambda>t. Inr ((), t)) d")
  case (Pair r0 d0)
  have s0: "store d0 = store d" using store_execute [OF Pair] by auto
  with assms Pair show ?thesis
    by (fastforce simp: transaction_def dest!: execute_Answer split: outcome.splits prod.splits)
qed

lemma transaction_healthy:
  assumes "healthy d"
    and body: "\<And>d0. store d0 = store d \<Longrightarrow> healthy d0 \<Longrightarrow>
      \<exists>d1. body d0 = (Answer (), d1) \<and> store d1 = t \<and> healthy d1"
  shows "\<exists>d'. transaction body d = (Answer (), d') \<and> store d' = t \<and> healthy d'"
proof -
  obtain d0 where d0: "execute (\<lambda>t. Inr ((), t)) d = (Answer (), d0)"
    "store d0 = store d" "healthy d0"
    using execute_healthy [OF assms(1), of "\<lambda>t. Inr ((), t)"] by auto
  obtain d1 where d1: "body d0 = (Answer (), d1)" "store d1 = t" "healthy d1"
    using body d0 by blast
  have "healthy (d1\<lparr>store := store d0\<rparr>)" using d1 by (simp add: healthy_def)
  from execute_healthy [OF this, of "\<lambda>_. Inr ((), store d1)"] d0 d1
  show ?thesis by (auto simp: transaction_def)
qed

lemma and_then_healthy:
  assumes "\<exists>d1. m d = (Answer x, d1) \<and> store d1 = t1 \<and> healthy d1"
    and "\<And>d1. store d1 = t1 \<Longrightarrow> healthy d1 \<Longrightarrow>
      \<exists>d2. f x d1 = (Answer y, d2) \<and> store d2 = t2 \<and> healthy d2"
  shows "\<exists>d2. and_then m f d = (Answer y, d2) \<and> store d2 = t2 \<and> healthy d2"
  using assms by (fastforce simp: and_then_def)

lemma and_then_Answer:
  "and_then m f d = (Answer y, d2) \<longleftrightarrow>
     (\<exists>x d1. m d = (Answer x, d1) \<and> f x d1 = (Answer y, d2))"
  by (auto simp: and_then_def split: prod.splits outcome.splits)

section \<open>Invariants of the store\<close>

lemma execute_inv:
  assumes "P (store d)"
    and "\<And>x t. stmt (store d) = Inr (x, t) \<Longrightarrow> P t"
  shows "P (store (snd (execute stmt d)))"
  using store_execute [of stmt d] assms by (metis prod.collapse)

lemma and_then_inv:
  assumes "P (store (snd (m d)))"
    and "\<And>x d'. P (store d') \<Longrightarrow> P (store (snd (f x d')))"
  shows "P (store (snd (and_then m f d)))"
  using assms by (auto simp: and_then_def split: prod.splits outcome.splits)

lemma return_inv: "P (store d) \<Longrightarrow> P (store (snd (return x d)))"
  by (simp add: return_def)

lemma transaction_inv:
  assumes "P (store d)"
    and "\<And>d'. P (store d') \<Longrightarrow> P (store (snd (body d')))"
  shows "P (store (snd (transaction body d)))"
proof (cases "transaction body d")
  case (Pair r d')
  from transaction_all_or_nothing [OF this] assms Pair show ?thesis
    by (metis snd_conv)
qed

text \<open>Nothing but \<open>execute\<close> consumes answers, and it consumes one.\<close>

lemma script_execute: "script (snd (execute stmt d)) = tl (script d)"
  by (cases "script d")
    (auto simp: execute_def next_reply_def landed_def split: reply.splits sum.splits)

text \<open>The order in which an executor scans a table: any permutation.\<close>

definition scan_ok :: "('r list \<Rightarrow> 'r list) \<Rightarrow> bool" where
  "scan_ok scan \<longleftrightarrow> (\<forall>es. mset (scan es) = mset es)"

lemma scan_ok_set: "scan_ok scan \<Longrightarrow> set (scan es) = set es"
  unfolding scan_ok_def using mset_eq_setD by blast

end
