(* ===== verification/Json.thy ===== *)
theory Json
  imports Prelude
begin

text \<open>
  \<^verbatim>\<open>serde_json::Value\<close> and the accessors the code calls on it. A number is a non-negative
  integer, a negative integer or a float (kept as its text): \<^verbatim>\<open>as_u64\<close> answers only for the
  first. An object's entries are looked up by key; indexing a missing key gives \<^verbatim>\<open>null\<close>.
\<close>

datatype num = PosInt u64 | NegInt i64 | FloatNum string

datatype json =
    JNull
  | JBool bool
  | JNumber num
  | JString string
  | JArray "json list"
  | JObject "(string \<times> json) list"

fun json_get :: "string \<Rightarrow> json \<Rightarrow> json option" where
  "json_get k (JObject kvs) = map_of kvs k"
| "json_get k _ = None"

definition json_index :: "string \<Rightarrow> json \<Rightarrow> json" where
  "json_index k v = (case json_get k v of None \<Rightarrow> JNull | Some x \<Rightarrow> x)"

fun as_array :: "json \<Rightarrow> json list option" where
  "as_array (JArray xs) = Some xs"
| "as_array _ = None"

fun as_u64_json :: "json \<Rightarrow> u64 option" where
  "as_u64_json (JNumber (PosInt n)) = Some n"
| "as_u64_json _ = None"

fun as_bool :: "json \<Rightarrow> bool option" where
  "as_bool (JBool b) = Some b"
| "as_bool _ = None"

fun as_str :: "json \<Rightarrow> string option" where
  "as_str (JString s) = Some s"
| "as_str _ = None"

definition json_u64 :: "u64 \<Rightarrow> json" where
  "json_u64 n = JNumber (PosInt n)"

lemma as_u64_json_u64 [simp]: "as_u64_json (json_u64 n) = Some n"
  by (simp add: json_u64_def)

end
