(* ===== verification/Identity.thy ===== *)
theory Identity
  imports Prelude "HOL-Library.Char_ord" "HOL-Library.List_Lexorder"
    "HOL-Library.Product_Lexorder"
begin

text \<open>
  \<^verbatim>\<open>src/identity.rs\<close>: the identity of an event, with the derived order (signature, then path,
  then ordinal; strings and byte vectors compare lexicographically), and the log of
  identities that \<^verbatim>\<open>replay\<close> and \<^verbatim>\<open>verify\<close> collect.
\<close>

datatype event_id =
  EventId (signature: string) (absolute_path: "u8 list") (event_ordinal: u32)

type_synonym event_log = "event_id list"

definition id_tuple :: "event_id \<Rightarrow> string \<times> u8 list \<times> u32" where
  "id_tuple e = (signature e, absolute_path e, event_ordinal e)"

lemma id_tuple_inj [simp]: "id_tuple a = id_tuple b \<longleftrightarrow> a = b"
  by (cases a; cases b) (simp add: id_tuple_def)

instantiation event_id :: linorder
begin

definition less_eq_event_id :: "event_id \<Rightarrow> event_id \<Rightarrow> bool" where
  "less_eq_event_id a b \<longleftrightarrow> id_tuple a \<le> id_tuple b"

definition less_event_id :: "event_id \<Rightarrow> event_id \<Rightarrow> bool" where
  "less_event_id a b \<longleftrightarrow> id_tuple a < id_tuple b"

instance
proof
  fix a b c :: event_id
  show "a < b \<longleftrightarrow> a \<le> b \<and> \<not> b \<le> a"
    unfolding less_eq_event_id_def less_event_id_def by (rule less_le_not_le)
  show "a \<le> a" by (simp add: less_eq_event_id_def)
  show "a \<le> b \<Longrightarrow> b \<le> c \<Longrightarrow> a \<le> c"
    unfolding less_eq_event_id_def by (rule order_trans)
  show "a \<le> b \<Longrightarrow> b \<le> a \<Longrightarrow> a = b"
    by (simp add: less_eq_event_id_def)
  show "a \<le> b \<or> b \<le> a"
    unfolding less_eq_event_id_def by (rule linear)
qed

end

end
