(* ===== verification/Db.thy ===== *)
theory Db
  imports Sql Json Identity
begin

text \<open>
  \<^verbatim>\<open>src/db.rs\<close> and the schema of \<^verbatim>\<open>migrations/\<close>: the six tables as lists of rows in insertion
  order, and every statement the code sends as a function on them. Column defaults the code
  never reads (\<^verbatim>\<open>parser_version\<close>, \<^verbatim>\<open>received_at\<close>, \<^verbatim>\<open>created_at\<close>, \<^verbatim>\<open>updated_at\<close>) are left out.
  \<open>tables_ok\<close> is what the schema enforces, and every statement keeps it.
\<close>

section \<open>Rows\<close>

record event_row =
  e_signature :: string
  e_path :: "u8 list"
  e_ordinal :: i32
  e_slot :: i64
  e_block_time :: "i64 option"
  e_program :: string
  e_type :: string
  e_payload :: json

record trade_row =
  t_pool :: "string option"
  t_token_mint :: string
  t_side :: string
  t_sol_amount :: int
  t_token_amount :: int
  t_trader :: string
  t_fee :: "int option"

record pending_write =
  pw_event :: event_row
  pw_trade :: "trade_row option"
  queued_at :: nat

text \<open>
  A row of the \<^verbatim>\<open>trades\<close> table: the columns shared with the event, then the trade. This is
  also the shape of \<^verbatim>\<open>RepairedTrade\<close>. \<^verbatim>\<open>UnrepairedEvent\<close> has the columns of an event row.
\<close>

record repaired_trade =
  r_signature :: string
  r_path :: "u8 list"
  r_ordinal :: i32
  r_slot :: i64
  r_block_time :: "i64 option"
  r_program :: string
  r_trade :: trade_row

type_synonym unrepaired_event = event_row

record stored_pool =
  sp_pool :: string
  sp_base_mint :: string
  sp_quote_mint :: string
  sp_base_decimals :: "i32 option"
  sp_quote_decimals :: "i32 option"

record dead_letter =
  dl_signature :: string
  dl_path :: "u8 list"
  dl_ordinal :: i32
  dl_slot :: i64
  dl_payload :: json
  dl_error :: string

record gap_row =
  g_id :: i64
  g_start :: i64
  g_end :: i64
  g_missed :: i64
  g_detected_at :: nat
  g_detected_by :: string
  g_recovered_at :: "nat option"
  g_method :: "string option"
  g_status :: string

record open_gap =
  og_id :: i64
  og_start :: i64
  og_end :: i64

record tables =
  events :: "event_row list"
  trades :: "repaired_trade list"
  pools :: "stored_pool list"
  checkpoint :: "(i64 \<times> string) option"
  dead_letters :: "dead_letter list"
  stream_gaps :: "gap_row list"
  next_gap_id :: i64

type_synonym db = "tables server"

definition empty_tables :: tables where
  "empty_tables = \<lparr>events = [], trades = [], pools = [], checkpoint = None,
     dead_letters = [], stream_gaps = [], next_gap_id = 1\<rparr>"

type_synonym row_key = "string \<times> u8 list \<times> i32"

definition event_key :: "event_row \<Rightarrow> row_key" where
  "event_key e = (e_signature e, e_path e, e_ordinal e)"

definition trade_key :: "repaired_trade \<Rightarrow> row_key" where
  "trade_key r = (r_signature r, r_path r, r_ordinal r)"

definition letter_key :: "dead_letter \<Rightarrow> row_key" where
  "letter_key l = (dl_signature l, dl_path l, dl_ordinal l)"

definition pending_key :: "pending_write \<Rightarrow> row_key" where
  "pending_key p = event_key (pw_event p)"

section \<open>Events, trades and the checkpoint\<close>

definition insert_events :: "event_row list \<Rightarrow> event_row list \<Rightarrow> event_row list" where
  "insert_events rows tbl = insert_do_nothing event_key tbl rows"

definition events_stmt :: "pending_write list \<Rightarrow> tables \<Rightarrow> db_error + unit \<times> tables" where
  "events_stmt rows t = Inr ((), t\<lparr>events := insert_events (map pw_event rows) (events t)\<rparr>)"

definition write_events :: "pending_write list \<Rightarrow> db \<Rightarrow> unit outcome \<times> db" where
  "write_events rows = (if rows = [] then return () else execute (events_stmt rows))"

definition trade_of :: "pending_write \<Rightarrow> repaired_trade option" where
  "trade_of p = (case pw_trade p of
      None \<Rightarrow> None
    | Some t \<Rightarrow> Some
        \<lparr>r_signature = e_signature (pw_event p), r_path = e_path (pw_event p),
         r_ordinal = e_ordinal (pw_event p), r_slot = e_slot (pw_event p),
         r_block_time = e_block_time (pw_event p), r_program = e_program (pw_event p),
         r_trade = t\<rparr>)"

text \<open>\<^verbatim>\<open>NUMERIC(20, 0)\<close> and the \<^verbatim>\<open>CHECK\<close> on the side.\<close>

definition numeric_20_0 :: "int \<Rightarrow> bool" where
  "numeric_20_0 d \<longleftrightarrow> \<bar>d\<bar> < 10 ^ 20"

definition trade_error :: "trade_row \<Rightarrow> db_error option" where
  "trade_error t =
     (if \<not> numeric_20_0 (t_sol_amount t) \<or> \<not> numeric_20_0 (t_token_amount t)
         \<or> (\<exists>f \<in> set_option (t_fee t). \<not> numeric_20_0 f) then Some Numeric_out_of_range
      else if t_side t \<noteq> ''buy'' \<and> t_side t \<noteq> ''sell'' then Some Check_violation
      else None)"

fun first_error :: "trade_row list \<Rightarrow> db_error option" where
  "first_error [] = None"
| "first_error (t # ts) = (case trade_error t of Some e \<Rightarrow> Some e | None \<Rightarrow> first_error ts)"

text \<open>
  Inserting into \<^verbatim>\<open>trades\<close>: the row constraints are checked on every row, the foreign key on
  the rows that were inserted. The answer is the number of rows affected.
\<close>

definition insert_trades :: "repaired_trade list \<Rightarrow> tables \<Rightarrow> db_error + nat \<times> tables" where
  "insert_trades rows t =
     (case first_error (map r_trade rows) of
        Some e \<Rightarrow> Inl e
      | None \<Rightarrow>
          let new = insert_do_nothing trade_key (trades t) rows;
              added = drop (length (trades t)) new
          in if (\<forall>r \<in> set added. trade_key r \<in> event_key ` set (events t))
             then Inr (length added, t\<lparr>trades := new\<rparr>)
             else Inl Foreign_key_violation)"

definition trades_stmt :: "repaired_trade list \<Rightarrow> tables \<Rightarrow> db_error + unit \<times> tables" where
  "trades_stmt rows t = (case insert_trades rows t of
      Inl e \<Rightarrow> Inl e | Inr (n, t') \<Rightarrow> Inr ((), t'))"

definition write_trades :: "pending_write list \<Rightarrow> db \<Rightarrow> unit outcome \<times> db" where
  "write_trades rows = (let pairs = List.map_filter trade_of rows in
     if pairs = [] then return () else execute (trades_stmt pairs))"

definition write_checkpoint :: "i64 \<Rightarrow> string \<Rightarrow> db \<Rightarrow> unit outcome \<times> db" where
  "write_checkpoint slot sig =
     execute (\<lambda>t. Inr ((), t\<lparr>checkpoint := Some (slot, sig)\<rparr>))"

section \<open>Pools\<close>

definition coalesce :: "'a option \<Rightarrow> 'a option \<Rightarrow> 'a option" where
  "coalesce a b = (case a of None \<Rightarrow> b | Some x \<Rightarrow> Some x)"

definition merge_decimals :: "stored_pool \<Rightarrow> stored_pool \<Rightarrow> stored_pool" where
  "merge_decimals p q =
     (if sp_pool q = sp_pool p
      then q\<lparr>sp_base_decimals := coalesce (sp_base_decimals q) (sp_base_decimals p),
             sp_quote_decimals := coalesce (sp_quote_decimals q) (sp_quote_decimals p)\<rparr>
      else q)"

definition upsert_pool :: "stored_pool \<Rightarrow> stored_pool list \<Rightarrow> stored_pool list" where
  "upsert_pool p tbl =
     (if sp_pool p \<in> sp_pool ` set tbl then map (merge_decimals p) tbl else tbl @ [p])"

definition write_pool ::
  "string \<Rightarrow> string \<Rightarrow> string \<Rightarrow> i32 option \<Rightarrow> i32 option \<Rightarrow> db \<Rightarrow> unit outcome \<times> db" where
  "write_pool pool base_mint quote_mint base_decimals quote_decimals =
     execute (\<lambda>t. Inr ((), t\<lparr>pools := upsert_pool
       \<lparr>sp_pool = pool, sp_base_mint = base_mint, sp_quote_mint = quote_mint,
        sp_base_decimals = base_decimals, sp_quote_decimals = quote_decimals\<rparr> (pools t)\<rparr>))"

definition load_pools :: "db \<Rightarrow> stored_pool list outcome \<times> db" where
  "load_pools = execute (\<lambda>t. Inr (pools t, t))"

section \<open>Dead letters\<close>

definition letter_of :: "string \<Rightarrow> pending_write \<Rightarrow> dead_letter" where
  "letter_of err p =
     \<lparr>dl_signature = e_signature (pw_event p), dl_path = e_path (pw_event p),
      dl_ordinal = e_ordinal (pw_event p), dl_slot = e_slot (pw_event p),
      dl_payload = e_payload (pw_event p), dl_error = err\<rparr>"

definition write_dead_letters :: "pending_write list \<Rightarrow> string \<Rightarrow> db \<Rightarrow> unit outcome \<times> db" where
  "write_dead_letters rows err =
     (if rows = [] then return ()
      else execute (\<lambda>t. Inr ((), t\<lparr>dead_letters := dead_letters t @ map (letter_of err) rows\<rparr>)))"

section \<open>Stream gaps\<close>

text \<open>
  The identifier is drawn from the sequence before the conflict is noticed, so a refused row
  uses one up.
\<close>

definition gap_stmt :: "i64 \<Rightarrow> i64 \<Rightarrow> i64 \<Rightarrow> nat \<Rightarrow> string \<Rightarrow> tables \<Rightarrow> db_error + bool \<times> tables" where
  "gap_stmt start_slot end_slot missed detected_at detected_by t =
     (let row = \<lparr>g_id = next_gap_id t, g_start = start_slot, g_end = end_slot, g_missed = missed,
            g_detected_at = detected_at, g_detected_by = detected_by, g_recovered_at = None,
            g_method = None, g_status = ''open''\<rparr>;
          t' = t\<lparr>next_gap_id := next_gap_id t + 1\<rparr>
      in if (start_slot, end_slot) \<in> (\<lambda>g. (g_start g, g_end g)) ` set (stream_gaps t)
         then Inr (False, t') else Inr (True, t'\<lparr>stream_gaps := stream_gaps t @ [row]\<rparr>))"

definition write_gap ::
  "i64 \<Rightarrow> i64 \<Rightarrow> i64 \<Rightarrow> nat \<Rightarrow> string \<Rightarrow> db \<Rightarrow> bool outcome \<times> db" where
  "write_gap start_slot end_slot missed detected_at detected_by =
     execute (gap_stmt start_slot end_slot missed detected_at detected_by)"

definition open_gaps_of :: "gap_row list \<Rightarrow> open_gap list" where
  "open_gaps_of gs =
     map (\<lambda>g. \<lparr>og_id = g_id g, og_start = g_start g, og_end = g_end g\<rparr>)
       (sort_key g_id (filter (\<lambda>g. g_status g = ''open'') gs))"

definition open_gaps :: "db \<Rightarrow> open_gap list outcome \<times> db" where
  "open_gaps = execute (\<lambda>t. Inr (open_gaps_of (stream_gaps t), t))"

definition mark_row :: "nat \<Rightarrow> string \<Rightarrow> gap_row \<Rightarrow> gap_row" where
  "mark_row now status g =
     g\<lparr>g_status := status,
       g_recovered_at := (if status = ''closed'' then Some now else g_recovered_at g),
       g_method := (if status = ''closed'' then Some ''rpc-block-fetch'' else g_method g)\<rparr>"

definition gap_status_ok :: "string \<Rightarrow> bool" where
  "gap_status_ok s \<longleftrightarrow> s \<in> {''open'', ''recovering'', ''closed''}"

definition mark_stmt :: "nat \<Rightarrow> i64 \<Rightarrow> string \<Rightarrow> tables \<Rightarrow> db_error + unit \<times> tables" where
  "mark_stmt now gap_id status t =
     (if gap_id \<in> g_id ` set (stream_gaps t) \<and> \<not> gap_status_ok status then Inl Check_violation
      else Inr ((), t\<lparr>stream_gaps :=
        map (\<lambda>g. if g_id g = gap_id then mark_row now status g else g) (stream_gaps t)\<rparr>))"

definition mark_gap :: "nat \<Rightarrow> i64 \<Rightarrow> string \<Rightarrow> db \<Rightarrow> unit outcome \<times> db" where
  "mark_gap now gap_id status = execute (mark_stmt now gap_id status)"

section \<open>Repair\<close>

text \<open>
  Events with no trade row, by slot. Rows of one slot come in the order of the executor's
  \<open>scan\<close>, a permutation of the table.
\<close>

definition missing_trades :: "(event_row list \<Rightarrow> event_row list) \<Rightarrow> tables \<Rightarrow> event_row list" where
  "missing_trades scan t = sort_key e_slot
     (filter (\<lambda>e. event_key e \<notin> trade_key ` set (trades t)) (scan (events t)))"

definition load_unrepaired ::
  "(event_row list \<Rightarrow> event_row list) \<Rightarrow> i64 \<Rightarrow> db \<Rightarrow> unrepaired_event list outcome \<times> db" where
  "load_unrepaired scan limit = execute (\<lambda>t.
     if limit < 0 then Inl Invalid_limit
     else Inr (take (nat limit) (missing_trades scan t), t))"

definition write_repaired :: "repaired_trade list \<Rightarrow> db \<Rightarrow> nat outcome \<times> db" where
  "write_repaired rows = (if rows = [] then return 0 else execute (insert_trades rows))"

section \<open>What the schema enforces\<close>

definition gap_range :: "gap_row \<Rightarrow> i64 \<times> i64" where
  "gap_range g = (g_start g, g_end g)"

definition gaps_ok :: "gap_row list \<Rightarrow> i64 \<Rightarrow> bool" where
  "gaps_ok gs n \<longleftrightarrow> distinct (map gap_range gs) \<and> distinct (map g_id gs)
     \<and> (\<forall>g \<in> set gs. g_id g < n \<and> gap_status_ok (g_status g))"

definition trades_ok :: "event_row list \<Rightarrow> repaired_trade list \<Rightarrow> bool" where
  "trades_ok es ts \<longleftrightarrow> distinct (map trade_key ts)
     \<and> trade_key ` set ts \<subseteq> event_key ` set es
     \<and> (\<forall>r \<in> set ts. trade_error (r_trade r) = None)"

definition tables_ok :: "tables \<Rightarrow> bool" where
  "tables_ok t \<longleftrightarrow> distinct (map event_key (events t)) \<and> trades_ok (events t) (trades t)
     \<and> distinct (map sp_pool (pools t)) \<and> gaps_ok (stream_gaps t) (next_gap_id t)"

named_theorems keeps_ok \<open>statements keep the schema's invariant\<close>

lemma tables_ok_empty: "tables_ok empty_tables"
  by (simp add: tables_ok_def trades_ok_def gaps_ok_def empty_tables_def)

lemma first_error_None: "first_error ts = None \<longleftrightarrow> (\<forall>t \<in> set ts. trade_error t = None)"
  by (induction ts) (auto split: option.splits)

interpretation event_store: keyed_store
  "\<lambda>tbl. distinct (map event_key tbl)" "\<lambda>tbl. event_key ` set tbl" insert_events event_key
  by unfold_locales
    (simp_all add: insert_events_def distinct_insert_do_nothing insert_do_nothing_known)

interpretation trade_store: keyed_store
  "\<lambda>tbl. distinct (map trade_key tbl)" "\<lambda>tbl. trade_key ` set tbl"
  "\<lambda>rows tbl. insert_do_nothing trade_key tbl rows" trade_key
  by unfold_locales (simp_all add: distinct_insert_do_nothing insert_do_nothing_known)

lemma insert_trades_Inr:
  assumes "insert_trades rows t = Inr (n, t')"
  shows "t' = t\<lparr>trades := insert_do_nothing trade_key (trades t) rows\<rparr>"
    and "n = length (trades t') - length (trades t)"
    and "\<forall>r \<in> set rows. trade_error (r_trade r) = None"
  using assms
  by (auto simp: insert_trades_def Let_def first_error_None split: option.splits if_splits)

lemma insert_trades_inserted:
  assumes "insert_trades rows t = Inr (n, t')" "r \<in> set (trades t')"
  shows "r \<in> set (trades t) \<or> r \<in> set rows \<and> trade_key r \<in> event_key ` set (events t)"
proof -
  let ?new = "insert_do_nothing trade_key (trades t) rows"
  obtain added where new: "?new = trades t @ added"
    using insert_do_nothing_extends by blast
  have fk: "\<forall>r \<in> set added. trade_key r \<in> event_key ` set (events t)"
    using assms(1) new
    by (auto simp: insert_trades_def Let_def split: option.splits if_splits)
  have "r \<in> set ?new" using assms(2) insert_trades_Inr(1) [OF assms(1)] by simp
  moreover from this have "r \<in> set (trades t) \<or> r \<in> set rows"
    using insert_do_nothing_only by fastforce
  ultimately show ?thesis using fk new by auto
qed

lemma trades_ok_more_events:
  "trades_ok es ts \<Longrightarrow> event_key ` set es \<subseteq> event_key ` set es' \<Longrightarrow> trades_ok es' ts"
  unfolding trades_ok_def by (blast intro: subset_trans)

lemma events_stmt_ok [keeps_ok]:
  assumes "tables_ok t" "events_stmt rows t = Inr (x, t')"
  shows "tables_ok t'"
proof -
  have t': "t' = t\<lparr>events := insert_events (map pw_event rows) (events t)\<rparr>"
    using assms(2) by (simp add: events_stmt_def)
  have "trades_ok (insert_events (map pw_event rows) (events t)) (trades t)"
    by (rule trades_ok_more_events [of "events t"])
      (use assms(1) in \<open>simp_all add: tables_ok_def insert_events_def\<close>)
  then show ?thesis using assms(1) by (simp add: t' tables_ok_def event_store.inv_put)
qed

lemma insert_trades_ok [keeps_ok]:
  assumes ok: "tables_ok t" and ins: "insert_trades rows t = Inr (n, t')"
  shows "tables_ok t'"
proof -
  have ev: "events t' = events t" and rest: "pools t' = pools t"
    "stream_gaps t' = stream_gaps t" "next_gap_id t' = next_gap_id t"
    using insert_trades_Inr(1) [OF ins] by simp_all
  have "distinct (map trade_key (trades t'))"
    using ok insert_trades_Inr(1) [OF ins]
    by (simp add: tables_ok_def trades_ok_def distinct_insert_do_nothing)
  moreover have "trade_key ` set (trades t') \<subseteq> event_key ` set (events t)"
    using ok insert_trades_inserted [OF ins] unfolding tables_ok_def trades_ok_def
    by (blast intro: image_subsetI)
  moreover have "\<forall>r \<in> set (trades t'). trade_error (r_trade r) = None"
    using ok insert_trades_inserted [OF ins] insert_trades_Inr(3) [OF ins]
    by (auto simp: tables_ok_def trades_ok_def)
  ultimately show ?thesis using ok by (simp add: tables_ok_def trades_ok_def ev rest)
qed

lemma trades_stmt_ok [keeps_ok]:
  "tables_ok t \<Longrightarrow> trades_stmt rows t = Inr (x, t') \<Longrightarrow> tables_ok t'"
  by (auto simp: trades_stmt_def split: sum.splits prod.splits intro: insert_trades_ok)

lemma merge_decimals_same [simp]:
  "sp_pool (merge_decimals p q) = sp_pool q"
  "sp_base_mint (merge_decimals p q) = sp_base_mint q"
  "sp_quote_mint (merge_decimals p q) = sp_quote_mint q"
  by (simp_all add: merge_decimals_def)

lemma upsert_pool_names: "sp_pool ` set (upsert_pool p tbl) = insert (sp_pool p) (sp_pool ` set tbl)"
  by (auto simp: upsert_pool_def image_image)

lemma distinct_upsert_pool:
  "distinct (map sp_pool tbl) \<Longrightarrow> distinct (map sp_pool (upsert_pool p tbl))"
  by (auto simp: upsert_pool_def comp_def)

lemma upsert_pool_ok [keeps_ok]:
  "tables_ok t \<Longrightarrow> tables_ok (t\<lparr>pools := upsert_pool p (pools t)\<rparr>)"
  by (simp add: tables_ok_def distinct_upsert_pool)

lemma gaps_ok_mono: "gaps_ok gs n \<Longrightarrow> n \<le> m \<Longrightarrow> gaps_ok gs m"
  by (fastforce simp: gaps_ok_def)

lemma gaps_ok_snoc:
  "gaps_ok gs n \<Longrightarrow> gap_range g \<notin> gap_range ` set gs \<Longrightarrow> g_id g = n \<Longrightarrow>
     g_status g = ''open'' \<Longrightarrow> gaps_ok (gs @ [g]) (n + 1)"
  by (fastforce simp: gaps_ok_def gap_status_ok_def)

lemma gap_stmt_cases:
  assumes "gap_stmt a b m at src t = Inr (x, t')"
  obtains (known) "x = False" "(a, b) \<in> gap_range ` set (stream_gaps t)"
      "t' = t\<lparr>next_gap_id := next_gap_id t + 1\<rparr>"
  | (fresh) "x = True" "(a, b) \<notin> gap_range ` set (stream_gaps t)"
      "t' = t\<lparr>next_gap_id := next_gap_id t + 1, stream_gaps := stream_gaps t @
         [\<lparr>g_id = next_gap_id t, g_start = a, g_end = b, g_missed = m, g_detected_at = at,
           g_detected_by = src, g_recovered_at = None, g_method = None,
           g_status = ''open''\<rparr>]\<rparr>"
  using assms unfolding gap_stmt_def Let_def gap_range_def by (auto split: if_splits)

lemma gap_stmt_total: "\<exists>x t'. gap_stmt a b m at src t = Inr (x, t')"
  unfolding gap_stmt_def Let_def by (auto split: if_split)

lemma gap_stmt_ok [keeps_ok]:
  assumes "tables_ok t" "gap_stmt a b m at src t = Inr (x, t')"
  shows "tables_ok t'"
  using assms(2)
proof (cases rule: gap_stmt_cases)
  case known
  with assms(1) show ?thesis
    by (auto simp: tables_ok_def intro: gaps_ok_mono [where n = "next_gap_id t"])
next
  case fresh
  with assms(1) show ?thesis
    by (simp add: tables_ok_def gaps_ok_snoc gap_range_def)
qed

lemma mark_row_same [simp]:
  "gap_range (mark_row now s g) = gap_range g" "g_id (mark_row now s g) = g_id g"
  "g_status (mark_row now s g) = s"
  by (simp_all add: mark_row_def gap_range_def)

lemma gaps_ok_mark:
  "gaps_ok gs n \<Longrightarrow> gap_status_ok s \<or> i \<notin> g_id ` set gs \<Longrightarrow>
     gaps_ok (map (\<lambda>g. if g_id g = i then mark_row now s g else g) gs) n"
  by (auto simp: gaps_ok_def comp_def if_distrib cong: if_cong)

lemma mark_stmt_ok [keeps_ok]:
  "tables_ok t \<Longrightarrow> mark_stmt now i s t = Inr (x, t') \<Longrightarrow> tables_ok t'"
  by (auto simp: mark_stmt_def tables_ok_def gaps_ok_mark split: if_splits)

text \<open>Every amount the code can write fits the column, so no row is refused for its size.\<close>

lemma numeric_20_0_u64 [simp]: "numeric_20_0 (uint (n :: u64))"
  using uint_range_size [of n] by (simp add: numeric_20_0_def word_size)

end
