(* ===== verification/F64.thy ===== *)
theory F64
  imports Prelude Complex_Main "HOL-Library.Log_Nat"
begin

text \<open>
  Rust's \<^verbatim>\<open>f64\<close> as the code uses it: finite, non-negative values in the normal range, each
  represented by the rational number it denotes. An operation is the exact one followed by
  \<open>f64_round\<close>, rounding to 53 significant bits with ties to even. Integers up to
  \<open>2 ^ 53\<close> are exact, and rounding never passes such an integer: these two facts are what
  the percentile and the benchmark verdict need.
\<close>

type_synonym f64 = rat

definition round_half_even :: "rat \<Rightarrow> int" where
  "round_half_even x =
     (let f = \<lfloor>x\<rfloor>; d = x - of_int f in
      if d < 1 / 2 then f
      else if 1 / 2 < d then f + 1
      else if even f then f else f + 1)"

text \<open>The exponent of the leading bit: \<open>2 ^ binade x \<le> x < 2 ^ (binade x + 1)\<close>.\<close>

definition binade :: "rat \<Rightarrow> int" where
  "binade x =
     (if 1 \<le> x then int (floorlog 2 (nat \<lfloor>x\<rfloor>)) - 1
      else - int (floorlog 2 (nat (\<lceil>1 / x\<rceil> - 1))))"

definition f64_round :: "rat \<Rightarrow> f64" where
  "f64_round x =
     (if x \<le> 0 then 0
      else (let u = 2 powi (binade x - 52) in of_int (round_half_even (x / u)) * u))"

definition f64_of_u64 :: "u64 \<Rightarrow> f64" where
  "f64_of_u64 n = f64_round (of_nat (unat n))"

definition f64_add :: "f64 \<Rightarrow> f64 \<Rightarrow> f64" where
  "f64_add a b = f64_round (a + b)"

definition f64_mul :: "f64 \<Rightarrow> f64 \<Rightarrow> f64" where
  "f64_mul a b = f64_round (a * b)"

definition f64_div :: "f64 \<Rightarrow> f64 \<Rightarrow> f64" where
  "f64_div a b = f64_round (a / b)"

text \<open>\<^verbatim>\<open>x.ceil() as u64\<close>: the cast saturates.\<close>

definition f64_ceil_u64 :: "f64 \<Rightarrow> u64" where
  "f64_ceil_u64 x = (if \<lceil>x\<rceil> < 2 ^ 64 then of_nat (nat \<lceil>x\<rceil>) else - 1)"

lemma round_half_even_of_int [simp]: "round_half_even (of_int n) = n"
  by (simp add: round_half_even_def)

lemma round_half_even_le: "x \<le> of_int n \<Longrightarrow> round_half_even x \<le> n"
proof -
  assume le: "x \<le> of_int n"
  show "round_half_even x \<le> n"
  proof (cases "\<lfloor>x\<rfloor> < n")
    case True
    then show ?thesis by (auto simp: round_half_even_def Let_def)
  next
    case False
    with le have "x = of_int n" by (meson le_floor_iff not_less order_antisym)
    then show ?thesis by simp
  qed
qed

lemma round_half_even_ge: "of_int n \<le> x \<Longrightarrow> n \<le> round_half_even x"
proof -
  assume "of_int n \<le> x"
  then have "n \<le> \<lfloor>x\<rfloor>" by (simp add: le_floor_iff)
  then show ?thesis by (auto simp: round_half_even_def Let_def)
qed

lemma round_half_even_error: "\<bar>of_int (round_half_even x) - x\<bar> \<le> 1 / 2"
proof -
  have "of_int \<lfloor>x\<rfloor> \<le> x" "x < of_int \<lfloor>x\<rfloor> + 1" by linarith+
  then show ?thesis
    by (simp add: round_half_even_def Let_def abs_if, linarith)
qed

lemma binade_ge_1:
  assumes "1 \<le> x"
  shows "2 powi binade x \<le> x" and "x < 2 powi (binade x + 1)" and "0 \<le> binade x"
proof -
  let ?n = "nat \<lfloor>x\<rfloor>"
  have n: "0 < ?n" using assms by linarith
  have fl: "0 < floorlog 2 ?n" using n by (simp add: floorlog_def)
  have lo: "2 ^ (floorlog 2 ?n - 1) \<le> ?n" and hi: "?n < 2 ^ floorlog 2 ?n"
    using floorlog_bounds [of ?n 2] n by auto
  show b: "0 \<le> binade x" using assms fl by (simp add: binade_def)
  have e: "2 powi binade x = (2 :: rat) ^ (floorlog 2 ?n - 1)"
    using assms fl by (simp add: binade_def power_int_def nat_diff_distrib)
  have "(2 :: rat) ^ (floorlog 2 ?n - 1) \<le> of_nat ?n"
    using lo by (metis of_nat_le_iff of_nat_numeral of_nat_power)
  also have "\<dots> \<le> x" using assms by simp
  finally show "2 powi binade x \<le> x" by (simp add: e)
  have e1: "2 powi (binade x + 1) = (2 :: rat) ^ floorlog 2 ?n"
    using assms fl by (simp add: binade_def power_int_def)
  have "x < of_nat ?n + 1" using assms by (simp add: algebra_simps) linarith
  also have "\<dots> \<le> 2 ^ floorlog 2 ?n"
    using hi by (metis Suc_leI add.commute of_nat_Suc of_nat_le_iff of_nat_numeral of_nat_power)
  finally show "x < 2 powi (binade x + 1)" by (simp add: e1)
qed

lemma binade_le_52:
  assumes "0 < x" "x < 2 ^ 53"
  shows "binade x \<le> 52"
proof (cases "1 \<le> x")
  case True
  have "(2 :: rat) powi binade x \<le> x" by (rule binade_ge_1 [OF True])
  also have "\<dots> < 2 powi 53" using assms by simp
  finally have "binade x < 53"
    by (metis not_less one_le_numeral power_int_increasing)
  then show ?thesis by simp
next
  case False
  then show ?thesis by (simp add: binade_def)
qed

lemma int_on_grid:
  assumes "e \<le> 0"
  shows "\<exists>m. (of_int n :: rat) / 2 powi e = of_int m"
proof -
  have "(of_int n :: rat) / 2 powi e = of_int (n * 2 ^ nat (- e))"
    using assms by (simp add: power_int_def field_simps)
  then show ?thesis by blast
qed

lemma f64_round_le_int:
  assumes "x \<le> of_int n" "0 \<le> n" "x < 2 ^ 53"
  shows "f64_round x \<le> of_int n"
proof (cases "x \<le> 0")
  case True
  then show ?thesis using assms by (simp add: f64_round_def)
next
  case False
  define u :: rat where "u = 2 powi (binade x - 52)"
  have u: "0 < u" by (simp add: u_def)
  have "binade x - 52 \<le> 0" using binade_le_52 [of x] False assms by simp
  then obtain m where m: "(of_int n :: rat) / u = of_int m"
    using int_on_grid unfolding u_def by blast
  have "x / u \<le> of_int m" using assms u by (simp add: m [symmetric] divide_right_mono)
  then have "round_half_even (x / u) \<le> m" by (rule round_half_even_le)
  then have "of_int (round_half_even (x / u)) * u \<le> of_int m * u" using u by simp
  also have "of_int m * u = of_int n" using m u by (simp add: field_simps)
  finally show ?thesis using False by (simp add: f64_round_def Let_def u_def)
qed

lemma f64_round_int:
  assumes "0 \<le> n" "n < 2 ^ 53"
  shows "f64_round (of_int n) = of_int n"
proof (cases "n = 0")
  case True
  then show ?thesis by (simp add: f64_round_def)
next
  case False
  let ?x = "of_int n :: rat"
  define u :: rat where "u = 2 powi (binade ?x - 52)"
  have "?x < 2 ^ 53" using assms by (metis of_int_less_iff of_int_numeral of_int_power)
  moreover have "0 < ?x" using False assms by simp
  ultimately have "binade ?x - 52 \<le> 0" using binade_le_52 [of ?x] by simp
  then obtain m where m: "?x / u = of_int m"
    using int_on_grid unfolding u_def by blast
  have u: "0 < u" by (simp add: u_def)
  have "f64_round ?x = of_int (round_half_even (?x / u)) * u"
    using False assms by (simp add: f64_round_def Let_def u_def)
  also have "\<dots> = of_int m * u" by (simp add: m)
  also have "\<dots> = ?x" using m u by (simp add: field_simps)
  finally show ?thesis .
qed

lemma f64_of_u64_exact: "unat n < 2 ^ 53 \<Longrightarrow> f64_of_u64 n = of_nat (unat n)"
proof -
  assume "unat n < 2 ^ 53"
  then have "int (unat n) < int (2 ^ 53)" by (simp only: of_nat_less_iff)
  then have "int (unat n) < 2 ^ 53" by simp
  then show ?thesis
    using f64_round_int [of "int (unat n)"] by (simp add: f64_of_u64_def)
qed

lemma binade_le:
  assumes "0 < x"
  shows "2 powi binade x \<le> x"
proof (cases "1 \<le> x")
  case True
  then show ?thesis by (rule binade_ge_1)
next
  case False
  let ?n = "nat (\<lceil>1 / x\<rceil> - 1)"
  have y: "1 < 1 / x" using assms False by simp
  then have n: "0 < ?n" and up: "1 / x \<le> of_nat (?n + 1)" by linarith+
  have "?n < 2 ^ floorlog 2 ?n" using floorlog_bounds [of ?n 2] n by auto
  then have "(of_nat (?n + 1) :: rat) \<le> of_nat (2 ^ floorlog 2 ?n)" by (simp only: of_nat_le_iff)
  with up have "1 / x \<le> 2 ^ floorlog 2 ?n" by simp
  then show ?thesis
    using assms False by (simp add: binade_def power_int_minus field_simps)
qed

text \<open>The relative error of one operation.\<close>

lemma f64_round_error:
  assumes "0 < x"
  shows "\<bar>f64_round x - x\<bar> \<le> x * (1 / 2 ^ 53)"
proof -
  define u :: rat where "u = 2 powi (binade x - 52)"
  have u: "0 < u" by (simp add: u_def)
  have "f64_round x - x = (of_int (round_half_even (x / u)) - x / u) * u"
    using assms u by (simp add: f64_round_def Let_def u_def algebra_simps)
  then have "\<bar>f64_round x - x\<bar> = \<bar>of_int (round_half_even (x / u)) - x / u\<bar> * u"
    using u by (simp add: abs_mult)
  also have "\<dots> \<le> 1 / 2 * u"
    using round_half_even_error u by (intro mult_right_mono) auto
  also have "\<dots> = 2 powi binade x * (1 / 2 ^ 53)"
    by (simp add: u_def power_int_diff)
  also have "\<dots> \<le> x * (1 / 2 ^ 53)"
    using binade_le [OF assms] by (intro mult_right_mono) auto
  finally show ?thesis .
qed

text \<open>Values on the grid of their binade are exact, halves of integers among them.\<close>

lemma binade_less:
  assumes "0 < x" "x < 2 ^ k" "0 < k"
  shows "binade x < int k"
proof (cases "1 \<le> x")
  case True
  have "(2 :: rat) powi binade x \<le> x" by (rule binade_ge_1 [OF True])
  also have "\<dots> < 2 powi int k" using assms by simp
  finally show ?thesis by (metis not_less one_le_numeral power_int_increasing)
next
  case False
  then show ?thesis using assms(3) by (simp add: binade_def)
qed

lemma f64_round_grid:
  assumes "0 < x" "x = of_int m * 2 powi e" "binade x - 52 \<le> e"
  shows "f64_round x = x"
proof -
  define u :: rat where "u = 2 powi (binade x - 52)"
  have u: "0 < u" by (simp add: u_def)
  have "x / u = of_int m * 2 powi (e - (binade x - 52))"
    unfolding u_def by (subst assms(2)) (simp add: power_int_diff)
  also have "\<dots> = of_int (m * 2 ^ nat (e - (binade x - 52)))"
    using assms(3) by (simp add: power_int_def)
  finally have "x / u = of_int (m * 2 ^ nat (e - (binade x - 52)))" .
  then have "of_int (round_half_even (x / u)) * u = x" using u by (simp only: round_half_even_of_int) (simp add: field_simps)
  then show ?thesis using assms(1) by (simp add: f64_round_def Let_def u_def)
qed

lemma f64_round_half_int:
  assumes "n < 2 ^ 53"
  shows "f64_round (of_nat n / 2) = of_nat n / 2"
proof (cases "n = 0")
  case True
  then show ?thesis by (simp add: f64_round_def)
next
  case False
  have "(of_nat n :: rat) < 2 ^ 53" using assms by (metis of_nat_less_iff of_nat_numeral of_nat_power)
  then have "binade (of_nat n / 2) < 52" using False binade_less [of "of_nat n / 2" 52] by simp
  then show ?thesis using False by (intro f64_round_grid [where m = "int n" and e = "- 1"]) (simp_all add: power_int_minus)
qed

lemma f64_half: "f64_round (1 / 2) = 1 / 2"
  using f64_round_half_int [of 1] by simp

text \<open>The results of an operation and of a conversion, bounded.\<close>

lemma f64_round_nonneg: "0 \<le> f64_round x"
proof (cases "0 < x")
  case True
  then have "0 \<le> round_half_even (x / 2 powi (binade x - 52))"
    by (intro round_half_even_ge) simp
  then show ?thesis by (simp add: f64_round_def Let_def)
qed (simp add: f64_round_def)

lemma f64_round_bounds:
  assumes "0 \<le> x"
  shows "f64_round x \<le> x * (1 + 1 / 2 ^ 53)" "x * (1 - 1 / 2 ^ 53) \<le> f64_round x"
proof -
  have err: "\<bar>f64_round x - x\<bar> \<le> x * (1 / 2 ^ 53)"
    using f64_round_error [of x] assms by (cases "x = 0") (simp_all add: f64_round_def)
  show "f64_round x \<le> x * (1 + 1 / 2 ^ 53)"
    using abs_le_D1 [OF err] unfolding distrib_left by linarith
  show "x * (1 - 1 / 2 ^ 53) \<le> f64_round x"
    using abs_le_D2 [OF err] unfolding right_diff_distrib by linarith
qed

lemma f64_of_u64_pos:
  assumes "0 < w"
  shows "1 - 1 / 2 ^ 53 \<le> f64_of_u64 w"
proof -
  have "Suc 0 \<le> unat w" using assms by (simp add: word_less_nat_alt)
  then have "(of_nat (Suc 0) :: rat) \<le> of_nat (unat w)" by (simp only: of_nat_le_iff)
  then have "1 * (1 - 1 / 2 ^ 53) \<le> of_nat (unat w) * (1 - 1 / 2 ^ 53 :: rat)"
    by (intro mult_right_mono) simp_all
  also have "\<dots> \<le> f64_of_u64 w" unfolding f64_of_u64_def by (rule f64_round_bounds) (rule of_nat_0_le_iff)
  finally show ?thesis by simp
qed

abbreviation ulp_low :: rat where "ulp_low \<equiv> 1 - 1 / 2 ^ 53"
abbreviation ulp_high :: rat where "ulp_high \<equiv> 1 + 1 / 2 ^ 53"

lemma f64_of_u64_bounds:
  "of_nat (unat w) * ulp_low \<le> f64_of_u64 w" "f64_of_u64 w \<le> of_nat (unat w) * ulp_high"
  unfolding f64_of_u64_def by (rule f64_round_bounds, rule of_nat_0_le_iff)+

end
