(* ===== verification/Metrics.thy ===== *)
theory Metrics
  imports F64
begin

text \<open>
  \<^verbatim>\<open>src/metrics.rs\<close>: the process-wide counters (each \<^verbatim>\<open>AtomicU64\<close> static is a constructor of
  \<open>counter\<close>; increments wrap as \<^verbatim>\<open>fetch_add\<close> does), the two slot gauges, the commit lag, the
  latency histograms with their percentile summary, and the numbers of the Prometheus text
  that \<^verbatim>\<open>render\<close> prints; its layout is the theory \<^verbatim>\<open>Render\<close>. The tasks that print or serve
  them are not modelled.
\<close>

section \<open>Counters\<close>

datatype counter =
    EVENTS_DECODED | SKIPPED_FAILED | POOL_CACHE_HITS | POOL_CACHE_MISSES
  | POOL_LOOKUPS | POOL_LOOKUP_ERRORS | LOOKUPS_DROPPED | REPLAY_SKIPPED
  | DB_WRITE_ERRORS | DEAD_LETTERS | GAP_DETECTED | HEAD_SLOT | COMMITTED_SLOT
  | TRADES_WRITTEN | UNORIENTED | ORIENTED_NORMAL | ORIENTED_INVERTED

definition BUCKETS :: nat where "BUCKETS = 10"

definition BUCKET_EDGES_US :: "u64 list" where
  "BUCKET_EDGES_US =
     [500, 1000, 5000, 25000, 100000, 500000, 2000000, 10000000, 60000000]"

record histogram =
  buckets :: "u64 list"
  sum_us :: u64

record metrics =
  counters :: "counter \<Rightarrow> u64"
  decode_time :: histogram
  flush_time :: histogram
  receive_to_committed :: histogram

definition new_histogram :: histogram where
  "new_histogram = \<lparr>buckets = replicate BUCKETS 0, sum_us = 0\<rparr>"

definition new_metrics :: metrics where
  "new_metrics = \<lparr>counters = (\<lambda>_. 0), decode_time = new_histogram,
     flush_time = new_histogram, receive_to_committed = new_histogram\<rparr>"

definition inc :: "counter \<Rightarrow> metrics \<Rightarrow> metrics" where
  "inc c m = m\<lparr>counters := (counters m)(c := counters m c + 1)\<rparr>"

definition get :: "counter \<Rightarrow> metrics \<Rightarrow> u64" where
  "get c m = counters m c"

definition set_head_slot :: "u64 \<Rightarrow> metrics \<Rightarrow> metrics" where
  "set_head_slot slot m =
     m\<lparr>counters := (counters m)(HEAD_SLOT := max (counters m HEAD_SLOT) slot)\<rparr>"

definition set_committed_slot :: "u64 \<Rightarrow> metrics \<Rightarrow> metrics" where
  "set_committed_slot slot m =
     m\<lparr>counters := (counters m)(COMMITTED_SLOT := max (counters m COMMITTED_SLOT) slot)\<rparr>"

definition commit_lag_slots :: "metrics \<Rightarrow> u64" where
  "commit_lag_slots m =
     (let committed = get COMMITTED_SLOT m in
      if committed = 0 then 0 else saturating_sub (get HEAD_SLOT m) committed)"

lemma get_inc [simp]: "get c (inc c' m) = (if c = c' then get c m + 1 else get c m)"
  by (simp add: get_def inc_def)

lemma get_set_head_slot [simp]:
  "get c (set_head_slot s m) = (if c = HEAD_SLOT then max (get c m) s else get c m)"
  by (simp add: get_def set_head_slot_def)

lemma get_set_committed_slot [simp]:
  "get c (set_committed_slot s m) =
     (if c = COMMITTED_SLOT then max (get c m) s else get c m)"
  by (simp add: get_def set_committed_slot_def)

interpretation head: max_register "get HEAD_SLOT" set_head_slot
  by unfold_locales simp

interpretation committed: max_register "get COMMITTED_SLOT" set_committed_slot
  by unfold_locales simp

section \<open>Histograms\<close>

text \<open>\<^verbatim>\<open>Iterator::position\<close>.\<close>

fun position :: "('a \<Rightarrow> bool) \<Rightarrow> 'a list \<Rightarrow> nat option" where
  "position p [] = None"
| "position p (x # xs) = (if p x then Some 0 else map_option Suc (position p xs))"

definition bucket_of :: "u64 \<Rightarrow> nat" where
  "bucket_of us = (case position (\<lambda>edge. us \<le> edge) BUCKET_EDGES_US of
      None \<Rightarrow> BUCKETS - 1 | Some i \<Rightarrow> i)"

text \<open>The elapsed time in microseconds is a \<^verbatim>\<open>u128\<close> that \<^verbatim>\<open>as u64\<close> truncates.\<close>

definition observe :: "nat \<Rightarrow> histogram \<Rightarrow> histogram" where
  "observe elapsed h =
     (let us = of_nat elapsed; slot = bucket_of us in
      h\<lparr>buckets := (buckets h)[slot := buckets h ! slot + 1], sum_us := sum_us h + us\<rparr>)"

record histogram_summary =
  count :: u64
  mean_ms :: "f64 option"
  p50_upper_ms :: "f64 option"
  p95_upper_ms :: "f64 option"
  p99_upper_ms :: "f64 option"

fun percentile_loop :: "u64 list \<Rightarrow> u64 \<Rightarrow> u64 \<Rightarrow> nat \<Rightarrow> nat option" where
  "percentile_loop [] target running index = None"
| "percentile_loop (v # vs) target running index =
     (if target \<le> running + v then Some index
      else percentile_loop vs target (running + v) (Suc index))"

definition edge_ms :: "nat \<Rightarrow> f64 option" where
  "edge_ms index =
     (if index < length BUCKET_EDGES_US
      then Some (f64_div (f64_of_u64 (BUCKET_EDGES_US ! index)) 1000) else None)"

definition percentile_target :: "u64 \<Rightarrow> f64 \<Rightarrow> u64" where
  "percentile_target n percentile = f64_ceil_u64 (f64_mul (f64_of_u64 n) percentile)"

definition percentile_upper_ms :: "u64 list \<Rightarrow> u64 \<Rightarrow> f64 \<Rightarrow> f64 option" where
  "percentile_upper_ms bs n percentile =
     (if n = 0 then None
      else (case percentile_loop bs (percentile_target n percentile) 0 0 of
              None \<Rightarrow> None | Some index \<Rightarrow> edge_ms index))"

definition summary :: "histogram \<Rightarrow> histogram_summary" where
  "summary h = (let n = sum_list (buckets h) in
     \<lparr>count = n,
      mean_ms = (if n = 0 then None
        else Some (f64_div (f64_div (f64_of_u64 (sum_us h)) (f64_of_u64 n)) 1000)),
      p50_upper_ms = percentile_upper_ms (buckets h) n (f64_round (1 / 2)),
      p95_upper_ms = percentile_upper_ms (buckets h) n (f64_round (95 / 100)),
      p99_upper_ms = percentile_upper_ms (buckets h) n (f64_round (99 / 100))\<rparr>)"

text \<open>
  The cumulative counts \<^verbatim>\<open>histogram\<close> prints: one running total per edge, then the total for
  \<^verbatim>\<open>+Inf\<close>, which is also the \<^verbatim>\<open>_count\<close> line.
\<close>

fun running_totals :: "u64 \<Rightarrow> u64 list \<Rightarrow> u64 list" where
  "running_totals r [] = []"
| "running_totals r (v # vs) = (r + v) # running_totals (r + v) vs"

definition rendered_buckets :: "histogram \<Rightarrow> u64 list" where
  "rendered_buckets h = running_totals 0 (buckets h)"

definition rendered_count :: "histogram \<Rightarrow> u64" where
  "rendered_count h = last (rendered_buckets h)"

definition well_formed :: "histogram \<Rightarrow> bool" where
  "well_formed h \<longleftrightarrow> length (buckets h) = BUCKETS"

lemma length_edges [simp]: "length BUCKET_EDGES_US = 9"
  by (simp add: BUCKET_EDGES_US_def)

lemma position_Some:
  "position p xs = Some i \<Longrightarrow> i < length xs \<and> p (xs ! i) \<and> (\<forall>j < i. \<not> p (xs ! j))"
proof (induction xs arbitrary: i)
  case (Cons x xs)
  then show ?case by (cases i) (auto split: if_splits simp: less_Suc_eq_0_disj)
qed simp

lemma position_None: "position p xs = None \<longleftrightarrow> (\<forall>x \<in> set xs. \<not> p x)"
  by (induction xs) auto

lemma bucket_of_less: "bucket_of us < BUCKETS"
  by (auto simp: bucket_of_def BUCKETS_def split: option.splits dest: position_Some)

lemma well_formed_new: "well_formed new_histogram"
  by (simp add: well_formed_def new_histogram_def)

lemma well_formed_observe [simp]: "well_formed (observe t h) = well_formed h"
  by (simp add: well_formed_def observe_def Let_def)

lemma sum_list_incr:
  "i < length xs \<Longrightarrow> sum_list (xs[i := xs ! i + 1]) = sum_list xs + (1 :: u64)"
proof (induction xs arbitrary: i)
  case (Cons x xs)
  then show ?case by (cases i) (auto simp: algebra_simps)
qed simp

lemma total_observe:
  "well_formed h \<Longrightarrow> sum_list (buckets (observe t h)) = sum_list (buckets h) + 1"
  using bucket_of_less by (simp add: observe_def Let_def sum_list_incr well_formed_def)

lemma last_running_totals:
  "last (r # running_totals r vs) = r + sum_list vs"
  by (induction vs arbitrary: r) (auto simp: algebra_simps)

lemma unat_of_nat_u64: "n < 2 ^ 64 \<Longrightarrow> unat (of_nat n :: u64) = n"
  by (simp add: unsigned_of_nat take_bit_nat_eq_self)

section \<open>What the buckets count\<close>

text \<open>
  Bucket boundaries: an observation falls into one of the first \<open>i + 1\<close> buckets exactly when it
  is at most the \<open>i\<close>-th edge.
\<close>

lemma edges_sorted: "i \<le> j \<Longrightarrow> j < 9 \<Longrightarrow> BUCKET_EDGES_US ! i \<le> BUCKET_EDGES_US ! j"
proof -
  have "sorted BUCKET_EDGES_US" by (simp add: BUCKET_EDGES_US_def)
  then show "i \<le> j \<Longrightarrow> j < 9 \<Longrightarrow> BUCKET_EDGES_US ! i \<le> BUCKET_EDGES_US ! j"
    by (auto intro: sorted_nth_mono)
qed

lemma bucket_of_le:
  assumes "i < 9"
  shows "bucket_of us \<le> i \<longleftrightarrow> us \<le> BUCKET_EDGES_US ! i"
proof (cases "position (\<lambda>edge. us \<le> edge) BUCKET_EDGES_US")
  case None
  then have "\<not> us \<le> BUCKET_EDGES_US ! i" using assms by (simp add: position_None)
  with None assms show ?thesis by (simp add: bucket_of_def BUCKETS_def)
next
  case (Some k)
  have k: "k < 9" "us \<le> BUCKET_EDGES_US ! k" "\<forall>j < k. \<not> us \<le> BUCKET_EDGES_US ! j"
    using position_Some [OF Some] by simp_all
  show ?thesis
  proof
    assume "bucket_of us \<le> i"
    then have "BUCKET_EDGES_US ! k \<le> BUCKET_EDGES_US ! i"
      using Some assms edges_sorted by (simp add: bucket_of_def)
    with k(2) show "us \<le> BUCKET_EDGES_US ! i" by simp
  next
    assume "us \<le> BUCKET_EDGES_US ! i"
    then have "\<not> i < k" using k(3) by blast
    with Some show "bucket_of us \<le> i" by (simp add: bucket_of_def)
  qed
qed

lemma nth_running_totals:
  "i < length vs \<Longrightarrow> running_totals r vs ! i = r + sum_list (take (Suc i) vs)"
proof (induction vs arbitrary: r i)
  case (Cons v vs)
  then show ?case by (cases i) (simp_all add: algebra_simps)
qed simp

lemma sum_take_incr:
  "k < length xs \<Longrightarrow>
     sum_list (take (Suc i) (xs[k := xs ! k + 1])) = sum_list (take (Suc i) xs) + (if k \<le> i then 1 else (0 :: u64))"
proof (induction xs arbitrary: k i)
  case (Cons x xs)
  show ?case
  proof (cases k)
    case 0
    then show ?thesis by (simp add: algebra_simps)
  next
    case (Suc k')
    with Cons show ?thesis by (cases i) (auto simp: algebra_simps)
  qed
qed simp

definition observe_all :: "nat list \<Rightarrow> histogram \<Rightarrow> histogram" where
  "observe_all ts h = fold observe ts h"

definition at_most :: "nat \<Rightarrow> nat list \<Rightarrow> nat" where
  "at_most i ts = (if i < 9 then length (filter (\<lambda>t. t \<le> unat (BUCKET_EDGES_US ! i)) ts) else length ts)"

lemma well_formed_observe_all: "well_formed (observe_all ts h) = well_formed h"
  unfolding observe_all_def by (induction ts arbitrary: h) simp_all

lemma bucket_of_at_most:
  assumes "t < 2 ^ 64" "i < 10"
  shows "bucket_of (of_nat t) \<le> i \<longleftrightarrow> i = 9 \<or> t \<le> unat (BUCKET_EDGES_US ! i)"
proof (cases "i < 9")
  case True
  have "unat (of_nat t :: u64) = t" using assms(1) by (simp add: unat_of_nat_u64)
  with True show ?thesis by (simp add: bucket_of_le word_le_nat_alt)
next
  case False
  with assms(2) have "i = 9" by simp
  then show ?thesis using bucket_of_less [of "of_nat t"] by (simp add: BUCKETS_def)
qed

lemma take_observe_all:
  "well_formed h \<Longrightarrow> i < 10 \<Longrightarrow> \<forall>t \<in> set ts. t < 2 ^ 64 \<Longrightarrow>
     sum_list (take (Suc i) (buckets (observe_all ts h))) =
       sum_list (take (Suc i) (buckets h)) + of_nat (at_most i ts)"
proof (induction ts arbitrary: h)
  case Nil
  then show ?case by (simp add: observe_all_def at_most_def)
next
  case (Cons t ts)
  have "bucket_of (of_nat t) < length (buckets h)"
    using Cons.prems(1) bucket_of_less by (simp add: well_formed_def)
  then have "sum_list (take (Suc i) (buckets (observe t h))) =
      sum_list (take (Suc i) (buckets h)) + (if bucket_of (of_nat t) \<le> i then 1 else 0)"
    by (simp add: observe_def Let_def sum_take_incr)
  moreover have "bucket_of (of_nat t) \<le> i \<longleftrightarrow> i = 9 \<or> t \<le> unat (BUCKET_EDGES_US ! i)"
    using Cons.prems bucket_of_at_most by simp
  moreover have "observe_all (t # ts) h = observe_all ts (observe t h)" by (simp add: observe_all_def)
  ultimately show ?case
    using Cons.IH [of "observe t h"] Cons.prems by (auto simp: at_most_def)
qed

lemma sum_new_histogram: "sum_list (take i (buckets new_histogram)) = 0"
  by (simp add: new_histogram_def take_replicate sum_list_replicate)

lemma percentile_loop_Some:
  "percentile_loop vs target r k = Some i \<Longrightarrow> k \<le> i \<and> i < k + length vs
     \<and> target \<le> r + sum_list (take (Suc (i - k)) vs)
     \<and> (\<forall>j. k \<le> j \<longrightarrow> j < i \<longrightarrow> \<not> target \<le> r + sum_list (take (Suc (j - k)) vs))"
proof (induction vs arbitrary: r k)
  case (Cons v vs)
  show ?case
  proof (cases "target \<le> r + v")
    case True
    with Cons.prems show ?thesis by auto
  next
    case False
    with Cons.prems have "percentile_loop vs target (r + v) (Suc k) = Some i" by simp
    from Cons.IH [OF this] have IH: "Suc k \<le> i" "i < Suc k + length vs"
      "target \<le> r + v + sum_list (take (Suc (i - Suc k)) vs)"
      "\<And>j. Suc k \<le> j \<Longrightarrow> j < i \<Longrightarrow> \<not> target \<le> r + v + sum_list (take (Suc (j - Suc k)) vs)" by auto
    have t: "r + sum_list (take (Suc (j - k)) (v # vs)) = r + v + sum_list (take (Suc (j - Suc k)) vs)"
      if "Suc k \<le> j" for j
    proof -
      have "j - k = Suc (j - Suc k)" using that by simp
      then show ?thesis by (simp add: algebra_simps)
    qed
    have "\<not> target \<le> r + sum_list (take (Suc (j - k)) (v # vs))" if "k \<le> j" "j < i" for j
    proof (cases "j = k")
      case True
      then show ?thesis using False by simp
    next
      case ne: False
      then have j: "Suc k \<le> j" using that(1) by simp
      show ?thesis unfolding t [OF j] by (rule IH(4) [OF j that(2)])
    qed
    moreover have "target \<le> r + sum_list (take (Suc (i - k)) (v # vs))" unfolding t [OF IH(1)] by (rule IH(3))
    ultimately show ?thesis using IH(1,2) by simp
  qed
qed simp

lemma percentile_loop_None:
  "percentile_loop vs target r k = None \<Longrightarrow> j < length vs \<Longrightarrow> \<not> target \<le> r + sum_list (take (Suc j) vs)"
proof (induction vs arbitrary: r k j)
  case (Cons v vs)
  show ?case
  proof (cases j)
    case 0
    with Cons.prems show ?thesis by (auto split: if_splits)
  next
    case (Suc i)
    with Cons.prems have "\<not> target \<le> r + v + sum_list (take (Suc i) vs)"
      by (intro Cons.IH [of _ "Suc k"]) (auto split: if_splits)
    with Suc show ?thesis by (simp add: algebra_simps)
  qed
qed simp

text \<open>A percentile is answered with the first edge that enough observations do not exceed.\<close>

definition below :: "nat list \<Rightarrow> u64 \<Rightarrow> nat" where
  "below ts edge = length (filter (\<lambda>t. t \<le> unat edge) ts)"

lemma percentile_finds:
  assumes "\<forall>t \<in> set ts. t < 2 ^ 64" "length ts < 2 ^ 64"
  shows "percentile_upper_ms (buckets (observe_all ts new_histogram)) (of_nat (length ts)) p =
    (if ts = [] then None
     else map_option (\<lambda>e. f64_div (f64_of_u64 e) 1000)
       (find (\<lambda>e. unat (percentile_target (of_nat (length ts)) p) \<le> below ts e) BUCKET_EDGES_US))"
proof -
  let ?bs = "buckets (observe_all ts new_histogram)"
  let ?t = "percentile_target (of_nat (length ts)) p"
  let ?p = "\<lambda>e. unat ?t \<le> below ts e"
  have len: "length ?bs = 10"
    using well_formed_observe_all [of ts new_histogram] well_formed_new by (simp add: well_formed_def BUCKETS_def)
  have zero: "(of_nat (length ts) :: u64) = 0 \<longleftrightarrow> ts = []"
    using assms(2) unat_of_nat_u64 [of "length ts"] by (auto simp: unat_eq_0)
  have test: "?t \<le> 0 + sum_list (take (Suc j) ?bs) \<longleftrightarrow> ?p (BUCKET_EDGES_US ! j)" if "j < 9" for j
  proof -
    have "below ts (BUCKET_EDGES_US ! j) < 2 ^ 64"
      using assms(2) le_less_trans [OF length_filter_le] by (auto simp: below_def)
    then show ?thesis
      using that take_observe_all [OF well_formed_new _ assms(1), of j]
      by (simp add: sum_new_histogram at_most_def below_def word_le_nat_alt unat_of_nat_u64)
  qed
  have "(case percentile_loop ?bs ?t 0 0 of None \<Rightarrow> None | Some i \<Rightarrow> edge_ms i) =
      map_option (\<lambda>e. f64_div (f64_of_u64 e) 1000) (find ?p BUCKET_EDGES_US)"
  proof (cases "percentile_loop ?bs ?t 0 0")
    case None
    have "\<not> ?p e" if "e \<in> set BUCKET_EDGES_US" for e
    proof -
      obtain j where "j < 9" "e = BUCKET_EDGES_US ! j" using \<open>e \<in> _\<close> by (auto simp: in_set_conv_nth)
      then show ?thesis using percentile_loop_None [OF None, of j] test [of j] len by auto
    qed
    then have "find ?p BUCKET_EDGES_US = None" by (simp add: find_None_iff)
    with None show ?thesis by simp
  next
    case (Some i)
    note found = percentile_loop_Some [OF Some]
    have i: "i < 10" using found len by simp
    have before: "\<not> ?p (BUCKET_EDGES_US ! j)" if "j < i" for j
      using found that i test [of j] by auto
    show ?thesis
    proof (cases "i < 9")
      case True
      then have "?p (BUCKET_EDGES_US ! i)" using found test [of i] by simp
      then have "find ?p BUCKET_EDGES_US = Some (BUCKET_EDGES_US ! i)"
        using True before by (auto simp: find_Some_iff)
      with Some True show ?thesis by (simp add: edge_ms_def)
    next
      case False
      with i have "i = 9" by simp
      then have "find ?p BUCKET_EDGES_US = None" using before by (auto simp: find_None_iff in_set_conv_nth)
      with Some False show ?thesis by (simp add: edge_ms_def)
    qed
  qed
  then show ?thesis by (simp add: percentile_upper_ms_def zero)
qed


lemma total_observe_all:
  assumes "\<forall>t \<in> set ts. t < 2 ^ 64"
  shows "sum_list (buckets (observe_all ts new_histogram)) = of_nat (length ts)"
proof -
  let ?h = "observe_all ts new_histogram"
  have "length (buckets ?h) = 10"
    using well_formed_observe_all [of ts new_histogram] well_formed_new by (simp add: well_formed_def BUCKETS_def)
  then show ?thesis
    using take_observe_all [OF well_formed_new _ assms, of 9] by (simp add: at_most_def sum_new_histogram)
qed

lemma half_target:
  assumes "n < 2 ^ 53"
  shows "unat (percentile_target (of_nat n) (f64_round (1 / 2))) = (n + 1) div 2"
proof -
  have n: "unat (of_nat n :: u64) = n" using assms by (simp add: unat_of_nat_u64)
  then have "f64_of_u64 (of_nat n) = of_nat n" using assms f64_of_u64_exact [of "of_nat n"] by simp
  then have prod: "f64_mul (f64_of_u64 (of_nat n)) (f64_round (1 / 2)) = of_nat n / 2"
    using f64_round_half_int [OF assms] by (simp add: f64_mul_def f64_half)
  have ceil: "\<lceil>(of_nat n :: rat) / 2\<rceil> = int ((n + 1) div 2)"
  proof (cases "even n")
    case True
    then obtain k where "n = 2 * k" by (rule evenE)
    then show ?thesis by (simp add: of_nat_mult)
  next
    case False
    then obtain k where k: "n = 2 * k + 1" by (rule oddE)
    then have h: "(of_nat n :: rat) / 2 = of_nat k + 1 / 2" by (simp add: field_simps)
    have "\<lceil>of_nat k + 1 / 2 :: rat\<rceil> = int k + 1" by (rule ceiling_unique) simp_all
    with k show ?thesis unfolding h by simp
  qed
  have k: "(n + 1) div 2 < 2 ^ 64" using assms by simp
  then have "int ((n + 1) div 2) < 2 ^ 64" by (metis of_nat_less_iff of_nat_numeral of_nat_power)
  then show ?thesis
    unfolding percentile_target_def f64_ceil_u64_def prod ceil
    by (simp only: if_True nat_int unat_of_nat_u64 [OF k])
qed

lemma edge_in_ms:
  assumes "e \<in> set BUCKET_EDGES_US"
  shows "f64_div (f64_of_u64 e) 1000 = of_nat (unat e) / 1000"
proof -
  have small: "f64_of_u64 e = of_nat (unat e)" 
    using assms by (intro f64_of_u64_exact) (auto simp: BUCKET_EDGES_US_def)
  have "\<exists>k. k < 2 ^ 53 \<and> (of_nat (unat e) / 1000 :: rat) = of_nat k / 2"
    using assms by (intro exI [of _ "unat e div 500"]) (auto simp: BUCKET_EDGES_US_def)
  then obtain k where "k < 2 ^ 53" and k: "(of_nat (unat e) / 1000 :: rat) = of_nat k / 2" by blast
  then show ?thesis unfolding f64_div_def small k by (intro f64_round_half_int)
qed

section \<open>Properties\<close>

text \<open>
  Claim C39. The histograms count what they say: after any observations, the cumulative number
  printed for an edge is the number of observations of at most that many microseconds, and the
  number printed for infinity and as the count is that of all of them.
\<close>

theorem histogram_counts_observations:
  assumes "\<forall>t \<in> set ts. t < 2 ^ 64"
  shows "map (\<lambda>i. rendered_buckets (observe_all ts new_histogram) ! i) [0..<9] =
      map (\<lambda>e. of_nat (length (filter (\<lambda>t. t \<le> unat e) ts))) BUCKET_EDGES_US
    \<and> rendered_count (observe_all ts new_histogram) = of_nat (length ts)
    \<and> sum_list (buckets (observe_all ts new_histogram)) = of_nat (length ts)"
proof -
  let ?h = "observe_all ts new_histogram"
  have wf: "length (buckets ?h) = 10"
    using well_formed_observe_all [of ts new_histogram] well_formed_new by (simp add: well_formed_def BUCKETS_def)
  have all: "rendered_buckets ?h ! i = of_nat (at_most i ts)" if "i < 10" for i
    using that wf take_observe_all [OF well_formed_new that assms]
    by (simp add: rendered_buckets_def nth_running_totals sum_new_histogram)
  have "map (\<lambda>i. rendered_buckets ?h ! i) [0..<9] = map (\<lambda>i. of_nat (at_most i ts)) [0..<9]"
    using all by simp
  also have "\<dots> = map (\<lambda>i. of_nat (length (filter (\<lambda>t. t \<le> unat (BUCKET_EDGES_US ! i)) ts))) [0..<9]"
    by (simp add: at_most_def)
  also have "\<dots> = map (\<lambda>e. of_nat (length (filter (\<lambda>t. t \<le> unat e) ts))) BUCKET_EDGES_US"
    by (subst map_nth [of BUCKET_EDGES_US, symmetric]) (simp only: map_map comp_def length_edges)
  finally have edges: "map (\<lambda>i. rendered_buckets ?h ! i) [0..<9] =
      map (\<lambda>e. of_nat (length (filter (\<lambda>t. t \<le> unat e) ts))) BUCKET_EDGES_US" .
  have len: "length (rendered_buckets ?h) = 10"
  proof -
    have "length (running_totals r vs) = length vs" for r vs by (induction vs arbitrary: r) simp_all
    then show ?thesis using wf by (simp add: rendered_buckets_def)
  qed
  then have "rendered_buckets ?h \<noteq> []" by auto
  then have "rendered_count ?h = rendered_buckets ?h ! 9"
    using len by (simp add: rendered_count_def last_conv_nth)
  then have count: "rendered_count ?h = of_nat (length ts)" using all [of 9] by (simp add: at_most_def)
  have "sum_list (buckets ?h) = of_nat (length ts)" by (rule total_observe_all [OF assms])
  with edges count show ?thesis by blast
qed

theorem histogram_counts_observations_witness:
  "rendered_count (observe_all [1000, 20000, 80000, 600000] new_histogram) = 4"
  using histogram_counts_observations [of "[1000, 20000, 80000, 600000]"] by simp



text \<open>
  Claim C40. The median is the least sufficient edge: it is answered, in milliseconds, with the first
  bucket edge that at least half of the observations do not exceed, and with nothing exactly
  when there is no observation or more than half of them are beyond the last edge.
\<close>

theorem median_is_least_edge:
  assumes "\<forall>t \<in> set ts. t < 2 ^ 64" "length ts < 2 ^ 53"
  shows "p50_upper_ms (summary (observe_all ts new_histogram)) =
    (if ts = [] then None
     else map_option (\<lambda>e. of_nat (unat e) / 1000)
       (find (\<lambda>e. length ts \<le> 2 * length (filter (\<lambda>t. t \<le> unat e) ts)) BUCKET_EDGES_US))"
proof -
  have total: "sum_list (buckets (observe_all ts new_histogram)) = of_nat (length ts)"
    by (rule total_observe_all [OF assms(1)])
  have "find (\<lambda>e. unat (percentile_target (of_nat (length ts)) (f64_round (1 / 2))) \<le> below ts e) BUCKET_EDGES_US
      = find (\<lambda>e. length ts \<le> 2 * length (filter (\<lambda>t. t \<le> unat e) ts)) BUCKET_EDGES_US" (is "?l = ?r")
    unfolding half_target [OF assms(2)] below_def by (rule find_cong) auto
  moreover have "map_option (\<lambda>e. f64_div (f64_of_u64 e) 1000) ?r = map_option (\<lambda>e. of_nat (unat e) / 1000) ?r"
  proof (cases ?r)
    case (Some e)
    then have "e \<in> set BUCKET_EDGES_US" unfolding find_Some_iff by auto
    with Some show ?thesis by (simp add: edge_in_ms)
  qed simp
  moreover have "length ts < 2 ^ 64" using assms(2) by simp
  ultimately show ?thesis
    using percentile_finds [OF assms(1), of "f64_round (1 / 2)"] by (simp add: summary_def Let_def total)
qed

theorem median_is_least_edge_witness:
  "p50_upper_ms (summary (observe_all [1000, 20000, 80000, 600000] new_histogram)) = Some 25"
  using median_is_least_edge [of "[1000, 20000, 80000, 600000]"] by (simp add: BUCKET_EDGES_US_def)

end
