(* ===== verification/Writer.thy ===== *)
theory Writer
  imports Db Metrics
begin

text \<open>
  \<^verbatim>\<open>src/writer.rs\<close>: the task that batches rows and commits each batch together with the
  stream checkpoint.

  \<^item> The task's state is a \<open>writer\<close>: its channel, the batch in memory, the database, the
    counters, and \<open>unparked\<close>, the rows whose only trace is the line "could not park" on stderr.
  \<^item> \<open>writer_step\<close> is one turn of its \<^verbatim>\<open>select!\<close> loop or one action of the senders; \<open>None\<close>
    means that the action cannot happen now (an empty or full channel, a stopped task).
  \<^item> The clock readings of a flush are an argument, \<open>clock i\<close> being the i-th one in
    microseconds. The text of a database error is an argument too.
  \<^item> \<open>commit_effect\<close> is the abstract specification of a batch: all of it at once, or an error.
\<close>

section \<open>The task\<close>

datatype status = Running | Stopped | Stuck

record writer =
  queue :: "pending_write chan"
  senders_dropped :: bool
  batch :: "pending_write list"
  db :: db
  meter :: metrics
  unparked :: "pending_write list"
  status :: status

definition BATCH_SIZE :: nat where "BATCH_SIZE = 100"
definition WRITE_QUEUE_SIZE :: nat where "WRITE_QUEUE_SIZE = 10000"

definition spawn_writer :: "db \<Rightarrow> nat \<Rightarrow> metrics \<Rightarrow> writer" where
  "spawn_writer d n m = \<lparr>queue = new_chan n, senders_dropped = False, batch = [],
     db = d, meter = m, unparked = [], status = Running\<rparr>"

definition row_slot :: "pending_write \<Rightarrow> i64" where
  "row_slot r = e_slot (pw_event r)"

definition write_batch :: "pending_write list \<Rightarrow> i64 \<Rightarrow> string \<Rightarrow> db \<Rightarrow> unit outcome \<times> db" where
  "write_batch rows slot sig = transaction
     (and_then (write_events rows)
       (\<lambda>_. and_then (write_trades rows) (\<lambda>_. write_checkpoint slot sig)))"

fun observe_rows :: "(nat \<Rightarrow> nat) \<Rightarrow> nat \<Rightarrow> pending_write list \<Rightarrow> metrics \<Rightarrow> metrics" where
  "observe_rows clock i [] m = m"
| "observe_rows clock i (r # rs) m = observe_rows clock (Suc i) rs
     (m\<lparr>receive_to_committed := observe (clock i - queued_at r) (receive_to_committed m)\<rparr>)"

definition committed_metrics ::
  "(nat \<Rightarrow> nat) \<Rightarrow> pending_write list \<Rightarrow> i64 \<Rightarrow> metrics \<Rightarrow> metrics" where
  "committed_metrics clock rows slot m = set_committed_slot (as_u64 slot)
     (observe_rows clock 2 rows
       (m\<lparr>flush_time := observe (clock 1 - clock 0) (flush_time m)\<rparr>))"

text \<open>
  The two failure branches of \<^verbatim>\<open>flush\<close>: count the error, park the batch with its text. This
  statement has no timeout, so an unanswered one leaves the task waiting with its batch.
\<close>

definition park :: "string \<Rightarrow> writer \<Rightarrow> writer" where
  "park err w = (case write_dead_letters (batch w) err (db w) of
      (Answer _, d) \<Rightarrow>
        w\<lparr>db := d, meter := fold (\<lambda>_. inc DEAD_LETTERS) (batch w) (meter w), batch := []\<rparr>
    | (Failure _, d) \<Rightarrow> w\<lparr>db := d, unparked := unparked w @ batch w, batch := []\<rparr>
    | (No_answer, d) \<Rightarrow> w\<lparr>db := d, status := Stuck\<rparr>)"

definition flush :: "(db_error \<Rightarrow> string) \<Rightarrow> (nat \<Rightarrow> nat) \<Rightarrow> writer \<Rightarrow> writer" where
  "flush err_text clock w = (case max_by_key row_slot (batch w) of
      None \<Rightarrow> w
    | Some newest \<Rightarrow>
        (case write_batch (batch w) (row_slot newest) (e_signature (pw_event newest)) (db w) of
           (Answer _, d) \<Rightarrow>
             w\<lparr>db := d, meter := committed_metrics clock (batch w) (row_slot newest) (meter w),
               batch := []\<rparr>
         | (Failure e, d) \<Rightarrow>
             park (err_text e) (w\<lparr>db := d, meter := inc DB_WRITE_ERRORS (meter w)\<rparr>)
         | (No_answer, d) \<Rightarrow>
             park ''flush timed out after 10s''
               (w\<lparr>db := d, meter := inc DB_WRITE_ERRORS (meter w)\<rparr>)))"

datatype action =
    Send pending_write
  | Receive "nat \<Rightarrow> nat"
  | Tick "nat \<Rightarrow> nat"
  | Drop_senders

definition stop :: "writer \<Rightarrow> writer" where
  "stop w = (if status w = Running then w\<lparr>status := Stopped\<rparr> else w)"

fun writer_step :: "(db_error \<Rightarrow> string) \<Rightarrow> action \<Rightarrow> writer \<Rightarrow> writer option" where
  "writer_step err_text (Send r) w =
     (if senders_dropped w then None
      else if status w = Stopped then Some (w\<lparr>meter := inc DB_WRITE_ERRORS (meter w)\<rparr>)
      else map_option (\<lambda>q. w\<lparr>queue := q\<rparr>) (try_send r (queue w)))"
| "writer_step err_text (Receive clock) w =
     (if status w \<noteq> Running then None
      else case recv (queue w) of
             Some (r, q) \<Rightarrow>
               let w' = w\<lparr>queue := q, batch := batch w @ [r]\<rparr> in
               Some (if BATCH_SIZE \<le> length (batch w') then flush err_text clock w' else w')
           | None \<Rightarrow>
               if senders_dropped w then Some (stop (flush err_text clock w)) else None)"
| "writer_step err_text (Tick clock) w =
     (if status w \<noteq> Running then None else Some (flush err_text clock w))"
| "writer_step err_text Drop_senders w = Some (w\<lparr>senders_dropped := True\<rparr>)"

fun writer_run :: "(db_error \<Rightarrow> string) \<Rightarrow> action list \<Rightarrow> writer \<Rightarrow> writer option" where
  "writer_run err_text [] w = Some w"
| "writer_run err_text (a # as) w =
     (case writer_step err_text a w of None \<Rightarrow> None | Some w' \<Rightarrow> writer_run err_text as w')"

fun sent :: "action list \<Rightarrow> pending_write list" where
  "sent [] = []"
| "sent (Send r # as) = r # sent as"
| "sent (a # as) = sent as"

section \<open>What a batch does: the specification\<close>

definition commit_effect ::
  "pending_write list \<Rightarrow> i64 \<Rightarrow> string \<Rightarrow> tables \<Rightarrow> db_error + tables" where
  "commit_effect rows slot sig t =
     (case insert_trades (List.map_filter trade_of rows)
             (t\<lparr>events := insert_events (map pw_event rows) (events t)\<rparr>) of
        Inl e \<Rightarrow> Inl e
      | Inr (n, t') \<Rightarrow> Inr (t'\<lparr>checkpoint := Some (slot, sig)\<rparr>))"

lemma insert_trades_Nil [simp]: "insert_trades [] t = Inr (0, t)"
  by (simp add: insert_trades_def)

lemma trade_of_key: "trade_of p = Some r \<Longrightarrow> trade_key r = pending_key p"
  by (auto simp: trade_of_def trade_key_def pending_key_def event_key_def split: option.splits)

lemma trade_of_trade: "trade_of p = Some r \<Longrightarrow> pw_trade p = Some (r_trade r)"
  by (auto simp: trade_of_def split: option.splits)

lemma set_map_filter_trade:
  "set (List.map_filter trade_of rows) = {r. \<exists>p \<in> set rows. trade_of p = Some r}"
  by (force simp: List.map_filter_def)

lemma write_events_Answer:
  "write_events rows d = (Answer u, d') \<Longrightarrow>
     store d' = (store d)\<lparr>events := insert_events (map pw_event rows) (events (store d))\<rparr>"
  by (auto simp: write_events_def return_def insert_events_def events_stmt_def
      split: if_splits dest!: execute_Answer)

lemma write_trades_Answer:
  "write_trades rows d = (Answer u, d') \<Longrightarrow>
     \<exists>n. insert_trades (List.map_filter trade_of rows) (store d) = Inr (n, store d')"
  by (auto simp: write_trades_def Let_def return_def trades_stmt_def
      split: if_splits sum.splits dest!: execute_Answer)

lemma write_checkpoint_Answer:
  "write_checkpoint slot sig d = (Answer u, d') \<Longrightarrow>
     store d' = (store d)\<lparr>checkpoint := Some (slot, sig)\<rparr>"
  by (auto simp: write_checkpoint_def dest!: execute_Answer)

lemma batch_body_Answer:
  assumes "and_then (write_events rows)
      (\<lambda>_. and_then (write_trades rows) (\<lambda>_. write_checkpoint slot sig)) d = (Answer u, d')"
  shows "commit_effect rows slot sig (store d) = Inr (store d')"
  using assms
  by (auto simp: and_then_Answer commit_effect_def dest!: write_events_Answer write_trades_Answer
      write_checkpoint_Answer)

text \<open>
  \<open>write_batch\<close> refines the specification: its transaction either leaves the store alone or
  has exactly the specified effect, and when it answers it has had the effect.
\<close>

lemma write_batch_refines:
  assumes "write_batch rows slot sig d = (r, d')"
  shows "store d' = store d \<or> commit_effect rows slot sig (store d) = Inr (store d')"
  using transaction_all_or_nothing [OF assms [unfolded write_batch_def]] batch_body_Answer
  by metis

lemma write_batch_Answer:
  assumes "write_batch rows slot sig d = (Answer u, d')"
  shows "commit_effect rows slot sig (store d) = Inr (store d')"
  using transaction_Answer [OF assms [unfolded write_batch_def]] batch_body_Answer by metis

lemma write_batch_healthy:
  assumes "healthy d" and eff: "commit_effect rows slot sig (store d) = Inr t"
  shows "\<exists>d'. write_batch rows slot sig d = (Answer (), d') \<and> store d' = t \<and> healthy d'"
  unfolding write_batch_def
proof (rule transaction_healthy [OF \<open>healthy d\<close>])
  fix d0 :: db assume d0: "store d0 = store d" "healthy d0"
  let ?t1 = "(store d)\<lparr>events := insert_events (map pw_event rows) (events (store d))\<rparr>"
  obtain n t2 where t2: "insert_trades (List.map_filter trade_of rows) ?t1 = Inr (n, t2)"
      and t: "t = t2\<lparr>checkpoint := Some (slot, sig)\<rparr>"
    using eff by (auto simp: commit_effect_def split: sum.splits prod.splits)
  show "\<exists>d1. and_then (write_events rows)
      (\<lambda>_. and_then (write_trades rows) (\<lambda>_. write_checkpoint slot sig)) d0 = (Answer (), d1)
      \<and> store d1 = t \<and> healthy d1"
  proof (rule and_then_healthy)
    show "\<exists>d1. write_events rows d0 = (Answer (), d1) \<and> store d1 = ?t1 \<and> healthy d1"
      using d0 execute_healthy [of d0 "events_stmt rows"]
      by (auto simp: write_events_def return_def events_stmt_def insert_events_def)
  next
    fix d1 :: db assume d1: "store d1 = ?t1" "healthy d1"
    show "\<exists>d2. and_then (write_trades rows) (\<lambda>_. write_checkpoint slot sig) d1 = (Answer (), d2)
        \<and> store d2 = t \<and> healthy d2"
    proof (rule and_then_healthy)
      show "\<exists>d2. write_trades rows d1 = (Answer (), d2) \<and> store d2 = t2 \<and> healthy d2"
        using d1 t2 execute_healthy [of d1 "trades_stmt (List.map_filter trade_of rows)"]
        by (auto simp: write_trades_def Let_def return_def trades_stmt_def)
    next
      fix d2 :: db assume "store d2 = t2" "healthy d2"
      then show "\<exists>d3. write_checkpoint slot sig d2 = (Answer (), d3) \<and> store d3 = t \<and> healthy d3"
        using execute_healthy [of d2 "\<lambda>t. Inr ((), t\<lparr>checkpoint := Some (slot, sig)\<rparr>)"]
        by (auto simp: write_checkpoint_def t)
    qed
  qed
qed

section \<open>Where a row is\<close>

text \<open>
  The keys a writer can account for: in the events table, in the dead letters, or on stderr.
\<close>

definition accounted :: "writer \<Rightarrow> row_key set" where
  "accounted w = event_key ` set (events (store (db w)))
     \<union> letter_key ` set (dead_letters (store (db w))) \<union> pending_key ` set (unparked w)"

definition in_flight :: "writer \<Rightarrow> row_key set" where
  "in_flight w = pending_key ` (set (items (queue w)) \<union> set (batch w))"

lemma commit_effect_Inr:
  assumes "commit_effect rows slot sig t = Inr t'"
  shows "events t' = insert_events (map pw_event rows) (events t)"
    and "trades t' = insert_do_nothing trade_key (trades t) (List.map_filter trade_of rows)"
    and "checkpoint t' = Some (slot, sig)"
    and "pools t' = pools t" "dead_letters t' = dead_letters t"
    and "stream_gaps t' = stream_gaps t" "next_gap_id t' = next_gap_id t"
  using assms
  by (auto simp: commit_effect_def split: sum.splits prod.splits dest!: insert_trades_Inr(1))

lemma commit_effect_keys:
  assumes "commit_effect rows slot sig t = Inr t'"
  shows "event_key ` set (events t') = event_key ` set (events t) \<union> pending_key ` set rows"
  unfolding commit_effect_Inr(1) [OF assms] insert_events_def
  by (simp add: image_image pending_key_def)

lemma commit_effect_ok:
  assumes "tables_ok t" "commit_effect rows slot sig t = Inr t'"
  shows "tables_ok t'"
proof -
  let ?t1 = "t\<lparr>events := insert_events (map pw_event rows) (events t)\<rparr>"
  have "tables_ok ?t1"
    by (rule events_stmt_ok [OF assms(1), of rows "()"]) (simp add: events_stmt_def)
  moreover obtain n t2 where ins: "insert_trades (List.map_filter trade_of rows) ?t1 = Inr (n, t2)"
      and t': "t' = t2\<lparr>checkpoint := Some (slot, sig)\<rparr>"
    using assms(2) by (auto simp: commit_effect_def split: sum.splits prod.splits)
  ultimately have "tables_ok t2" by (simp only: insert_trades_ok)
  then show ?thesis by (simp add: t' tables_ok_def)
qed

text \<open>A batch whose trade rows meet the constraints always commits: its events come first.\<close>

definition writable :: "pending_write \<Rightarrow> bool" where
  "writable p \<longleftrightarrow> (\<forall>t. pw_trade p = Some t \<longrightarrow> trade_error t = None)"

lemma insert_trades_succeeds:
  assumes "\<forall>r \<in> set rows. trade_error (r_trade r) = None"
    and "trade_key ` set rows \<subseteq> event_key ` set (events t)"
  shows "\<exists>n t'. insert_trades rows t = Inr (n, t')"
proof -
  have "first_error (map r_trade rows) = None" using assms(1) by (auto simp: first_error_None)
  moreover have "\<forall>r \<in> set (drop (length (trades t)) (insert_do_nothing trade_key (trades t) rows)).
      trade_key r \<in> event_key ` set (events t)"
  proof
    fix r assume r: "r \<in> set (drop (length (trades t)) (insert_do_nothing trade_key (trades t) rows))"
    obtain added where new: "insert_do_nothing trade_key (trades t) rows = trades t @ added"
      using insert_do_nothing_extends by blast
    have "set added \<subseteq> set rows" using new by (rule insert_do_nothing_added)
    with r new assms(2) show "trade_key r \<in> event_key ` set (events t)" by auto
  qed
  ultimately show ?thesis by (auto simp: insert_trades_def Let_def)
qed

lemma commit_effect_succeeds:
  assumes "\<forall>p \<in> set rows. writable p"
  shows "\<exists>t'. commit_effect rows slot sig t = Inr t'"
proof -
  let ?t1 = "t\<lparr>events := insert_events (map pw_event rows) (events t)\<rparr>"
  have "\<forall>r \<in> set (List.map_filter trade_of rows). trade_error (r_trade r) = None"
    using assms by (auto simp: set_map_filter_trade writable_def dest: trade_of_trade)
  moreover have "trade_key ` set (List.map_filter trade_of rows) \<subseteq> event_key ` set (events ?t1)"
    by (auto simp: set_map_filter_trade trade_of_key insert_events_def image_image
        pending_key_def)
  ultimately obtain n t' where "insert_trades (List.map_filter trade_of rows) ?t1 = Inr (n, t')"
    using insert_trades_succeeds by blast
  then show ?thesis by (simp add: commit_effect_def)
qed

section \<open>What a flush does\<close>

lemma write_dead_letters_store:
  assumes "write_dead_letters rows err d = (r, d')"
  shows "store d' = store d \<or>
    store d' = (store d)\<lparr>dead_letters := dead_letters (store d) @ map (letter_of err) rows\<rparr>"
  using assms
  by (cases "rows = []") (auto simp: write_dead_letters_def return_def dest!: store_execute)

lemma write_dead_letters_Answer:
  assumes "write_dead_letters rows err d = (Answer u, d')"
  shows "store d' = (store d)\<lparr>dead_letters := dead_letters (store d) @ map (letter_of err) rows\<rparr>"
  using assms
  by (cases "rows = []") (auto simp: write_dead_letters_def return_def dest!: execute_Answer)

text \<open>
  \<open>parked u rows t\<close>: \<open>t\<close> is \<open>u\<close>, possibly with dead letters for the rows added.
\<close>

definition parked :: "tables \<Rightarrow> pending_write list \<Rightarrow> tables \<Rightarrow> bool" where
  "parked u rows t \<longleftrightarrow> t = u \<or>
     (\<exists>err. t = u\<lparr>dead_letters := dead_letters u @ map (letter_of err) rows\<rparr>)"

lemma letter_of_key [simp]: "letter_key (letter_of err p) = pending_key p"
  by (simp add: letter_key_def letter_of_def pending_key_def event_key_def)

lemma park_frame:
  "queue (park err w) = queue w" "senders_dropped (park err w) = senders_dropped w"
  "batch (park err w) = [] \<and> status (park err w) = status w \<or>
   batch (park err w) = batch w \<and> status (park err w) = Stuck"
  "parked (store (db w)) (batch w) (store (db (park err w)))"
  by (auto simp: park_def parked_def split: prod.splits outcome.splits
      dest!: write_dead_letters_store)

lemma parked_same:
  assumes "parked u rows t"
  shows "events t = events u" "trades t = trades u" "checkpoint t = checkpoint u"
    "pools t = pools u" "stream_gaps t = stream_gaps u" "next_gap_id t = next_gap_id u"
  using assms by (auto simp: parked_def)

lemma park_accounted:
  "accounted w \<union> pending_key ` set (batch w) \<subseteq>
     accounted (park err w) \<union> pending_key ` set (batch (park err w))"
proof (cases "write_dead_letters (batch w) err (db w)")
  case (Pair r d)
  note st = write_dead_letters_store [OF Pair]
  have keys: "letter_key ` set (dead_letters (store (db w))) \<subseteq> letter_key ` set (dead_letters (store d))"
    using st by auto
  have ev: "events (store d) = events (store (db w))" using st by auto
  show ?thesis
  proof (cases r)
    case (Answer u)
    with Pair have "store d = (store (db w))\<lparr>dead_letters :=
        dead_letters (store (db w)) @ map (letter_of err) (batch w)\<rparr>"
      by (simp add: write_dead_letters_Answer)
    with Pair Answer show ?thesis
      by (simp add: park_def accounted_def image_Un image_image) blast
  next
    case (Failure e)
    with Pair ev keys show ?thesis by (simp add: park_def accounted_def image_Un) blast
  next
    case No_answer
    with Pair ev keys show ?thesis by (simp add: park_def accounted_def) blast
  qed
qed

text \<open>The three ways a flush can go, for case analysis.\<close>

lemma flush_shape:
  obtains
    (idle) "batch w = []" "flush err_text clock w = w"
  | (committed) newest d where "max_by_key row_slot (batch w) = Some newest"
      "write_batch (batch w) (row_slot newest) (e_signature (pw_event newest)) (db w) = (Answer (), d)"
      "commit_effect (batch w) (row_slot newest) (e_signature (pw_event newest)) (store (db w))
         = Inr (store d)"
      "flush err_text clock w =
         w\<lparr>db := d, meter := committed_metrics clock (batch w) (row_slot newest) (meter w),
           batch := []\<rparr>"
  | (failed) newest d err where "max_by_key row_slot (batch w) = Some newest"
      "store d = store (db w) \<or> commit_effect (batch w) (row_slot newest)
         (e_signature (pw_event newest)) (store (db w)) = Inr (store d)"
      "flush err_text clock w = park err (w\<lparr>db := d, meter := inc DB_WRITE_ERRORS (meter w)\<rparr>)"
proof (cases "max_by_key row_slot (batch w)")
  case None
  with idle show ?thesis by (simp add: flush_def)
next
  case (Some newest)
  let ?sig = "e_signature (pw_event newest)"
  obtain r d where wb: "write_batch (batch w) (row_slot newest) ?sig (db w) = (r, d)"
    by fastforce
  note u = write_batch_refines [OF wb]
  show ?thesis
  proof (cases r)
    case (Answer x)
    with wb have "write_batch (batch w) (row_slot newest) ?sig (db w) = (Answer (), d)" by simp
    from committed [OF Some this write_batch_Answer [OF this]] this Some show ?thesis
      by (simp add: flush_def)
  next
    case (Failure e)
    with failed [OF Some u, of "err_text e"] Some wb show ?thesis by (simp add: flush_def)
  next
    case No_answer
    with failed [OF Some u, of "''flush timed out after 10s''"] Some wb show ?thesis
      by (simp add: flush_def)
  qed
qed

lemma flush_frame:
  "queue (flush err_text clock w) = queue w"
  "senders_dropped (flush err_text clock w) = senders_dropped w"
  "batch (flush err_text clock w) = [] \<and> status (flush err_text clock w) = status w \<or>
   batch (flush err_text clock w) = batch w \<and> status (flush err_text clock w) = Stuck"
proof -
  show "queue (flush err_text clock w) = queue w"
    by (cases rule: flush_shape [of w err_text clock]) (simp_all add: park_frame)
  show "senders_dropped (flush err_text clock w) = senders_dropped w"
    by (cases rule: flush_shape [of w err_text clock]) (simp_all add: park_frame)
  show "batch (flush err_text clock w) = [] \<and> status (flush err_text clock w) = status w \<or>
      batch (flush err_text clock w) = batch w \<and> status (flush err_text clock w) = Stuck"
  proof (cases rule: flush_shape [of w err_text clock])
    case (failed newest d err)
    then show ?thesis
      using park_frame(3) [of err "w\<lparr>db := d, meter := inc DB_WRITE_ERRORS (meter w)\<rparr>"]
      by simp
  qed simp_all
qed

lemma flush_store:
  "store (db (flush err_text clock w)) = store (db w) \<or>
   (\<exists>newest u. max_by_key row_slot (batch w) = Some newest
      \<and> (u = store (db w) \<or> commit_effect (batch w) (row_slot newest)
            (e_signature (pw_event newest)) (store (db w)) = Inr u)
      \<and> parked u (batch w) (store (db (flush err_text clock w))))"
proof (cases rule: flush_shape [of w err_text clock])
  case (committed newest d)
  then show ?thesis by (auto simp: parked_def)
next
  case (failed newest d err)
  then show ?thesis
    using park_frame(4) [of "w\<lparr>db := d, meter := inc DB_WRITE_ERRORS (meter w)\<rparr>" err] by auto
qed simp

lemma accounted_commit:
  assumes "store d = store (db w) \<or> commit_effect (batch w) slot sig (store (db w)) = Inr (store d)"
  shows "accounted w \<subseteq> accounted (w\<lparr>db := d, meter := m\<rparr>)"
  using assms
proof
  assume eff: "commit_effect (batch w) slot sig (store (db w)) = Inr (store d)"
  have "event_key ` set (events (store (db w))) \<subseteq> event_key ` set (events (store d))"
    unfolding commit_effect_keys [OF eff] by blast
  moreover have "dead_letters (store d) = dead_letters (store (db w))"
    by (rule commit_effect_Inr(5) [OF eff])
  ultimately show ?thesis
    by (simp add: accounted_def le_supI1 le_supI2)
qed (simp add: accounted_def)

lemma flush_accounted:
  "accounted w \<union> pending_key ` set (batch w) \<subseteq>
     accounted (flush err_text clock w) \<union> pending_key ` set (batch (flush err_text clock w))"
proof (cases rule: flush_shape [of w err_text clock])
  case (committed newest d)
  have "accounted w \<subseteq> accounted (w\<lparr>db := d, meter := meter w\<rparr>)"
    by (rule accounted_commit) (use committed in blast)
  moreover have "pending_key ` set (batch w) \<subseteq> accounted (w\<lparr>db := d, meter := meter w\<rparr>)"
    unfolding accounted_def by (simp add: commit_effect_keys [OF committed(3)] le_supI1)
  moreover have "accounted (flush err_text clock w) = accounted (w\<lparr>db := d, meter := meter w\<rparr>)"
    by (simp add: committed(4) accounted_def)
  ultimately show ?thesis by (simp add: le_supI1)
next
  case (failed newest d err)
  let ?w1 = "w\<lparr>db := d, meter := inc DB_WRITE_ERRORS (meter w)\<rparr>"
  have 1: "accounted w \<subseteq> accounted ?w1" by (rule accounted_commit) (rule failed(2))
  have 2: "accounted ?w1 \<union> pending_key ` set (batch w) \<subseteq>
      accounted (park err ?w1) \<union> pending_key ` set (batch (park err ?w1))"
    using park_accounted [of ?w1 err] by simp
  show ?thesis unfolding failed(3) by (rule order_trans [OF Un_mono [OF 1 subset_refl] 2])
qed simp

section \<open>Runs of the task\<close>

definition writer_ok :: "writer \<Rightarrow> bool" where
  "writer_ok w \<longleftrightarrow> tables_ok (store (db w))
     \<and> length (batch w) \<le> BATCH_SIZE
     \<and> (status w = Running \<longrightarrow> length (batch w) < BATCH_SIZE)
     \<and> (status w = Stopped \<longrightarrow> senders_dropped w \<and> items (queue w) = [] \<and> batch w = [])"

lemma parked_ok: "tables_ok u \<Longrightarrow> parked u rows t \<Longrightarrow> tables_ok t"
  by (auto simp: parked_def tables_ok_def)

lemma flush_tables_ok:
  "tables_ok (store (db w)) \<Longrightarrow> tables_ok (store (db (flush err_text clock w)))"
  using flush_store [of err_text clock w] by (metis commit_effect_ok parked_ok)

lemma flush_keeps_ok:
  assumes "tables_ok (store (db w))" "length (batch w) \<le> BATCH_SIZE" "status w = Running"
  shows "writer_ok (flush err_text clock w)"
    and "writer_ok (stop (flush err_text clock w)) \<longleftrightarrow>
      senders_dropped w \<and> items (queue w) = [] \<or> status (flush err_text clock w) \<noteq> Running"
  using flush_frame [of err_text clock w] flush_tables_ok [OF assms(1), of err_text clock] assms(2,3)
  by (auto simp: writer_ok_def stop_def BATCH_SIZE_def)

lemma recv_None: "recv c = None \<longleftrightarrow> items c = []"
  by (simp add: recv_def split: list.splits)

lemma recv_Some: "recv c = Some (x, c') \<longleftrightarrow> items c = x # items c' \<and> c' = c\<lparr>items := items c'\<rparr>"
  by (cases "items c") (auto simp: recv_def)

lemma writer_step_ok:
  assumes "writer_step err_text a w = Some w'" "writer_ok w"
  shows "writer_ok w'"
proof (cases a)
  case (Send r)
  with assms show ?thesis by (auto simp: writer_ok_def split: if_splits)
next
  case (Receive clock)
  with assms(1) have run: "status w = Running" by (auto split: if_splits)
  show ?thesis
  proof (cases "recv (queue w)")
    case None
    with Receive assms run have "senders_dropped w"
        and w': "w' = stop (flush err_text clock w)"
      by (auto split: if_splits)
    with None flush_keeps_ok [of w err_text clock] assms(2) run show ?thesis
      by (auto simp: writer_ok_def recv_None)
  next
    case (Some rq)
    obtain r q where rq: "rq = (r, q)" by fastforce
    let ?w1 = "w\<lparr>queue := q, batch := batch w @ [r]\<rparr>"
    have len: "length (batch ?w1) \<le> BATCH_SIZE" using assms(2) run by (simp add: writer_ok_def)
    have "w' = (if BATCH_SIZE \<le> length (batch ?w1) then flush err_text clock ?w1 else ?w1)"
      using Receive assms(1) run Some rq by (simp add: Let_def)
    then show ?thesis
      using flush_keeps_ok(1) [of ?w1 err_text clock] len run assms(2)
      by (auto simp: writer_ok_def)
  qed
next
  case (Tick clock)
  with assms show ?thesis
    using flush_keeps_ok(1) [of w err_text clock] by (auto simp: writer_ok_def split: if_splits)
next
  case Drop_senders
  with assms show ?thesis by (auto simp: writer_ok_def)
qed

lemma writer_run_ok: "writer_run err_text as w = Some w' \<Longrightarrow> writer_ok w \<Longrightarrow> writer_ok w'"
  by (induction as arbitrary: w) (auto split: option.splits dest: writer_step_ok)

lemma stop_same [simp]:
  "queue (stop w) = queue w" "batch (stop w) = batch w" "db (stop w) = db w"
  "unparked (stop w) = unparked w" "senders_dropped (stop w) = senders_dropped w"
  "meter (stop w) = meter w" "accounted (stop w) = accounted w"
  by (simp_all add: stop_def accounted_def)

text \<open>Every key stays where it can be found: on its way, stored, parked or logged.\<close>

definition tracked :: "writer \<Rightarrow> row_key set" where
  "tracked w = pending_key ` set (items (queue w)) \<union>
     (accounted w \<union> pending_key ` set (batch w))"

lemma tracked_in_flight: "tracked w = in_flight w \<union> accounted w"
  by (simp add: tracked_def in_flight_def image_Un Un_ac)

lemma flush_tracked: "tracked w \<subseteq> tracked (flush err_text clock w)"
  unfolding tracked_def flush_frame(1) by (rule Un_mono [OF subset_refl flush_accounted])

lemma writer_step_tracked:
  assumes "writer_step err_text a w = Some w'" "writer_ok w"
  shows "tracked w \<union> pending_key ` set (sent [a]) \<subseteq> tracked w'"
proof (cases a)
  case (Send r)
  with assms obtain q where "try_send r (queue w) = Some q" "w' = w\<lparr>queue := q\<rparr>"
    by (auto simp: writer_ok_def split: if_splits)
  with Send show ?thesis
    by (auto simp: tracked_def accounted_def dest!: try_send_Some)
next
  case (Receive clock)
  with assms(1) have run: "status w = Running" by (auto split: if_splits)
  show ?thesis
  proof (cases "recv (queue w)")
    case None
    with Receive assms run have "w' = stop (flush err_text clock w)" by (auto split: if_splits)
    then have "tracked w' = tracked (flush err_text clock w)" by (simp add: tracked_def)
    with Receive flush_tracked show ?thesis by simp
  next
    case (Some rq)
    obtain r q where rq: "rq = (r, q)" by fastforce
    let ?w1 = "w\<lparr>queue := q, batch := batch w @ [r]\<rparr>"
    have w': "w' = (if BATCH_SIZE \<le> length (batch ?w1) then flush err_text clock ?w1 else ?w1)"
      using Receive assms(1) run Some rq by (simp add: Let_def)
    have "accounted ?w1 = accounted w" by (simp add: accounted_def)
    moreover have "items (queue w) = r # items q" using Some rq by (simp add: recv_Some)
    ultimately have "tracked w = tracked ?w1" by (simp add: tracked_def insert_commute Un_ac)
    with Receive w' flush_tracked [of ?w1 err_text clock] show ?thesis by simp
  qed
next
  case (Tick clock)
  with assms(1) flush_tracked show ?thesis by (auto split: if_splits)
next
  case Drop_senders
  with assms(1) show ?thesis by (auto simp: tracked_def accounted_def)
qed

lemma sent_Cons: "sent (a # as) = sent [a] @ sent as"
  by (cases a) auto

lemma writer_run_tracked:
  "writer_run err_text as w = Some w' \<Longrightarrow> writer_ok w \<Longrightarrow>
     tracked w \<union> pending_key ` set (sent as) \<subseteq> tracked w'"
proof (induction as arbitrary: w)
  case Nil
  then show ?case by simp
next
  case (Cons a as)
  then obtain w1 where w1: "writer_step err_text a w = Some w1"
      "writer_run err_text as w1 = Some w'"
    by (auto split: option.splits)
  have s: "pending_key ` set (sent (a # as)) =
      pending_key ` set (sent [a]) \<union> pending_key ` set (sent as)"
    by (subst sent_Cons) (simp add: image_Un)
  show ?case
    unfolding s
    using writer_step_tracked [OF w1(1) Cons.prems(2)]
      Cons.IH [OF w1(2) writer_step_ok [OF w1(1) Cons.prems(2)]]
    by blast
qed

section \<open>Properties of the stored data\<close>

text \<open>
  What the users of the writer rely on is a property of the tables that every batch of good
  rows keeps. The contract: a commit of good rows keeps it, and it does not depend on the
  dead letters. A client gets that it holds after every run of the task.
\<close>

locale committed_property =
  fixes holds :: "tables \<Rightarrow> bool"
    and good :: "pending_write \<Rightarrow> bool"
  assumes commit_keeps: "holds t \<Longrightarrow> \<forall>p \<in> set rows. good p \<Longrightarrow>
      max_by_key row_slot rows = Some newest \<Longrightarrow>
      commit_effect rows (row_slot newest) (e_signature (pw_event newest)) t = Inr t' \<Longrightarrow> holds t'"
    and letters_keep: "holds t \<Longrightarrow> holds (t\<lparr>dead_letters := ls\<rparr>)"
begin

lemma parked_keeps: "holds u \<Longrightarrow> parked u rows t \<Longrightarrow> holds t"
  by (auto simp: parked_def letters_keep)

lemma flush_keeps:
  "holds (store (db w)) \<Longrightarrow> \<forall>p \<in> set (batch w). good p \<Longrightarrow>
     holds (store (db (flush err_text clock w)))"
  using flush_store [of err_text clock w] by (metis commit_keeps parked_keeps)

lemma step_keeps:
  assumes "writer_step err_text a w = Some w'" "holds (store (db w))"
    and "\<forall>p \<in> set (batch w) \<union> set (items (queue w)). good p" "\<forall>p \<in> set (sent [a]). good p"
  shows "holds (store (db w')) \<and> (\<forall>p \<in> set (batch w') \<union> set (items (queue w')). good p)"
proof (cases a)
  case (Send r)
  with assms show ?thesis by (auto split: if_splits dest!: try_send_Some)
next
  case (Receive clock)
  with assms(1) have run: "status w = Running" by (auto split: if_splits)
  show ?thesis
  proof (cases "recv (queue w)")
    case None
    with Receive assms(1) run have "w' = stop (flush err_text clock w)" by (auto split: if_splits)
    with assms(2,3) flush_keeps [of w err_text clock] flush_frame [of err_text clock w]
    show ?thesis by auto
  next
    case (Some rq)
    obtain r q where rq: "rq = (r, q)" by fastforce
    let ?w1 = "w\<lparr>queue := q, batch := batch w @ [r]\<rparr>"
    have w': "w' = (if BATCH_SIZE \<le> length (batch ?w1) then flush err_text clock ?w1 else ?w1)"
      using Receive assms(1) run Some rq by (simp add: Let_def)
    have "\<forall>p \<in> set (batch ?w1) \<union> set (items (queue ?w1)). good p"
      using assms(3) Some rq by (simp add: recv_Some)
    with w' assms(2) flush_keeps [of ?w1 err_text clock] flush_frame [of err_text clock ?w1]
    show ?thesis by auto
  qed
next
  case (Tick clock)
  with assms flush_keeps [of w err_text clock] flush_frame [of err_text clock w]
  show ?thesis by (auto split: if_splits)
next
  case Drop_senders
  with assms show ?thesis by auto
qed

lemma run_keeps:
  "writer_run err_text as w = Some w' \<Longrightarrow> holds (store (db w)) \<Longrightarrow>
     \<forall>p \<in> set (batch w) \<union> set (items (queue w)) \<union> set (sent as). good p \<Longrightarrow>
     holds (store (db w'))"
proof (induction as arbitrary: w)
  case (Cons a as)
  then obtain w1 where w1: "writer_step err_text a w = Some w1"
      "writer_run err_text as w1 = Some w'"
    by (auto split: option.splits)
  have "\<forall>p \<in> set (sent [a]) \<union> set (sent as). good p"
    using Cons.prems(3) sent_Cons [of a as] by auto
  with step_keeps [OF w1(1) Cons.prems(2)] Cons.prems(3) Cons.IH [OF w1(2)]
  show ?case by blast
qed simp

lemma run_keeps_spawned:
  "writer_run err_text as (spawn_writer d n m) = Some w' \<Longrightarrow> holds (store d) \<Longrightarrow>
     \<forall>p \<in> set (sent as). good p \<Longrightarrow> holds (store (db w'))"
  by (rule run_keeps) (auto simp: spawn_writer_def new_chan_def)

end

text \<open>First instance: nothing is stored that was not there before or sent.\<close>

definition stored_from :: "tables \<Rightarrow> pending_write set \<Rightarrow> tables \<Rightarrow> bool" where
  "stored_from old S t \<longleftrightarrow> set (events t) \<subseteq> set (events old) \<union> pw_event ` S
     \<and> set (trades t) \<subseteq> set (trades old) \<union> {r. \<exists>p \<in> S. trade_of p = Some r}"

interpretation origin: committed_property "stored_from old S" "\<lambda>p. p \<in> S" for old S
proof
  fix t t' rows newest
  assume old: "stored_from old S t" and good: "\<forall>p \<in> set rows. p \<in> S"
    and eff: "commit_effect rows (row_slot newest) (e_signature (pw_event newest)) t = Inr t'"
  have "set (events t') \<subseteq> set (events t) \<union> pw_event ` set rows"
    unfolding commit_effect_Inr(1) [OF eff] insert_events_def
    using insert_do_nothing_only by fastforce
  moreover have "set (trades t') \<subseteq> set (trades t) \<union> {r. \<exists>p \<in> set rows. trade_of p = Some r}"
    unfolding commit_effect_Inr(2) [OF eff]
    using insert_do_nothing_only set_map_filter_trade by fastforce
  ultimately show "stored_from old S t'" using old good unfolding stored_from_def by blast
qed (simp add: stored_from_def)

text \<open>
  Second instance: the checkpoint names a stored event. A key that is met again must have the
  slot it had before, which is how the chain works: a signature lands in one slot.
\<close>

definition checkpoint_backed :: "(row_key \<Rightarrow> i64) \<Rightarrow> tables \<Rightarrow> bool" where
  "checkpoint_backed slot_of t \<longleftrightarrow> (\<forall>e \<in> set (events t). e_slot e = slot_of (event_key e))
     \<and> (\<forall>slot sig. checkpoint t = Some (slot, sig) \<longrightarrow>
          (\<exists>e \<in> set (events t). e_slot e = slot \<and> e_signature e = sig))"

lemma checkpoint_backed_letters [simp]:
  "checkpoint_backed slot_of (t\<lparr>dead_letters := ls\<rparr>) = checkpoint_backed slot_of t"
  by (simp add: checkpoint_backed_def)

interpretation backed: committed_property "checkpoint_backed slot_of"
  "\<lambda>p. row_slot p = slot_of (pending_key p)" for slot_of
proof
  fix t t' rows newest
  assume old: "checkpoint_backed slot_of t"
    and good: "\<forall>p \<in> set rows. row_slot p = slot_of (pending_key p)"
    and new: "max_by_key row_slot rows = Some newest"
    and eff: "commit_effect rows (row_slot newest) (e_signature (pw_event newest)) t = Inr t'"
  have mem: "newest \<in> set rows" using max_by_key_Some [OF new] by blast
  have slots: "\<forall>e \<in> set (events t'). e_slot e = slot_of (event_key e)"
  proof
    fix e assume "e \<in> set (events t')"
    then have "e \<in> set (events t) \<or> e \<in> pw_event ` set rows"
      unfolding commit_effect_Inr(1) [OF eff] insert_events_def
      using insert_do_nothing_only by fastforce
    with old good show "e_slot e = slot_of (event_key e)"
      by (auto simp: checkpoint_backed_def row_slot_def pending_key_def)
  qed
  have "pending_key newest \<in> event_key ` set (events t')"
    unfolding commit_effect_keys [OF eff] using mem by blast
  then obtain e where e: "e \<in> set (events t')" "event_key e = pending_key newest" by force
  have "e_slot e = row_slot newest" using slots good mem e by simp
  moreover have "e_signature e = e_signature (pw_event newest)"
    using e(2) by (simp add: event_key_def pending_key_def)
  ultimately show "checkpoint_backed slot_of t'"
    using slots e(1) by (auto simp: checkpoint_backed_def commit_effect_Inr(3) [OF eff])
qed simp

section \<open>A database that answers\<close>

text \<open>
  With a server that executes every statement and rows that meet the constraints, a flush
  always commits, and what the tables will finally hold (\<open>final_events\<close>,
  \<open>final_trades\<close>) is fixed by the order in which rows are sent: how they are batched and
  when they are flushed does not matter.
\<close>

definition pending :: "writer \<Rightarrow> pending_write list" where
  "pending w = batch w @ items (queue w)"

definition final_events :: "writer \<Rightarrow> event_row list" where
  "final_events w = insert_events (map pw_event (pending w)) (events (store (db w)))"

definition final_trades :: "writer \<Rightarrow> repaired_trade list" where
  "final_trades w = insert_do_nothing trade_key (trades (store (db w)))
     (List.map_filter trade_of (pending w))"

definition calm :: "writer \<Rightarrow> bool" where
  "calm w \<longleftrightarrow> healthy (db w) \<and> (\<forall>p \<in> set (pending w). writable p) \<and> status w \<noteq> Stuck"

text \<open>What a calm run leaves alone.\<close>

definition untouched :: "writer \<Rightarrow> writer \<Rightarrow> bool" where
  "untouched w w' \<longleftrightarrow> dead_letters (store (db w')) = dead_letters (store (db w))
     \<and> unparked w' = unparked w \<and> get DB_WRITE_ERRORS (meter w') = get DB_WRITE_ERRORS (meter w)
     \<and> get DEAD_LETTERS (meter w') = get DEAD_LETTERS (meter w)"

lemma untouched_refl [simp]: "untouched w w"
  by (simp add: untouched_def)

lemma untouched_trans: "untouched a b \<Longrightarrow> untouched b c \<Longrightarrow> untouched a c"
  by (simp add: untouched_def)

lemma insert_events_append:
  "insert_events (xs @ ys) tbl = insert_events ys (insert_events xs tbl)"
  by (simp add: insert_events_def insert_do_nothing_append)

lemma map_filter_append [simp]:
  "List.map_filter f (xs @ ys) = List.map_filter f xs @ List.map_filter f ys"
  by (simp add: List.map_filter_def)

lemma get_observe_rows [simp]: "get c (observe_rows clock i rs m) = get c m"
  by (induction rs arbitrary: i m) (auto simp: get_def)

lemma get_committed_metrics [simp]:
  "get c (committed_metrics clock rows slot m) =
     (if c = COMMITTED_SLOT then max (get c m) (as_u64 slot) else get c m)"
  by (simp add: committed_metrics_def) (simp add: get_def)

lemma flush_calm:
  assumes "calm w"
  shows "calm (flush err_text clock w)" "batch (flush err_text clock w) = []"
    and "status (flush err_text clock w) = status w"
    and "final_events (flush err_text clock w) = final_events w"
    and "final_trades (flush err_text clock w) = final_trades w"
    and "untouched w (flush err_text clock w)"
proof -
  have "calm (flush err_text clock w) \<and> batch (flush err_text clock w) = []
    \<and> status (flush err_text clock w) = status w
    \<and> final_events (flush err_text clock w) = final_events w
    \<and> final_trades (flush err_text clock w) = final_trades w
    \<and> untouched w (flush err_text clock w)"
  proof (cases "max_by_key row_slot (batch w)")
    case None
    with assms show ?thesis by (simp add: flush_def)
  next
    case (Some newest)
    let ?sig = "e_signature (pw_event newest)"
    have "\<forall>p \<in> set (batch w). writable p" using assms by (simp add: calm_def pending_def)
    then obtain t where eff: "commit_effect (batch w) (row_slot newest) ?sig (store (db w)) = Inr t"
      using commit_effect_succeeds by blast
    obtain d where d: "write_batch (batch w) (row_slot newest) ?sig (db w) = (Answer (), d)"
        "store d = t" "healthy d"
      using write_batch_healthy [OF _ eff] assms by (auto simp: calm_def)
    have fl: "flush err_text clock w = w\<lparr>db := d,
        meter := committed_metrics clock (batch w) (row_slot newest) (meter w), batch := []\<rparr>"
      using Some d by (simp add: flush_def)
    show ?thesis
      using assms d
      by (simp add: fl calm_def pending_def final_events_def final_trades_def untouched_def
          commit_effect_Inr [OF eff] insert_events_append insert_do_nothing_append)
  qed
  then show "calm (flush err_text clock w)" "batch (flush err_text clock w) = []"
    "status (flush err_text clock w) = status w"
    "final_events (flush err_text clock w) = final_events w"
    "final_trades (flush err_text clock w) = final_trades w"
    "untouched w (flush err_text clock w)" by blast+
qed

definition advanced :: "pending_write list \<Rightarrow> writer \<Rightarrow> writer \<Rightarrow> bool" where
  "advanced rows w w' \<longleftrightarrow> calm w' \<and> untouched w w'
     \<and> final_events w' = insert_events (map pw_event rows) (final_events w)
     \<and> final_trades w' = insert_do_nothing trade_key (final_trades w) (List.map_filter trade_of rows)"

lemma advanced_Nil: "advanced [] w w' \<longleftrightarrow> calm w' \<and> untouched w w'
    \<and> final_events w' = final_events w \<and> final_trades w' = final_trades w"
  by (simp add: advanced_def insert_events_def List.map_filter_def)

lemma advanced_trans: "advanced xs a b \<Longrightarrow> advanced ys b c \<Longrightarrow> advanced (xs @ ys) a c"
  by (auto simp: advanced_def insert_events_append insert_do_nothing_append
      intro: untouched_trans)

lemma flush_advanced: "calm w \<Longrightarrow> advanced [] w (flush err_text clock w)"
  by (simp add: advanced_Nil flush_calm)

lemma stop_advanced: "advanced rows w w' \<Longrightarrow> advanced rows w (stop w')"
  by (auto simp: advanced_def calm_def untouched_def pending_def final_events_def
      final_trades_def stop_def)

lemma writer_step_advanced:
  assumes "writer_step err_text a w = Some w'" "writer_ok w" "calm w"
    "\<forall>p \<in> set (sent [a]). writable p"
  shows "advanced (sent [a]) w w'"
proof (cases a)
  case (Send r)
  with assms obtain q where q: "try_send r (queue w) = Some q" "w' = w\<lparr>queue := q\<rparr>"
    by (auto simp: writer_ok_def split: if_splits)
  then have "pending w' = pending w @ [r]" by (simp add: pending_def try_send_Some)
  with q Send assms(3,4) show ?thesis
    by (simp add: advanced_def calm_def untouched_def final_events_def final_trades_def
        insert_events_append insert_do_nothing_append)
next
  case (Receive clock)
  with assms(1) have run: "status w = Running" by (auto split: if_splits)
  show ?thesis
  proof (cases "recv (queue w)")
    case None
    with Receive assms(1) run have "w' = stop (flush err_text clock w)" by (auto split: if_splits)
    with Receive show ?thesis using stop_advanced [OF flush_advanced [OF assms(3)]] by simp
  next
    case (Some rq)
    obtain r q where rq: "rq = (r, q)" by fastforce
    let ?w1 = "w\<lparr>queue := q, batch := batch w @ [r]\<rparr>"
    have w': "w' = (if BATCH_SIZE \<le> length (batch ?w1) then flush err_text clock ?w1 else ?w1)"
      using Receive assms(1) run Some rq by (simp add: Let_def)
    have "pending ?w1 = pending w" using Some rq by (simp add: pending_def recv_Some)
    then have "advanced [] w ?w1" "calm ?w1"
      using assms(3)
      by (simp_all add: advanced_Nil calm_def untouched_def final_events_def final_trades_def)
    with Receive w' advanced_trans [of "[]" w ?w1 "[]"] flush_advanced [of ?w1 err_text clock]
    show ?thesis by auto
  qed
next
  case (Tick clock)
  with assms show ?thesis using flush_advanced by (auto split: if_splits)
next
  case Drop_senders
  with assms show ?thesis
    by (auto simp: advanced_Nil calm_def untouched_def pending_def final_events_def
        final_trades_def)
qed

lemma writer_run_advanced:
  "writer_run err_text as w = Some w' \<Longrightarrow> writer_ok w \<Longrightarrow> calm w \<Longrightarrow>
     \<forall>p \<in> set (sent as). writable p \<Longrightarrow> advanced (sent as) w w'"
proof (induction as arbitrary: w)
  case Nil
  then show ?case by (simp add: advanced_Nil)
next
  case (Cons a as)
  then obtain w1 where w1: "writer_step err_text a w = Some w1"
      "writer_run err_text as w1 = Some w'"
    by (auto split: option.splits)
  have good: "\<forall>p \<in> set (sent [a]). writable p" "\<forall>p \<in> set (sent as). writable p"
    using Cons.prems(4) by (subst (asm) sent_Cons, simp)+
  have adv: "advanced (sent [a]) w w1"
    by (rule writer_step_advanced [OF w1(1) Cons.prems(2,3) good(1)])
  then have "calm w1" by (simp add: advanced_def)
  from advanced_trans [OF adv
      Cons.IH [OF w1(2) writer_step_ok [OF w1(1) Cons.prems(2)] this good(2)]]
  show ?case by (subst sent_Cons)
qed

section \<open>Properties\<close>

text \<open>Sample data for the witnesses: two swaps in slots 5 and 6, a fresh task and a run.\<close>

definition sample_row :: "string \<Rightarrow> i64 \<Rightarrow> pending_write" where
  "sample_row sig slot =
     \<lparr>pw_event = \<lparr>e_signature = sig, e_path = [3, 5], e_ordinal = 0, e_slot = slot,
        e_block_time = None, e_program = ''pumpswap'', e_type = ''BuyEvent'', e_payload = JNull\<rparr>,
      pw_trade = Some \<lparr>t_pool = Some ''pool'', t_token_mint = ''mint'', t_side = ''buy'',
        t_sol_amount = 50, t_token_amount = 1000, t_trader = ''user'', t_fee = Some 7\<rparr>,
      queued_at = 0\<rparr>"

definition sample_db :: "reply list \<Rightarrow> db" where
  "sample_db answers = \<lparr>store = empty_tables, script = answers\<rparr>"

definition sample_writer :: "reply list \<Rightarrow> writer" where
  "sample_writer answers = spawn_writer (sample_db answers) 4 new_metrics"

definition sample_run :: "action list" where
  "sample_run = [Send (sample_row ''a'' 5), Receive id, Tick id,
     Send (sample_row ''b'' 6), Receive id, Drop_senders, Receive id]"

lemmas sample_defs = sample_row_def sample_db_def sample_writer_def sample_run_def
  spawn_writer_def new_chan_def empty_tables_def

lemmas flush_eval = flush_def park_def write_batch_def transaction_def and_then_def return_def
  execute_def next_reply_def landed_def write_events_def events_stmt_def write_trades_def
  trades_stmt_def write_checkpoint_def write_dead_letters_def insert_trades_def insert_events_def
  trade_of_def List.map_filter_def trade_error_def numeric_20_0_def row_slot_def event_key_def
  trade_key_def try_send_def recv_def stop_def BATCH_SIZE_def

lemma sample_run_ends:
  "\<exists>w. writer_run (\<lambda>_. ''refused'') sample_run (sample_writer []) = Some w
     \<and> status w = Stopped \<and> events (store (db w)) = map pw_event (sent sample_run)
     \<and> trades (store (db w)) = List.map_filter trade_of (sent sample_run)
     \<and> checkpoint (store (db w)) = Some (6, ''b'')"
  by (simp add: sample_defs flush_eval Let_def)

lemma sample_sent: "sent sample_run = [sample_row ''a'' 5, sample_row ''b'' 6]"
  by (simp add: sample_run_def)

lemma spawned_ok: "tables_ok (store d) \<Longrightarrow> writer_ok (spawn_writer d n m)"
  by (simp add: writer_ok_def spawn_writer_def BATCH_SIZE_def new_chan_def)

lemma stopped_in_flight: "writer_ok w \<Longrightarrow> status w = Stopped \<Longrightarrow> in_flight w = {}"
  by (simp add: writer_ok_def in_flight_def)

text \<open>
  The writer loses no row silently. In every run of the task, whatever the server
  answers and however sends, receives and ticks are interleaved, the key of every row handed
  to it is still in its queue or batch, or in the events table, in the dead letters or named on
  stderr; once the task has stopped nothing is left in memory.
\<close>

theorem writer_loses_nothing:
  assumes "writer_run err_text as (spawn_writer d n m) = Some w" "tables_ok (store d)"
  shows "pending_key ` set (sent as) \<subseteq> in_flight w \<union> accounted w
    \<and> (status w = Stopped \<longrightarrow> in_flight w = {})"
  using writer_run_tracked [OF assms(1) spawned_ok [OF assms(2)]]
    stopped_in_flight [OF writer_run_ok [OF assms(1) spawned_ok [OF assms(2)]]]
  by (simp add: tracked_in_flight)

theorem writer_loses_nothing_witness:
  "\<exists>w. writer_run (\<lambda>_. ''refused'') sample_run (sample_writer []) = Some w \<and> status w = Stopped
     \<and> {pending_key (sample_row ''a'' 5), pending_key (sample_row ''b'' 6)}
         \<subseteq> in_flight w \<union> accounted w \<and> in_flight w = {}"
proof -
  obtain w where w: "writer_run (\<lambda>_. ''refused'') sample_run (sample_writer []) = Some w"
      "status w = Stopped"
    using sample_run_ends by blast
  note run = w(1) [unfolded sample_writer_def]
  have ok: "tables_ok (store (sample_db []))" by (simp add: sample_db_def tables_ok_empty)
  show ?thesis
    using w writer_loses_nothing [OF run ok] unfolding sample_sent by auto
qed

lemma flush_tables:
  assumes t: "t = store (db w)" and t': "t' = store (db (flush err_text clock w))"
  shows "(events t' = events t \<and> trades t' = trades t \<and> checkpoint t' = checkpoint t) \<or>
    (\<exists>newest. max_by_key row_slot (batch w) = Some newest
       \<and> events t' = insert_events (map pw_event (batch w)) (events t)
       \<and> trades t' = insert_do_nothing trade_key (trades t) (List.map_filter trade_of (batch w))
       \<and> checkpoint t' = Some (row_slot newest, e_signature (pw_event newest)))"
proof -
  consider "t' = t" | newest u where "max_by_key row_slot (batch w) = Some newest"
      "u = t \<or> commit_effect (batch w) (row_slot newest) (e_signature (pw_event newest)) t = Inr u"
      "parked u (batch w) t'"
    using flush_store [of err_text clock w] unfolding t t' by blast
  then show ?thesis
  proof cases
    case (2 newest u)
    note same = parked_same [OF 2(3)]
    from 2(2) show ?thesis
    proof
      assume "u = t"
      with same show ?thesis by simp
    next
      assume eff: "commit_effect (batch w) (row_slot newest) (e_signature (pw_event newest)) t = Inr u"
      with same 2(1) show ?thesis by (simp add: commit_effect_Inr [OF eff])
    qed
  qed simp
qed

text \<open>
  Claim C12. A flush is all or nothing. Whatever the server answers, after it the events, the
  trades and the checkpoint are what they were, or all rows of the batch are in the events
  table, all their trades in the trades table, and the checkpoint is the slot and signature of
  the last row with the highest slot.
\<close>

theorem flush_all_or_nothing:
  "let t = store (db w); t' = store (db (flush err_text clock w)) in
    (events t' = events t \<and> trades t' = trades t \<and> checkpoint t' = checkpoint t) \<or>
    (\<exists>newest. max_by_key row_slot (batch w) = Some newest
       \<and> events t' = insert_events (map pw_event (batch w)) (events t)
       \<and> trades t' = insert_do_nothing trade_key (trades t) (List.map_filter trade_of (batch w))
       \<and> checkpoint t' = Some (row_slot newest, e_signature (pw_event newest)))"
  unfolding Let_def by (rule flush_tables) simp_all

lemma batching:
  assumes run: "writer_run err_text as (spawn_writer d n m) = Some w"
    and ok: "tables_ok (store d)" "healthy d" "\<forall>p \<in> set (sent as). writable p"
    and stopped: "status w = Stopped"
  shows "events (store (db w)) = insert_events (map pw_event (sent as)) (events (store d))
    \<and> trades (store (db w)) =
        insert_do_nothing trade_key (trades (store d)) (List.map_filter trade_of (sent as))
    \<and> dead_letters (store (db w)) = dead_letters (store d) \<and> unparked w = []
    \<and> get DB_WRITE_ERRORS (meter w) = get DB_WRITE_ERRORS m"
proof -
  let ?w0 = "spawn_writer d n m"
  have "calm ?w0" using ok by (simp add: calm_def spawn_writer_def pending_def new_chan_def)
  then have adv: "advanced (sent as) ?w0 w"
    by (rule writer_run_advanced [OF run spawned_ok [OF ok(1)] _ ok(3)])
  have "pending w = []"
    using writer_run_ok [OF run spawned_ok [OF ok(1)]] stopped
    by (simp add: writer_ok_def pending_def)
  with adv show ?thesis
    by (simp add: advanced_def untouched_def final_events_def final_trades_def spawn_writer_def
        pending_def new_chan_def insert_events_def List.map_filter_def)
qed


lemma sample_writable: "\<forall>p \<in> set (sent sample_run). writable p"
  by (simp add: sample_run_def sample_row_def writable_def trade_error_def numeric_20_0_def)




text \<open>
  The writer invents nothing: in every run, each event in the table was there before
  or was sent, and each trade was there before or is the trade of a row that was sent.
\<close>

theorem writer_stores_only_sent:
  assumes "writer_run err_text as (spawn_writer d n m) = Some w"
  shows "set (events (store (db w))) \<subseteq> set (events (store d)) \<union> pw_event ` set (sent as)
    \<and> set (trades (store (db w))) \<subseteq>
        set (trades (store d)) \<union> {r. \<exists>p \<in> set (sent as). trade_of p = Some r}"
  using origin.run_keeps_spawned [OF assms, where old = "store d" and S = "set (sent as)"]
  by (simp add: stored_from_def)

theorem writer_stores_only_sent_witness:
  "\<exists>w. writer_run (\<lambda>_. ''refused'') sample_run (sample_writer []) = Some w
     \<and> set (events (store (db w))) \<subseteq> {pw_event (sample_row ''a'' 5), pw_event (sample_row ''b'' 6)}"
proof -
  obtain w where w: "writer_run (\<lambda>_. ''refused'') sample_run (sample_writer []) = Some w"
    using sample_run_ends by blast
  from writer_stores_only_sent [OF w [unfolded sample_writer_def]] w show ?thesis
    by (simp add: sample_db_def empty_tables_def sample_run_def)
qed



text \<open>
  The ten second limit does not cover parking: when the batch's transaction gets no
  answer and the dead-letter insert gets none either, the task is stuck with its batch, and no
  later tick or receive can happen.
\<close>

theorem flush_can_hang:
  assumes "batch w \<noteq> []" "script (db w) = Hung a # Hung b # rest"
  shows "status (flush err_text clock w) = Stuck \<and> batch (flush err_text clock w) = batch w
    \<and> writer_step err_text (Tick clock') (flush err_text clock w) = None
    \<and> writer_step err_text (Receive clock') (flush err_text clock w) = None"
proof -
  obtain newest where "max_by_key row_slot (batch w) = Some newest"
    using assms(1) by (metis max_by_key_None not_Some_eq)
  with assms have "status (flush err_text clock w) = Stuck \<and> batch (flush err_text clock w) = batch w"
    by (simp add: flush_def write_batch_def transaction_def execute_def next_reply_def park_def
        write_dead_letters_def landed_def)
  then show ?thesis by simp
qed

theorem flush_can_hang_witness:
  "status (flush (\<lambda>_. ''refused'') id
     ((sample_writer [Hung False, Hung False])\<lparr>batch := [sample_row ''a'' 5]\<rparr>)) = Stuck"
  using flush_can_hang [of "(sample_writer [Hung False, Hung False])\<lparr>batch := [sample_row ''a'' 5]\<rparr>"
      False False "[]" "\<lambda>_. ''refused''" id id]
  by (simp add: sample_writer_def spawn_writer_def sample_db_def)

text \<open>
  A committed batch overwrites the checkpoint, whatever it was: when the highest slot
  of the batch is below it, as in a backfill or a recovery, the checkpoint moves back.
\<close>

theorem checkpoint_moves_back:
  assumes "calm w" "max_by_key row_slot (batch w) = Some newest"
    and "checkpoint (store (db w)) = Some (slot, sig)" "row_slot newest < slot"
  shows "\<exists>slot' sig'. checkpoint (store (db (flush err_text clock w))) = Some (slot', sig') \<and> slot' < slot"
proof -
  have "\<forall>p \<in> set (batch w). writable p" using assms(1) by (simp add: calm_def pending_def)
  then obtain t where eff: "commit_effect (batch w) (row_slot newest)
      (e_signature (pw_event newest)) (store (db w)) = Inr t"
    using commit_effect_succeeds by blast
  obtain d where "write_batch (batch w) (row_slot newest) (e_signature (pw_event newest)) (db w)
      = (Answer (), d)" "store d = t"
    using write_batch_healthy [OF _ eff] assms(1) by (auto simp: calm_def)
  with assms(2,4) show ?thesis by (simp add: flush_def commit_effect_Inr(3) [OF eff])
qed

theorem checkpoint_moves_back_witness:
  "\<exists>slot' sig'. checkpoint (store (db (flush (\<lambda>_. ''refused'') id
     ((spawn_writer \<lparr>store = empty_tables\<lparr>checkpoint := Some (9, ''c'')\<rparr>, script = []\<rparr> 4 new_metrics)
        \<lparr>batch := [sample_row ''a'' 5]\<rparr>)))) = Some (slot', sig') \<and> slot' < 9"
  by (rule checkpoint_moves_back [where newest = "sample_row ''a'' 5" and sig = "''c''"])
    (simp_all add: calm_def spawn_writer_def healthy_def pending_def new_chan_def writable_def
      sample_row_def trade_error_def numeric_20_0_def row_slot_def)

text \<open>
  The checkpoint can pass a row that was never written. In the sample run the first
  batch and its dead letters are refused, the second batch commits: the checkpoint is slot 6,
  while the row of slot 5 is in no table.
\<close>

theorem checkpoint_passes_lost_row:
  "\<exists>w. writer_run (\<lambda>_. ''refused'') sample_run
      (sample_writer [Refused (Server_error ''down''), Refused (Server_error ''down'')]) = Some w
    \<and> checkpoint (store (db w)) = Some (6, ''b'') \<and> row_slot (sample_row ''a'' 5) = 5
    \<and> pending_key (sample_row ''a'' 5) \<notin> event_key ` set (events (store (db w)))
    \<and> pending_key (sample_row ''a'' 5) \<notin> letter_key ` set (dead_letters (store (db w)))
    \<and> sample_row ''a'' 5 \<in> set (unparked w)"
  by (simp add: sample_defs flush_eval Let_def pending_key_def)

end
