(* ===== verification/Gaps.thy ===== *)
theory Gaps
  imports Writer
begin

text \<open>
  \<^verbatim>\<open>src/gaps.rs\<close>: the slot watermark that both processors share, the gap it reports when the
  stream jumps ahead, and the task that records reported gaps in the database.

  The atomic watermark, the sending half of the gap channel and the counters are one record
  \<open>watch\<close>. \<open>previous + SLOT_GAP_TOLERANCE\<close> is the wrapping addition of a release build; the
  properties assume slots below \<open>2 ^ 63\<close>, as \<^verbatim>\<open>BIGINT\<close> does.
\<close>

section \<open>The watermark\<close>

record disconnection =
  source :: string
  disconnect_time :: nat
  last_slot_before_disconnect :: u64
  first_slot_after_reconnect :: u64
  missed_slots :: u64

definition SLOT_GAP_TOLERANCE :: u64 where "SLOT_GAP_TOLERANCE = 50"
definition GAP_QUEUE_SIZE :: nat where "GAP_QUEUE_SIZE = 64"

record watch =
  watermark :: u64
  gaps_tx :: "disconnection chan option"
  watch_meter :: metrics

definition watermark_gap :: "nat \<Rightarrow> u64 \<Rightarrow> u64 \<Rightarrow> disconnection" where
  "watermark_gap now previous slot =
     \<lparr>source = ''watermark'', disconnect_time = now, last_slot_before_disconnect = previous,
      first_slot_after_reconnect = slot, missed_slots = slot - previous\<rparr>"

definition check_slot :: "nat \<Rightarrow> u64 \<Rightarrow> watch \<Rightarrow> watch" where
  "check_slot now slot w =
     (let previous = watermark w;
          w1 = w\<lparr>watermark := max previous slot, watch_meter := set_head_slot slot (watch_meter w)\<rparr>
      in if previous = 0 \<or> slot \<le> previous + SLOT_GAP_TOLERANCE then w1
         else (case gaps_tx w1 of
                 None \<Rightarrow> w1
               | Some c \<Rightarrow>
                   (case try_send (watermark_gap now previous slot) c of
                      None \<Rightarrow> w1
                    | Some c' \<Rightarrow> w1\<lparr>gaps_tx := Some c'\<rparr>)))"

section \<open>The recorder\<close>

record recorder =
  rec_db :: db
  rec_meter :: metrics
  rec_stuck :: bool

definition record_gap :: "disconnection \<Rightarrow> recorder \<Rightarrow> recorder" where
  "record_gap gap r =
     (if rec_stuck r then r
      else case write_gap (as_i64 (last_slot_before_disconnect gap))
                  (as_i64 (first_slot_after_reconnect gap)) (as_i64 (missed_slots gap))
                  (disconnect_time gap) (source gap) (rec_db r) of
        (Answer True, d) \<Rightarrow> r\<lparr>rec_db := d, rec_meter := inc GAP_DETECTED (rec_meter r)\<rparr>
      | (Answer False, d) \<Rightarrow> r\<lparr>rec_db := d\<rparr>
      | (Failure e, d) \<Rightarrow> r\<lparr>rec_db := d, rec_meter := inc DB_WRITE_ERRORS (rec_meter r)\<rparr>
      | (No_answer, d) \<Rightarrow> r\<lparr>rec_db := d, rec_stuck := True\<rparr>)"

definition record_gaps :: "disconnection list \<Rightarrow> recorder \<Rightarrow> recorder" where
  "record_gaps gaps r = fold record_gap gaps r"

section \<open>What the watermark reports\<close>

lemma watermark_check_slot [simp]: "watermark (check_slot now slot w) = max (watermark w) slot"
  by (simp add: check_slot_def Let_def split: option.splits)

interpretation mark: max_register watermark "check_slot now" for now
  by unfold_locales simp

lemma watch_meter_check_slot [simp]:
  "watch_meter (check_slot now slot w) = set_head_slot slot (watch_meter w)"
  by (simp add: check_slot_def Let_def split: option.splits)

definition small :: "u64 \<Rightarrow> bool" where
  "small s \<longleftrightarrow> unat s < 2 ^ 63"

lemma unat_add_tolerance: "small p \<Longrightarrow> unat (p + SLOT_GAP_TOLERANCE) = unat p + 50"
  by (simp add: small_def SLOT_GAP_TOLERANCE_def unat_word_ariths)

text \<open>
  The specification: the pairs of watermark and slot at which the stream jumps by more than
  the tolerance, over plain numbers.
\<close>

fun jumps :: "nat \<Rightarrow> nat list \<Rightarrow> (nat \<times> nat) list" where
  "jumps p [] = []"
| "jumps p (s # ss) = (if p \<noteq> 0 \<and> p + 50 < s then [(p, s)] else []) @ jumps (max p s) ss"

definition gap_pair :: "disconnection \<Rightarrow> nat \<times> nat" where
  "gap_pair g = (unat (last_slot_before_disconnect g), unat (first_slot_after_reconnect g))"

definition reported :: "watch \<Rightarrow> (nat \<times> nat) list" where
  "reported w = (case gaps_tx w of None \<Rightarrow> [] | Some c \<Rightarrow> map gap_pair (items c))"

definition room :: "nat \<Rightarrow> watch \<Rightarrow> bool" where
  "room n w \<longleftrightarrow> (\<exists>c. gaps_tx w = Some c \<and> receiver_alive c \<and> length (items c) + n \<le> capacity c)"

lemma unat_max: "unat (max a b) = max (unat a) (unat (b :: u64))"
  by (simp add: max_def word_le_nat_alt)

lemma check_slot_reports:
  assumes "small (watermark w)" "small s" "room (Suc n) w"
  shows "reported (check_slot now s w) = reported w @ jumps (unat (watermark w)) [unat s]
    \<and> room n (check_slot now s w)"
proof -
  obtain c where c: "gaps_tx w = Some c" "receiver_alive c" "length (items c) + Suc n \<le> capacity c"
    using assms(3) by (auto simp: room_def)
  have le: "s \<le> watermark w + SLOT_GAP_TOLERANCE \<longleftrightarrow> unat s \<le> unat (watermark w) + 50"
    by (simp add: word_le_nat_alt unat_add_tolerance assms(1))
  show ?thesis
  proof (cases "watermark w = 0 \<or> s \<le> watermark w + SLOT_GAP_TOLERANCE")
    case True
    with c le show ?thesis
      by (auto simp: check_slot_def Let_def reported_def room_def unat_eq_0)
  next
    case False
    then have "unat (watermark w) \<noteq> 0" "unat (watermark w) + 50 < unat s"
      using le by (auto simp: unat_eq_0)
    moreover have "try_send (watermark_gap now (watermark w) s) c =
        Some (c\<lparr>items := items c @ [watermark_gap now (watermark w) s]\<rparr>)"
      using c by (simp add: try_send_def)
    ultimately show ?thesis
      using c False
      by (simp add: check_slot_def Let_def reported_def room_def gap_pair_def watermark_gap_def)
  qed
qed

lemma check_slots_report:
  "small (watermark w) \<Longrightarrow> \<forall>s \<in> set ss. small s \<Longrightarrow> room (length ss) w \<Longrightarrow>
     reported (fold (check_slot now) ss w) =
       reported w @ jumps (unat (watermark w)) (map unat ss)"
proof (induction ss arbitrary: w)
  case (Cons s ss)
  from Cons.prems check_slot_reports [of w s "length ss" now]
  have 1: "reported (check_slot now s w) = reported w @ jumps (unat (watermark w)) [unat s]"
    "room (length ss) (check_slot now s w)" by auto
  have "small (watermark (check_slot now s w))" using Cons.prems by (simp add: max_def)
  from Cons.IH [OF this _ 1(2)] Cons.prems(2) 1(1) show ?case by (simp add: unat_max)
qed simp

lemma fold_max_ge: "x \<le> fold max ss (x :: nat)"
  by (induction ss arbitrary: x) (auto, metis max.bounded_iff)

lemma jumps_bounds:
  "(a, b) \<in> set (jumps p ss) \<Longrightarrow> p \<le> a \<and> a + 50 < b \<and> b \<le> fold max ss p"
proof (induction ss arbitrary: p)
  case (Cons s ss)
  have "s \<le> fold max ss (max s p)"
    using fold_max_ge [of "max s p" ss] by simp
  with Cons.IH [of "max p s"] Cons.prems show ?case
    by (auto simp: max.commute split: if_splits)
qed simp

text \<open>Successive reports do not overlap: each begins where the previous one ended, or later.\<close>

lemma jumps_disjoint:
  "sorted_wrt (\<lambda>g h. snd g \<le> fst h) (jumps p ss)"
proof (induction ss arbitrary: p)
  case (Cons s ss)
  have "\<forall>h \<in> set (jumps (max p s) ss). s \<le> fst h" using jumps_bounds by fastforce
  with Cons.IH [of "max p s"] show ?case by auto
qed simp

text \<open>
  Nothing is missed: a stretch longer than the tolerance in which no slot was seen lies inside
  one reported range, when a slot before it was seen first.
\<close>

lemma jumps_complete:
  "p \<noteq> 0 \<Longrightarrow> p \<le> a \<Longrightarrow> a + 50 < b \<Longrightarrow> \<forall>s \<in> set ss. s \<le> a \<or> b \<le> s \<Longrightarrow>
     \<exists>s \<in> set ss. b \<le> s \<Longrightarrow> \<exists>(l, f) \<in> set (jumps p ss). l \<le> a \<and> b \<le> f"
proof (induction ss arbitrary: p)
  case (Cons s ss)
  show ?case
  proof (cases "b \<le> s")
    case True
    with Cons.prems show ?thesis by (intro bexI [of _ "(p, s)"]) auto
  next
    case False
    with Cons.prems have s: "s \<le> a" "\<exists>s \<in> set ss. b \<le> s" by auto
    with Cons.IH [of "max p s"] Cons.prems show ?thesis by auto
  qed
qed simp

section \<open>What the recorder stores\<close>

lemma record_gaps_Cons: "record_gaps (g # gs) r = record_gaps gs (record_gap g r)"
  by (simp add: record_gaps_def)

definition range_of :: "disconnection \<Rightarrow> i64 \<times> i64" where
  "range_of g = (as_i64 (last_slot_before_disconnect g), as_i64 (first_slot_after_reconnect g))"

definition known_ranges :: "recorder \<Rightarrow> (i64 \<times> i64) set" where
  "known_ranges r = gap_range ` set (stream_gaps (store (rec_db r)))"

definition gap_count :: "recorder \<Rightarrow> nat" where
  "gap_count r = length (stream_gaps (store (rec_db r)))"

lemma record_gap_healthy:
  assumes "healthy (rec_db r)" "\<not> rec_stuck r"
  shows "healthy (rec_db (record_gap g r)) \<and> \<not> rec_stuck (record_gap g r)
    \<and> known_ranges (record_gap g r) = insert (range_of g) (known_ranges r)
    \<and> (if range_of g \<in> known_ranges r
       then gap_count (record_gap g r) = gap_count r
          \<and> get GAP_DETECTED (rec_meter (record_gap g r)) = get GAP_DETECTED (rec_meter r)
       else gap_count (record_gap g r) = Suc (gap_count r)
          \<and> get GAP_DETECTED (rec_meter (record_gap g r)) = get GAP_DETECTED (rec_meter r) + 1)"
proof -
  let ?stmt = "gap_stmt (as_i64 (last_slot_before_disconnect g))
    (as_i64 (first_slot_after_reconnect g)) (as_i64 (missed_slots g)) (disconnect_time g) (source g)"
  obtain x t where st: "?stmt (store (rec_db r)) = Inr (x, t)"
    using gap_stmt_total by blast
  obtain d where d: "execute ?stmt (rec_db r) = (Answer x, d)" "store d = t" "healthy d"
    using execute_healthy [OF assms(1), of ?stmt x t] st by blast
  from st show ?thesis
  proof (cases rule: gap_stmt_cases)
    case known
    with d assms(2) show ?thesis
      by (auto simp: record_gap_def write_gap_def known_ranges_def gap_count_def range_of_def)
  next
    case fresh
    with d assms(2) show ?thesis
      by (auto simp: record_gap_def write_gap_def known_ranges_def gap_count_def range_of_def
          gap_range_def)
  qed
qed

lemma insert_minus_fresh: "x \<notin> K \<Longrightarrow> insert x S - K = insert x (S - insert x K)"
  by blast

lemma record_gaps_healthy:
  "healthy (rec_db r) \<Longrightarrow> \<not> rec_stuck r \<Longrightarrow>
     known_ranges (record_gaps gs r) = known_ranges r \<union> range_of ` set gs
     \<and> gap_count (record_gaps gs r) = gap_count r + card (range_of ` set gs - known_ranges r)
     \<and> get GAP_DETECTED (rec_meter (record_gaps gs r)) =
         get GAP_DETECTED (rec_meter r) + of_nat (card (range_of ` set gs - known_ranges r))"
proof (induction gs arbitrary: r)
  case Nil
  then show ?case by (simp add: record_gaps_def)
next
  case (Cons g gs)
  note step = record_gap_healthy [OF Cons.prems, of g]
  let ?r = "record_gap g r"
  have IH: "known_ranges (record_gaps gs ?r) = known_ranges ?r \<union> range_of ` set gs
     \<and> gap_count (record_gaps gs ?r) = gap_count ?r + card (range_of ` set gs - known_ranges ?r)
     \<and> get GAP_DETECTED (rec_meter (record_gaps gs ?r)) =
         get GAP_DETECTED (rec_meter ?r) + of_nat (card (range_of ` set gs - known_ranges ?r))"
    using step by (intro Cons.IH) auto
  show ?case
  proof (cases "range_of g \<in> known_ranges r")
    case True
    then have "known_ranges ?r = known_ranges r" using step by (simp add: insert_absorb)
    moreover from True have "range_of ` set (g # gs) - known_ranges r = range_of ` set gs - known_ranges r"
      by (simp add: insert_Diff_if)
    moreover from True have "known_ranges r \<union> range_of ` set (g # gs) = known_ranges r \<union> range_of ` set gs"
      by (simp add: insert_absorb)
    ultimately show ?thesis using True step IH by (simp add: record_gaps_Cons)
  next
    case False
    let ?A = "range_of ` set gs - known_ranges ?r"
    have K: "known_ranges ?r = insert (range_of g) (known_ranges r)" using step by blast
    have "range_of ` set (g # gs) - known_ranges r = insert (range_of g) ?A"
      unfolding K by (simp add: insert_minus_fresh [OF False])
    moreover have "range_of g \<notin> ?A" "finite ?A" by (simp_all add: K)
    ultimately have "card (range_of ` set (g # gs) - known_ranges r) = Suc (card ?A)"
      by simp
    with False step IH show ?thesis by (simp add: record_gaps_Cons)
  qed
qed

section \<open>Properties\<close>

definition sample_watch :: watch where
  "sample_watch = \<lparr>watermark = 0, gaps_tx = Some (new_chan GAP_QUEUE_SIZE),
     watch_meter = new_metrics\<rparr>"

definition sample_slots :: "u64 list" where
  "sample_slots = [100, 103, 102, 200, 190, 260]"

lemma sample_watch_facts:
  "watermark sample_watch = 0" "reported sample_watch = []" "room (length sample_slots) sample_watch"
  "\<forall>s \<in> set sample_slots. small s"
  by (simp_all add: sample_watch_def sample_slots_def reported_def room_def new_chan_def
      GAP_QUEUE_SIZE_def small_def)

text \<open>
  Claim C21. The watermark reports exactly the jumps: with room in the channel, the reports of
  a run are the pairs (highest slot so far, next slot) that are more than 50 apart, none before
  the first slot; they do not overlap, and each begins where the previous one ended or later.
\<close>

theorem watermark_reports_jumps:
  assumes "watermark w = 0" "reported w = []" "room (length ss) w" "\<forall>s \<in> set ss. small s"
  shows "reported (fold (check_slot now) ss w) = jumps 0 (map unat ss)
    \<and> sorted_wrt (\<lambda>g h. snd g \<le> fst h) (reported (fold (check_slot now) ss w))
    \<and> (\<forall>(l, f) \<in> set (reported (fold (check_slot now) ss w)). l + 50 < f)"
proof -
  have "small (watermark w)" by (simp add: small_def assms(1))
  from check_slots_report [OF this assms(4,3)] assms(1,2)
  have "reported (fold (check_slot now) ss w) = jumps 0 (map unat ss)" by simp
  then show ?thesis using jumps_disjoint jumps_bounds by fastforce
qed

theorem watermark_reports_jumps_witness:
  "reported (fold (check_slot 7) sample_slots sample_watch) = [(103, 200), (200, 260)]"
  using watermark_reports_jumps [OF sample_watch_facts, of 7] by (simp add: sample_slots_def)

text \<open>
  No hole goes unnoticed: if no slot strictly between \<open>a\<close> and \<open>b\<close> was seen, the
  two are more than 50 apart, the stream began at or before \<open>a\<close> and later reached \<open>b\<close> or
  beyond, then one reported range contains the whole stretch.
\<close>

theorem no_hole_goes_unnoticed:
  assumes "watermark w = 0" "reported w = []" "room (length (s0 # ss)) w"
    and "\<forall>s \<in> set (s0 # ss). small s" and "s0 \<noteq> 0" "unat s0 \<le> a" "a + 50 < b"
    and "\<forall>s \<in> set ss. unat s \<le> a \<or> b \<le> unat s" "\<exists>s \<in> set ss. b \<le> unat s"
  shows "\<exists>(l, f) \<in> set (reported (fold (check_slot now) (s0 # ss) w)). l \<le> a \<and> b \<le> f"
proof -
  have "reported (fold (check_slot now) (s0 # ss) w) = jumps 0 (map unat (s0 # ss))"
    using check_slots_report [of w "s0 # ss" now] assms(1-4) by (simp add: small_def)
  then have "reported (fold (check_slot now) (s0 # ss) w) = jumps (unat s0) (map unat ss)"
    by simp
  moreover have "unat s0 \<noteq> 0" using assms(5) by (simp add: unat_eq_0)
  ultimately show ?thesis
    using jumps_complete [of "unat s0" a b "map unat ss"] assms(6-9) by simp
qed

theorem no_hole_goes_unnoticed_witness:
  "\<exists>(l, f) \<in> set (reported (fold (check_slot 7) [100, 103, 102, 200, 190, 260] sample_watch)).
     l \<le> 110 \<and> 180 \<le> f"
proof -
  have "room (length [100 :: u64, 103, 102, 200, 190, 260]) sample_watch"
    by (simp add: sample_watch_def room_def new_chan_def GAP_QUEUE_SIZE_def)
  then show ?thesis
    by (intro no_hole_goes_unnoticed) (simp_all add: sample_watch_facts small_def)
qed

text \<open>
  The processors agree on the watermark whatever the order in which they see the
  slots: it is the highest slot seen, it never moves back, and the head gauge follows it.
\<close>

theorem watermark_is_order_independent:
  "mset ss = mset ss' \<longrightarrow>
     watermark (fold (check_slot now) ss w) = watermark (fold (check_slot now') ss' w)
     \<and> watermark (fold (check_slot now) ss w) = Max (insert (watermark w) (set ss))
     \<and> get HEAD_SLOT (watch_meter (fold (check_slot now) ss w)) =
         Max (insert (get HEAD_SLOT (watch_meter w)) (set ss))"
proof
  assume "mset ss = mset ss'"
  then have "set ss = set ss'" by (rule mset_eq_setD)
  moreover have "watch_meter (fold (check_slot now) ss w) = fold set_head_slot ss (watch_meter w)"
    by (induction ss arbitrary: w) auto
  ultimately show "watermark (fold (check_slot now) ss w) = watermark (fold (check_slot now') ss' w)
     \<and> watermark (fold (check_slot now) ss w) = Max (insert (watermark w) (set ss))
     \<and> get HEAD_SLOT (watch_meter (fold (check_slot now) ss w)) =
         Max (insert (get HEAD_SLOT (watch_meter w)) (set ss))"
    by (simp add: mark.reading_run_Max head.reading_run_Max)
qed

theorem watermark_is_order_independent_witness:
  "watermark (fold (check_slot 7) [100, 300, 200] sample_watch) =
     watermark (fold (check_slot 9) [300, 200, 100] sample_watch)"
  by (rule watermark_is_order_independent [THEN mp, THEN conjunct1]) simp



text \<open>
  A gap that finds the channel full is lost: the watermark moves past it, nothing is
  queued, and the same stretch is not reported again by later slots.
\<close>

theorem full_channel_loses_gap:
  assumes "gaps_tx w = Some c" "length (items c) = capacity c"
  shows "reported (check_slot now s w) = reported w \<and> watermark (check_slot now s w) = max (watermark w) s
    \<and> (watermark w < s \<longrightarrow> check_slot now' s (check_slot now s w) = check_slot now s w)"
  using assms
  by (auto simp: check_slot_def Let_def reported_def try_send_def max_def set_head_slot_def
      SLOT_GAP_TOLERANCE_def split: option.splits)

theorem full_channel_loses_gap_witness:
  "reported (check_slot 7 500 (sample_watch\<lparr>watermark := 100, gaps_tx := Some (new_chan 0)\<rparr>)) = []"
  using full_channel_loses_gap [of "sample_watch\<lparr>watermark := 100, gaps_tx := Some (new_chan 0)\<rparr>"
      "new_chan 0" 7 500 7]
  by (simp add: new_chan_def reported_def)

end
