(* ===== verification/Pools.thy ===== *)
theory Pools
  imports Writer
begin

text \<open>
  \<^verbatim>\<open>src/pools.rs\<close>: which side of a PumpSwap pool is wrapped SOL. The orientation rule, the
  shared cache, its requests to the background task, that task, and the \<^verbatim>\<open>pools\<close> table behind
  the cache.

  The base58 text of a \<^verbatim>\<open>Pubkey\<close> is code of the Solana crates: a \<open>codec\<close> is an argument, and
  \<open>codec_ok\<close> is what is relied on (reading back what was shown). The same holds for the RPC
  client and the account decoder, arguments of \<open>resolver_task\<close>. The key of wrapped SOL is an
  argument of the orientation rule.
\<close>

section \<open>Keys and pools\<close>

datatype pubkey = Pubkey (key_bytes: "u8 list")

definition valid_key :: "pubkey \<Rightarrow> bool" where
  "valid_key k \<longleftrightarrow> length (key_bytes k) = 32"

record codec =
  show_key :: "pubkey \<Rightarrow> string"
  read_key :: "string \<Rightarrow> pubkey option"

definition codec_ok :: "codec \<Rightarrow> bool" where
  "codec_ok c \<longleftrightarrow> (\<forall>k. valid_key k \<longrightarrow> read_key c (show_key c k) = Some k)"

record trade =
  sol_amount :: u64
  token_amount :: u64
  token_mint :: pubkey
  is_buy :: bool

record pool_info =
  base_mint :: pubkey
  quote_mint :: pubkey
  base_decimals :: "u8 option"
  quote_decimals :: "u8 option"

definition orient ::
  "pubkey \<Rightarrow> pool_info \<Rightarrow> u64 \<Rightarrow> u64 \<Rightarrow> bool \<Rightarrow> metrics \<Rightarrow> trade option \<times> metrics" where
  "orient wsol info base_amount quote_amount acquiring_base m =
     (if quote_mint info = wsol then
        (Some \<lparr>sol_amount = quote_amount, token_amount = base_amount,
           token_mint = base_mint info, is_buy = acquiring_base\<rparr>, inc ORIENTED_NORMAL m)
      else if base_mint info = wsol then
        (Some \<lparr>sol_amount = base_amount, token_amount = quote_amount,
           token_mint = quote_mint info, is_buy = \<not> acquiring_base\<rparr>, inc ORIENTED_INVERTED m)
      else (None, m))"

section \<open>The resolver\<close>

text \<open>
  The cache, the request channel, the database handle (if there is one), the counters, and
  whether some task is waiting for an answer of the database that never comes. Both the
  processor that inserts and the background task can be the one that waits; the other goes on,
  so \<open>hung\<close> stops neither of them here, and the runs considered include those of the code.
\<close>

record resolver =
  cache :: "pubkey \<rightharpoonup> pool_info"
  requests :: "pubkey chan"
  pool_db :: "db option"
  pool_meter :: metrics
  hung :: bool

definition POOL_LOOKUP_QUEUE_SIZE :: nat where "POOL_LOOKUP_QUEUE_SIZE = 1000"

definition new_resolver :: "nat \<Rightarrow> db option \<Rightarrow> metrics \<Rightarrow> resolver" where
  "new_resolver n d m = \<lparr>cache = Map.empty, requests = new_chan n, pool_db = d,
     pool_meter = m, hung = False\<rparr>"

definition pool_get :: "resolver \<Rightarrow> pubkey \<Rightarrow> pool_info option" where
  "pool_get r p = cache r p"

definition cache_insert :: "pubkey \<Rightarrow> pool_info \<Rightarrow> resolver \<Rightarrow> resolver" where
  "cache_insert p info r = r\<lparr>cache := (cache r)(p \<mapsto> info)\<rparr>"

definition i32_of_u8 :: "u8 \<Rightarrow> i32" where
  "i32_of_u8 d = uint d"

definition save :: "codec \<Rightarrow> pubkey \<Rightarrow> pool_info \<Rightarrow> resolver \<Rightarrow> resolver" where
  "save c p info r = (case pool_db r of
      None \<Rightarrow> r
    | Some d \<Rightarrow>
        (case write_pool (show_key c p) (show_key c (base_mint info)) (show_key c (quote_mint info))
                (map_option i32_of_u8 (base_decimals info))
                (map_option i32_of_u8 (quote_decimals info)) d of
           (Answer _, d') \<Rightarrow> r\<lparr>pool_db := Some d'\<rparr>
         | (Failure e, d') \<Rightarrow>
             r\<lparr>pool_db := Some d', pool_meter := inc DB_WRITE_ERRORS (pool_meter r)\<rparr>
         | (No_answer, d') \<Rightarrow> r\<lparr>pool_db := Some d', hung := True\<rparr>))"

definition pool_insert :: "codec \<Rightarrow> pubkey \<Rightarrow> pool_info \<Rightarrow> resolver \<Rightarrow> resolver" where
  "pool_insert c p info r = save c p info (cache_insert p info r)"

definition pool_request :: "pubkey \<Rightarrow> resolver \<Rightarrow> resolver" where
  "pool_request p r = (case try_send p (requests r) of
      None \<Rightarrow> r\<lparr>pool_meter := inc LOOKUPS_DROPPED (pool_meter r)\<rparr>
    | Some q \<Rightarrow> r\<lparr>requests := q\<rparr>)"

datatype prime_error = Prime_db db_error | Prime_key | Prime_waiting

text \<open>The decimals column is an \<^verbatim>\<open>INT\<close>: values that are not a \<^verbatim>\<open>u8\<close> are dropped.\<close>

definition info_of_stored :: "codec \<Rightarrow> stored_pool \<Rightarrow> (pubkey \<times> pool_info) option" where
  "info_of_stored c p =
     (case (read_key c (sp_pool p), read_key c (sp_base_mint p), read_key c (sp_quote_mint p)) of
        (Some k, Some b, Some q) \<Rightarrow> Some (k, \<lparr>base_mint = b, quote_mint = q,
           base_decimals = Option.bind (sp_base_decimals p) u8_of_i32,
           quote_decimals = Option.bind (sp_quote_decimals p) u8_of_i32\<rparr>)
      | _ \<Rightarrow> None)"

fun prime_rows :: "codec \<Rightarrow> stored_pool list \<Rightarrow> resolver \<Rightarrow> bool \<times> resolver" where
  "prime_rows c [] r = (True, r)"
| "prime_rows c (p # ps) r = (case info_of_stored c p of
      None \<Rightarrow> (False, r)
    | Some (k, info) \<Rightarrow> prime_rows c ps (cache_insert k info r))"

definition prime :: "codec \<Rightarrow> resolver \<Rightarrow> (prime_error + nat) \<times> resolver" where
  "prime c r = (case pool_db r of
      None \<Rightarrow> (Inr 0, r)
    | Some d \<Rightarrow>
        (case load_pools d of
           (Answer stored, d') \<Rightarrow>
             (case prime_rows c stored (r\<lparr>pool_db := Some d'\<rparr>) of
                (True, r') \<Rightarrow> (Inr (length stored), r')
              | (False, r') \<Rightarrow> (Inl Prime_key, r'))
         | (Failure e, d') \<Rightarrow> (Inl (Prime_db e), r\<lparr>pool_db := Some d'\<rparr>)
         | (No_answer, d') \<Rightarrow> (Inl Prime_waiting, r\<lparr>pool_db := Some d', hung := True\<rparr>)))"

text \<open>
  One turn of the background task. \<open>fetch\<close> is the RPC client's answer for an account
  (\<open>None\<close> for an error), \<open>decode\<close> the account decoder, giving the base and the quote mint.
\<close>

definition resolver_task ::
  "codec \<Rightarrow> (pubkey \<Rightarrow> u8 list option) \<Rightarrow> (u8 list \<Rightarrow> (pubkey \<times> pubkey) option) \<Rightarrow>
     resolver \<Rightarrow> resolver option" where
  "resolver_task c fetch decode r = (case recv (requests r) of
      None \<Rightarrow> None
    | Some (p, q) \<Rightarrow> Some
        (let r1 = r\<lparr>requests := q\<rparr> in
         if cache r1 p \<noteq> None then r1
         else
           let r2 = r1\<lparr>pool_meter := inc POOL_LOOKUPS (pool_meter r1)\<rparr> in
           (case fetch p of
              Some data \<Rightarrow>
                (case decode data of
                   Some (b, t) \<Rightarrow>
                     pool_insert c p \<lparr>base_mint = b, quote_mint = t, base_decimals = None,
                       quote_decimals = None\<rparr> r2
                 | None \<Rightarrow> r2\<lparr>pool_meter := inc POOL_LOOKUP_ERRORS (pool_meter r2)\<rparr>)
            | None \<Rightarrow> r2\<lparr>pool_meter := inc POOL_LOOKUP_ERRORS (pool_meter r2)\<rparr>)))"

section \<open>The cache as an interface\<close>

text \<open>
  What the processors and \<^verbatim>\<open>prime\<close> rely on: an inserted pool is found, others are unaffected.
\<close>

locale lookup_table =
  fixes find :: "'s \<Rightarrow> 'k \<Rightarrow> 'v option"
    and enter :: "'k \<Rightarrow> 'v \<Rightarrow> 's \<Rightarrow> 's"
  assumes find_enter: "find (enter k v s) j = (if j = k then Some v else find s j)"
begin

definition enter_all :: "('k \<times> 'v) list \<Rightarrow> 's \<Rightarrow> 's" where
  "enter_all kvs s = fold (\<lambda>(k, v). enter k v) kvs s"

lemma find_enter_all:
  "find (enter_all kvs s) j = (case map_of (rev kvs) j of None \<Rightarrow> find s j | Some v \<Rightarrow> Some v)"
proof (induction kvs rule: rev_induct)
  case Nil
  then show ?case by (simp add: enter_all_def)
next
  case (snoc kv kvs)
  then show ?case by (cases kv) (simp add: enter_all_def find_enter)
qed

lemma found_stays: "find s j \<noteq> None \<Longrightarrow> find (enter_all kvs s) j \<noteq> None"
  by (simp add: find_enter_all split: option.split)

lemma find_distinct:
  "distinct (map fst kvs) \<Longrightarrow> (k, v) \<in> set kvs \<Longrightarrow> find (enter_all kvs s) k = Some v"
  using map_of_is_SomeI [of "rev kvs" k v]
  by (simp add: find_enter_all rev_map [symmetric])

end

lemma pool_get_save [simp]: "pool_get (save c p info r) = pool_get r"
  by (auto simp: save_def pool_get_def fun_eq_iff split: option.splits prod.splits outcome.splits)

lemma pool_get_request [simp]: "pool_get (pool_request p r) = pool_get r"
  by (auto simp: pool_request_def pool_get_def fun_eq_iff split: option.splits)

interpretation cached: lookup_table pool_get cache_insert
  by unfold_locales (simp add: cache_insert_def pool_get_def)

interpretation saved: lookup_table pool_get "pool_insert c" for c
  by unfold_locales (simp add: pool_insert_def cached.find_enter)

lemma pool_insert_get: "pool_get (pool_insert c p info r) = (pool_get r)(p \<mapsto> info)"
  by (auto simp: fun_eq_iff saved.find_enter)

lemma prime_rows_enter:
  "prime_rows c ps r = (True, r') \<Longrightarrow>
     (\<forall>p \<in> set ps. info_of_stored c p \<noteq> None)
     \<and> r' = cached.enter_all (map (the \<circ> info_of_stored c) ps) r"
proof (induction ps arbitrary: r)
  case Nil
  then show ?case by (simp add: cached.enter_all_def)
next
  case (Cons p ps)
  then show ?case by (auto simp: cached.enter_all_def split: option.splits)
qed

lemma prime_rows_True:
  "\<forall>p \<in> set ps. info_of_stored c p \<noteq> None \<Longrightarrow>
     prime_rows c ps r = (True, cached.enter_all (map (the \<circ> info_of_stored c) ps) r)"
  by (induction ps arbitrary: r) (auto simp: cached.enter_all_def)

section \<open>The table behind the cache\<close>

definition stored_of :: "codec \<Rightarrow> pubkey \<Rightarrow> pool_info \<Rightarrow> stored_pool" where
  "stored_of c p info = \<lparr>sp_pool = show_key c p, sp_base_mint = show_key c (base_mint info),
     sp_quote_mint = show_key c (quote_mint info),
     sp_base_decimals = map_option i32_of_u8 (base_decimals info),
     sp_quote_decimals = map_option i32_of_u8 (quote_decimals info)\<rparr>"

definition valid_info :: "pool_info \<Rightarrow> bool" where
  "valid_info i \<longleftrightarrow> valid_key (base_mint i) \<and> valid_key (quote_mint i)"

lemma bind_u8 [simp]: "Option.bind (map_option i32_of_u8 d) u8_of_i32 = d"
  by (cases d) (simp_all add: i32_of_u8_def)

lemma info_of_stored_of:
  "codec_ok c \<Longrightarrow> valid_key p \<Longrightarrow> valid_info info \<Longrightarrow>
     info_of_stored c (stored_of c p info) = Some (p, info)"
  by (simp add: info_of_stored_def stored_of_def codec_ok_def valid_info_def)

lemma show_key_inj:
  "codec_ok c \<Longrightarrow> valid_key a \<Longrightarrow> valid_key b \<Longrightarrow> show_key c a = show_key c b \<Longrightarrow> a = b"
  by (metis codec_ok_def option.inject)

text \<open>
  Pools never change their mints. \<open>mints_of\<close> is the chain's assignment; a resolver agrees with
  it when the cache and the table do, and the table covers the cache.
\<close>

definition row_agrees :: "codec \<Rightarrow> (pubkey \<Rightarrow> (pubkey \<times> pubkey) option) \<Rightarrow> stored_pool \<Rightarrow> bool" where
  "row_agrees c mints_of q \<longleftrightarrow> (\<exists>p b t. valid_key p \<and> valid_key b \<and> valid_key t
     \<and> mints_of p = Some (b, t) \<and> sp_pool q = show_key c p
     \<and> sp_base_mint q = show_key c b \<and> sp_quote_mint q = show_key c t)"

definition info_agrees ::
  "(pubkey \<Rightarrow> (pubkey \<times> pubkey) option) \<Rightarrow> pubkey \<Rightarrow> pool_info \<Rightarrow> bool" where
  "info_agrees mints_of p i \<longleftrightarrow> valid_key p \<and> valid_info i
     \<and> mints_of p = Some (base_mint i, quote_mint i)"

definition resolver_agrees ::
  "codec \<Rightarrow> (pubkey \<Rightarrow> (pubkey \<times> pubkey) option) \<Rightarrow> resolver \<Rightarrow> bool" where
  "resolver_agrees c mints_of r \<longleftrightarrow>
     (\<forall>p i. pool_get r p = Some i \<longrightarrow> info_agrees mints_of p i)
     \<and> (\<forall>d. pool_db r = Some d \<longrightarrow> (\<forall>q \<in> set (pools (store d)). row_agrees c mints_of q))"

definition table_covers :: "codec \<Rightarrow> resolver \<Rightarrow> bool" where
  "table_covers c r \<longleftrightarrow> (\<forall>d p. pool_db r = Some d \<longrightarrow> pool_get r p \<noteq> None \<longrightarrow>
     show_key c p \<in> sp_pool ` set (pools (store d)))"

lemma row_agrees_merge [simp]:
  "row_agrees c mints_of (merge_decimals p q) = row_agrees c mints_of q"
  by (simp add: row_agrees_def)

lemma row_agrees_stored_of: "info_agrees mints_of p i \<Longrightarrow> row_agrees c mints_of (stored_of c p i)"
  by (auto simp: row_agrees_def info_agrees_def stored_of_def valid_info_def)

lemma row_agrees_upsert:
  "\<forall>q \<in> set tbl. row_agrees c mints_of q \<Longrightarrow> row_agrees c mints_of p \<Longrightarrow>
     \<forall>q \<in> set (upsert_pool p tbl). row_agrees c mints_of q"
  by (auto simp: upsert_pool_def)

lemma save_store:
  assumes "pool_db r = Some d"
  obtains d' where "pool_db (save c p info r) = Some d'"
    "store d' = store d \<or>
     store d' = (store d)\<lparr>pools := upsert_pool (stored_of c p info) (pools (store d))\<rparr>"
proof -
  obtain a d' where w: "write_pool (show_key c p) (show_key c (base_mint info))
      (show_key c (quote_mint info)) (map_option i32_of_u8 (base_decimals info))
      (map_option i32_of_u8 (quote_decimals info)) d = (a, d')"
    by fastforce
  have "pool_db (save c p info r) = Some d'"
    using assms w by (cases a) (simp_all add: save_def)
  moreover from w have "store d' = store d \<or>
      store d' = (store d)\<lparr>pools := upsert_pool (stored_of c p info) (pools (store d))\<rparr>"
    unfolding write_pool_def stored_of_def by (auto dest!: store_execute)
  ultimately show thesis by (rule that)
qed

lemma save_None: "pool_db r = None \<Longrightarrow> save c p info r = r"
  by (simp add: save_def)

lemma pool_insert_agrees:
  assumes "resolver_agrees c mints_of r" "info_agrees mints_of p info"
  shows "resolver_agrees c mints_of (pool_insert c p info r)"
proof -
  have db: "\<forall>q \<in> set (pools (store d')). row_agrees c mints_of q"
    if "pool_db (pool_insert c p info r) = Some d'" for d'
  proof (cases "pool_db r")
    case None
    with that show ?thesis by (simp add: pool_insert_def cache_insert_def save_None)
  next
    case (Some d)
    then have "pool_db (cache_insert p info r) = Some d" by (simp add: cache_insert_def)
    then obtain d'' where "pool_db (pool_insert c p info r) = Some d''"
      "store d'' = store d \<or>
       store d'' = (store d)\<lparr>pools := upsert_pool (stored_of c p info) (pools (store d))\<rparr>"
      unfolding pool_insert_def by (rule save_store)
    with that Some assms row_agrees_upsert [of "pools (store d)" c mints_of "stored_of c p info"]
      row_agrees_stored_of [OF assms(2), of c]
    show ?thesis by (auto simp: resolver_agrees_def)
  qed
  with assms show ?thesis by (auto simp: resolver_agrees_def pool_insert_get)
qed

lemma save_healthy:
  assumes "pool_db r = Some d" "healthy d"
  shows "\<exists>d'. save c p info r = r\<lparr>pool_db := Some d'\<rparr> \<and> healthy d'
    \<and> store d' = (store d)\<lparr>pools := upsert_pool (stored_of c p info) (pools (store d))\<rparr>"
proof -
  let ?stmt = "\<lambda>t. Inr ((), t\<lparr>pools := upsert_pool (stored_of c p info) (pools t)\<rparr>) :: db_error + unit \<times> tables"
  obtain d' where "execute ?stmt d = (Answer (), d')" "healthy d'"
      "store d' = (store d)\<lparr>pools := upsert_pool (stored_of c p info) (pools (store d))\<rparr>"
    using execute_healthy [OF assms(2), of ?stmt] by blast
  moreover from this(1) have "save c p info r = r\<lparr>pool_db := Some d'\<rparr>"
    using assms(1) by (simp add: save_def write_pool_def stored_of_def)
  ultimately show ?thesis by blast
qed

definition db_healthy :: "resolver \<Rightarrow> bool" where
  "db_healthy r \<longleftrightarrow> (\<forall>d. pool_db r = Some d \<longrightarrow> healthy d)"

lemma pool_insert_covers:
  assumes "table_covers c r" "db_healthy r"
  shows "table_covers c (pool_insert c p info r) \<and> db_healthy (pool_insert c p info r)"
proof (cases "pool_db r")
  case None
  then show ?thesis by (simp add: pool_insert_def table_covers_def db_healthy_def cache_insert_def save_None)
next
  case (Some d)
  let ?r = "cache_insert p info r"
  have "pool_db ?r = Some d" "healthy d"
    using Some assms(2) by (simp_all add: cache_insert_def db_healthy_def)
  then obtain d' where d': "pool_insert c p info r = ?r\<lparr>pool_db := Some d'\<rparr>" "healthy d'"
      "store d' = (store d)\<lparr>pools := upsert_pool (stored_of c p info) (pools (store d))\<rparr>"
    unfolding pool_insert_def using save_healthy by blast
  have "sp_pool ` set (pools (store d')) = insert (show_key c p) (sp_pool ` set (pools (store d)))"
    by (simp add: d'(3) upsert_pool_names) (simp add: stored_of_def)
  with assms(1) Some d' show ?thesis
    by (auto simp: table_covers_def db_healthy_def pool_get_def cache_insert_def split: if_splits)
qed

section \<open>Steps of the resolver\<close>

text \<open>
  What can happen to a resolver after it was primed: a creation event inserts a pool, a
  processor requests one, the background task takes a turn. What comes from outside (the event,
  the account) agrees with the chain.
\<close>

inductive resolver_step ::
  "codec \<Rightarrow> (pubkey \<Rightarrow> (pubkey \<times> pubkey) option) \<Rightarrow> resolver \<Rightarrow> resolver \<Rightarrow> bool"
  for c mints_of where
  created: "info_agrees mints_of p info \<Longrightarrow> resolver_step c mints_of r (pool_insert c p info r)"
| requested: "resolver_step c mints_of r (pool_request p r)"
| turn: "resolver_task c fetch decode r = Some r' \<Longrightarrow>
    (\<And>p data b t. fetch p = Some data \<Longrightarrow> decode data = Some (b, t) \<Longrightarrow>
       valid_key p \<and> valid_key b \<and> valid_key t \<and> mints_of p = Some (b, t)) \<Longrightarrow>
    resolver_step c mints_of r r'"

lemma pool_request_same:
  "pool_db (pool_request p r) = pool_db r" "cache (pool_request p r) = cache r"
  by (simp_all add: pool_request_def split: option.splits)

lemma agrees_cong:
  assumes "cache r' = cache r" "pool_db r' = pool_db r"
  shows "resolver_agrees c mints_of r' = resolver_agrees c mints_of r"
    and "table_covers c r' = table_covers c r" and "db_healthy r' = db_healthy r"
  using assms by (simp_all add: resolver_agrees_def table_covers_def db_healthy_def pool_get_def)

lemma resolver_task_shape:
  assumes "resolver_task c fetch decode r = Some r'"
  shows "cache r' = cache r \<and> pool_db r' = pool_db r \<or>
    (\<exists>p data b t r2. fetch p = Some data \<and> decode data = Some (b, t) \<and> cache r p = None
       \<and> cache r2 = cache r \<and> pool_db r2 = pool_db r
       \<and> r' = pool_insert c p \<lparr>base_mint = b, quote_mint = t, base_decimals = None,
           quote_decimals = None\<rparr> r2)"
proof (cases "recv (requests r)")
  case None
  with assms show ?thesis by (simp add: resolver_task_def)
next
  case (Some pq)
  obtain p q where pq: "pq = (p, q)" by fastforce
  show ?thesis
  proof (cases "cache r p")
    case (Some i)
    with assms \<open>recv (requests r) = Some pq\<close> pq show ?thesis
      by (intro disjI1) (auto simp: resolver_task_def Let_def)
  next
    case miss: None
    show ?thesis
    proof (cases "Option.bind (fetch p) decode")
      case None
      with assms miss Some pq show ?thesis
        by (intro disjI1, cases "fetch p") (auto simp: resolver_task_def Let_def)
    next
      case (Some bt)
      then obtain data b t where f: "fetch p = Some data" "decode data = Some (b, t)"
        by (cases bt) (auto simp: bind_eq_Some_conv)
      let ?r2 = "r\<lparr>requests := q, pool_meter := inc POOL_LOOKUPS (pool_meter r)\<rparr>"
      have "r' = pool_insert c p \<lparr>base_mint = b, quote_mint = t, base_decimals = None,
          quote_decimals = None\<rparr> ?r2"
        using assms miss \<open>recv (requests r) = Some pq\<close> pq f
        by (simp add: resolver_task_def Let_def)
      moreover have "cache ?r2 = cache r" "pool_db ?r2 = pool_db r" by simp_all
      ultimately show ?thesis using f miss by blast
    qed
  qed
qed

lemma resolver_step_agrees:
  "resolver_step c mints_of r r' \<Longrightarrow> resolver_agrees c mints_of r \<Longrightarrow> resolver_agrees c mints_of r'"
proof (induction rule: resolver_step.induct)
  case (created p info r)
  then show ?case by (simp add: pool_insert_agrees)
next
  case (requested r p)
  then show ?case by (simp add: agrees_cong [OF pool_request_same(2,1)])
next
  case (turn fetch decode r r')
  from resolver_task_shape [OF turn.hyps(1)] show ?case
  proof (elim disjE exE conjE)
    assume same: "cache r' = cache r" "pool_db r' = pool_db r"
    from turn.prems show ?thesis by (simp add: agrees_cong(1) [OF same])
  next
    fix p data b t r2
    assume f: "fetch p = Some data" "decode data = Some (b, t)"
      and r2: "cache r2 = cache r" "pool_db r2 = pool_db r"
      and r': "r' = pool_insert c p \<lparr>base_mint = b, quote_mint = t, base_decimals = None,
           quote_decimals = None\<rparr> r2"
    have "info_agrees mints_of p \<lparr>base_mint = b, quote_mint = t, base_decimals = None,
        quote_decimals = None\<rparr>"
      using turn.hyps(2) [OF f] by (simp add: info_agrees_def valid_info_def)
    with turn.prems show ?thesis
      unfolding r' by (simp add: pool_insert_agrees agrees_cong [OF r2])
  qed
qed

lemma resolver_step_covers:
  "resolver_step c mints_of r r' \<Longrightarrow> table_covers c r \<and> db_healthy r \<Longrightarrow>
     table_covers c r' \<and> db_healthy r'"
proof (induction rule: resolver_step.induct)
  case (created p info r)
  then show ?case by (simp add: pool_insert_covers)
next
  case (requested r p)
  then show ?case by (simp add: agrees_cong [OF pool_request_same(2,1)])
next
  case (turn fetch decode r r')
  from resolver_task_shape [OF turn.hyps(1)] show ?case
  proof (elim disjE exE conjE)
    assume same: "cache r' = cache r" "pool_db r' = pool_db r"
    from turn.prems show ?thesis by (simp add: agrees_cong [OF same])
  next
    fix p b t r2
    assume r2: "cache r2 = cache r" "pool_db r2 = pool_db r"
      and r': "r' = pool_insert c p \<lparr>base_mint = b, quote_mint = t, base_decimals = None,
           quote_decimals = None\<rparr> r2"
    from turn.prems show ?thesis
      unfolding r' by (intro pool_insert_covers) (simp_all add: agrees_cong [OF r2])
  qed
qed

lemma resolver_steps:
  assumes "(resolver_step c mints_of)\<^sup>*\<^sup>* r r'" "resolver_agrees c mints_of r"
    "table_covers c r" "db_healthy r"
  shows "resolver_agrees c mints_of r' \<and> table_covers c r' \<and> db_healthy r'"
  using assms
  by (induction rule: rtranclp_induct) (auto dest: resolver_step_agrees resolver_step_covers)

section \<open>Priming\<close>

lemma row_agrees_info:
  assumes "codec_ok c" "row_agrees c mints_of q"
  shows "\<exists>p i. info_of_stored c q = Some (p, i) \<and> info_agrees mints_of p i \<and> sp_pool q = show_key c p"
proof -
  obtain p b t where q: "valid_key p" "valid_key b" "valid_key t" "mints_of p = Some (b, t)"
    "sp_pool q = show_key c p" "sp_base_mint q = show_key c b" "sp_quote_mint q = show_key c t"
    using assms(2) by (auto simp: row_agrees_def)
  with assms(1) show ?thesis
    by (auto simp: info_of_stored_def codec_ok_def info_agrees_def valid_info_def)
qed

lemma prime_agrees:
  assumes ok: "codec_ok c" and db: "pool_db r = Some d" "healthy d"
    and rows: "\<forall>q \<in> set (pools (store d)). row_agrees c mints_of q"
    and empty: "cache r = Map.empty"
  shows "\<exists>n r'. prime c r = (Inr n, r') \<and>
    (\<forall>p. valid_key p \<longrightarrow> show_key c p \<in> sp_pool ` set (pools (store d)) \<longrightarrow>
       (\<exists>i. pool_get r' p = Some i \<and> info_agrees mints_of p i))"
proof -
  let ?ps = "pools (store d)"
  obtain d' where d': "load_pools d = (Answer ?ps, d')"
    using execute_healthy [OF db(2), of "\<lambda>t. Inr (pools t, t)"] by (auto simp: load_pools_def)
  have some: "\<forall>q \<in> set ?ps. info_of_stored c q \<noteq> None"
    using rows row_agrees_info [OF ok] by fastforce
  let ?kvs = "map (the \<circ> info_of_stored c) ?ps"
  let ?r' = "cached.enter_all ?kvs (r\<lparr>pool_db := Some d'\<rparr>)"
  have prime: "prime c r = (Inr (length ?ps), ?r')"
    by (simp add: prime_def db(1) d' prime_rows_True [OF some])
  have "\<exists>i. pool_get ?r' p = Some i \<and> info_agrees mints_of p i"
    if p: "valid_key p" "show_key c p \<in> sp_pool ` set ?ps" for p
  proof -
    obtain q where q: "q \<in> set ?ps" "sp_pool q = show_key c p" using p(2) by force
    obtain p' i where i: "info_of_stored c q = Some (p', i)" "info_agrees mints_of p' i"
        "sp_pool q = show_key c p'"
      using row_agrees_info [OF ok] rows q(1) by blast
    have "p' = p" using show_key_inj [OF ok _ p(1), of p'] i q(2) by (simp add: info_agrees_def)
    then have "p \<in> fst ` set (rev ?kvs)" using q(1) i(1) by (force simp: image_iff)
    then obtain j where j: "map_of (rev ?kvs) p = Some j" by (meson map_of_eq_None_iff not_Some_eq)
    then have "(p, j) \<in> set ?kvs" using map_of_SomeD by fastforce
    then obtain q' where "q' \<in> set ?ps" "info_of_stored c q' = Some (p, j)" using some by force
    then have "info_agrees mints_of p j" using row_agrees_info [OF ok] rows by fastforce
    with j show ?thesis by (simp add: cached.find_enter_all)
  qed
  with prime show ?thesis by blast
qed

section \<open>Properties\<close>

text \<open>
  A concrete codec for the witnesses: a key is written as its bytes. (Base58 is another such
  pair; what matters is that reading inverts showing.)
\<close>

definition byte_codec :: codec where
  "byte_codec = \<lparr>show_key = (\<lambda>k. map (\<lambda>b. char_of (unat b)) (key_bytes k)),
     read_key = (\<lambda>s. if length s = 32 then Some (Pubkey (map (\<lambda>c. of_nat (of_char c)) s)) else None)\<rparr>"

definition sample_key :: "u8 \<Rightarrow> pubkey" where
  "sample_key b = Pubkey (replicate 32 b)"

lemma sample_key_valid [simp]: "valid_key (sample_key b)"
  by (simp add: sample_key_def valid_key_def)

lemma sample_key_inj [simp]: "sample_key a = sample_key b \<longleftrightarrow> a = b"
  by (simp add: sample_key_def)

lemma byte_mod_256 [simp]: "of_nat (unat (b :: u8) mod 256) = b"
  using unsigned_less [of b, where ?'a = nat] by simp

lemma byte_codec_ok: "codec_ok byte_codec"
  by (simp add: codec_ok_def byte_codec_def valid_key_def comp_def)

text \<open>
  What a swap moves, seen from the trader: an amount gained or lost per mint. \<open>event_flow\<close>
  reads it off the pool's event, \<open>trade_flow\<close> off the trade row.
\<close>

definition event_flow :: "pool_info \<Rightarrow> u64 \<Rightarrow> u64 \<Rightarrow> bool \<Rightarrow> (pubkey \<times> int) set" where
  "event_flow info base quote acquiring_base =
     (if acquiring_base then {(base_mint info, uint base), (quote_mint info, - uint quote)}
      else {(base_mint info, - uint base), (quote_mint info, uint quote)})"

definition trade_flow :: "pubkey \<Rightarrow> trade \<Rightarrow> (pubkey \<times> int) set" where
  "trade_flow wsol t =
     (if is_buy t then {(token_mint t, uint (token_amount t)), (wsol, - uint (sol_amount t))}
      else {(token_mint t, - uint (token_amount t)), (wsol, uint (sol_amount t))})"

text \<open>
  Orientation preserves the trade: it answers exactly when one side of the pool is
  wrapped SOL, the row it gives moves the same amounts of the same mints in the same direction
  as the event, and exactly one of the two orientation counters is incremented (none otherwise).
\<close>

theorem orient_preserves_flow:
  "case orient wsol info base quote acquiring_base m of
     (None, m') \<Rightarrow> base_mint info \<noteq> wsol \<and> quote_mint info \<noteq> wsol \<and> m' = m
   | (Some t, m') \<Rightarrow> (base_mint info = wsol \<or> quote_mint info = wsol)
       \<and> trade_flow wsol t = event_flow info base quote acquiring_base
       \<and> get ORIENTED_NORMAL m' + get ORIENTED_INVERTED m' =
           get ORIENTED_NORMAL m + get ORIENTED_INVERTED m + 1"
  by (auto simp: orient_def trade_flow_def event_flow_def)

definition swap_sides :: "pool_info \<Rightarrow> pool_info" where
  "swap_sides i = \<lparr>base_mint = quote_mint i, quote_mint = base_mint i,
     base_decimals = quote_decimals i, quote_decimals = base_decimals i\<rparr>"

text \<open>
  Which side of the pool is called base does not matter: the same pool with its sides
  exchanged, and the same swap told from that side, give the same trade. (A pool has two
  different mints.)
\<close>

theorem orient_is_symmetric:
  assumes "base_mint info \<noteq> quote_mint info"
  shows "fst (orient wsol (swap_sides info) quote base (\<not> acquiring_base) m) =
    fst (orient wsol info base quote acquiring_base m')"
  using assms by (auto simp: orient_def swap_sides_def)

theorem orient_is_symmetric_witness:
  "fst (orient (sample_key 1) \<lparr>base_mint = sample_key 1, quote_mint = sample_key 2,
       base_decimals = None, quote_decimals = None\<rparr> 500 20 False new_metrics) =
     Some \<lparr>sol_amount = 500, token_amount = 20, token_mint = sample_key 2, is_buy = True\<rparr>"
  using orient_is_symmetric [of "\<lparr>base_mint = sample_key 2, quote_mint = sample_key 1,
       base_decimals = None, quote_decimals = None\<rparr>" "sample_key 1" 500 20 True new_metrics
       new_metrics]
  by (simp add: orient_def swap_sides_def)

text \<open>
  Claim C13. The cache never misnames a pool. However creation events, requests and turns of the
  background task are interleaved, with a database that may answer anything, a cached pool has
  the mints the chain gives it, and so has every row of the pools table.
\<close>

theorem cache_agrees_with_chain:
  assumes "(resolver_step c mints_of)\<^sup>*\<^sup>* r r'" "resolver_agrees c mints_of r"
    and "pool_get r' p = Some info"
  shows "mints_of p = Some (base_mint info, quote_mint info)
    \<and> (\<forall>d. pool_db r' = Some d \<longrightarrow> (\<forall>q \<in> set (pools (store d)). row_agrees c mints_of q))"
proof -
  have "resolver_agrees c mints_of r'"
    using assms(1,2) by (induction rule: rtranclp_induct) (auto dest: resolver_step_agrees)
  with assms(3) show ?thesis by (auto simp: resolver_agrees_def info_agrees_def)
qed

definition sample_info :: pool_info where
  "sample_info = \<lparr>base_mint = sample_key 2, quote_mint = sample_key 1,
     base_decimals = Some 6, quote_decimals = Some 9\<rparr>"

definition sample_mints :: "pubkey \<Rightarrow> (pubkey \<times> pubkey) option" where
  "sample_mints p = Some (sample_key 2, sample_key 1)"

definition sample_resolver :: resolver where
  "sample_resolver = new_resolver 4 (Some (sample_db [])) new_metrics"

lemma sample_created:
  "(resolver_step byte_codec sample_mints)\<^sup>*\<^sup>* sample_resolver
     (pool_insert byte_codec (sample_key 3) sample_info sample_resolver)"
proof -
  have "info_agrees sample_mints (sample_key 3) sample_info"
    by (simp add: info_agrees_def valid_info_def sample_info_def sample_mints_def)
  then show ?thesis by (intro r_into_rtranclp resolver_step.created)
qed

lemma sample_resolver_ok:
  "resolver_agrees c mints_of sample_resolver" "table_covers c sample_resolver"
  "db_healthy sample_resolver" "pool_db sample_resolver = Some (sample_db [])"
  by (simp_all add: sample_resolver_def new_resolver_def resolver_agrees_def table_covers_def
      db_healthy_def pool_get_def sample_db_def empty_tables_def healthy_def)

theorem cache_agrees_with_chain_witness:
  "pool_get (pool_insert byte_codec (sample_key 3) sample_info sample_resolver) (sample_key 3)
     = Some sample_info
   \<and> sample_mints (sample_key 3) = Some (base_mint sample_info, quote_mint sample_info)"
proof -
  have "pool_get (pool_insert byte_codec (sample_key 3) sample_info sample_resolver) (sample_key 3)
     = Some sample_info" by (simp add: pool_insert_get)
  with cache_agrees_with_chain [OF sample_created sample_resolver_ok(1) this] show ?thesis by blast
qed

text \<open>
  Claim C29. A restart loses no pool. After any run in which the database executed every
  statement, a new process that primes itself from the table succeeds and knows every pool that
  the old process had cached, with the mints the chain gives it.
\<close>

theorem restart_recovers_pools:
  assumes "codec_ok c" "(resolver_step c mints_of)\<^sup>*\<^sup>* r r'"
    and "resolver_agrees c mints_of r" "table_covers c r" "db_healthy r"
    and "pool_db r' = Some d"
  shows "\<exists>n r2. prime c (new_resolver slots (Some d) m) = (Inr n, r2)
    \<and> (\<forall>p. pool_get r' p \<noteq> None \<longrightarrow> (\<exists>i. pool_get r2 p = Some i \<and> info_agrees mints_of p i))"
proof -
  have r': "resolver_agrees c mints_of r'" "table_covers c r'" "db_healthy r'"
    using resolver_steps [OF assms(2-5)] by blast+
  let ?r = "new_resolver slots (Some d) m"
  have "pool_db ?r = Some d" "cache ?r = Map.empty" by (simp_all add: new_resolver_def)
  moreover have "healthy d" using r'(3) assms(6) by (simp add: db_healthy_def)
  moreover have "\<forall>q \<in> set (pools (store d)). row_agrees c mints_of q"
    using r'(1) assms(6) by (simp add: resolver_agrees_def)
  ultimately obtain n r2 where r2: "prime c ?r = (Inr n, r2)"
    "\<forall>p. valid_key p \<longrightarrow> show_key c p \<in> sp_pool ` set (pools (store d)) \<longrightarrow>
       (\<exists>i. pool_get r2 p = Some i \<and> info_agrees mints_of p i)"
    using prime_agrees [OF assms(1)] by blast
  have "\<exists>i. pool_get r2 p = Some i \<and> info_agrees mints_of p i" if "pool_get r' p \<noteq> None" for p
  proof -
    have "valid_key p" using r'(1) that by (auto simp: resolver_agrees_def info_agrees_def)
    moreover have "show_key c p \<in> sp_pool ` set (pools (store d))"
      using r'(2) that assms(6) by (simp add: table_covers_def)
    ultimately show ?thesis using r2(2) by blast
  qed
  with r2(1) show ?thesis by blast
qed

theorem restart_recovers_pools_witness:
  "\<exists>d n r2. pool_db (pool_insert byte_codec (sample_key 3) sample_info sample_resolver) = Some d
     \<and> prime byte_codec (new_resolver 4 (Some d) new_metrics) = (Inr n, r2)
     \<and> (\<exists>i. pool_get r2 (sample_key 3) = Some i \<and> info_agrees sample_mints (sample_key 3) i)"
proof -
  let ?r' = "pool_insert byte_codec (sample_key 3) sample_info sample_resolver"
  have "pool_db (cache_insert (sample_key 3) sample_info sample_resolver) = Some (sample_db [])"
    by (simp add: cache_insert_def sample_resolver_ok)
  then obtain d where d: "pool_db ?r' = Some d"
    unfolding pool_insert_def by (rule save_store)
  have "pool_get ?r' (sample_key 3) \<noteq> None" by (simp add: pool_insert_get)
  with d restart_recovers_pools [OF byte_codec_ok sample_created sample_resolver_ok(1-3) d,
      of 4 new_metrics]
  show ?thesis by blast
qed

end
