(* ===== verification/Processors.thy ===== *)
theory Processors
  imports Pools Gaps
begin

text \<open>
  \<^verbatim>\<open>src/processors/pumpswap.rs\<close> and \<^verbatim>\<open>src/processors/pumpfun.rs\<close>: what happens to one decoded
  instruction.

  The two processors of a pipeline hold handles to the same watermark, gap channel, writer and
  event log, so their states are one record \<open>indexer\<close>; \<open>requested\<close> and the resolver are the
  PumpSwap processor's own. \<open>outbox\<close> is the sequence of rows handed to \<^verbatim>\<open>Writer::send\<close>; the
  theory \<^verbatim>\<open>Writer\<close> takes it from there.

  The decoders are third-party crates. Of their events the fields the code reads are fields
  here, the others are one component of an arbitrary type, and \<^verbatim>\<open>serde_json::to_value\<close> on
  them is an argument (\<open>serde\<close>). The clock readings of a call are an argument (\<open>moments\<close>).
\<close>

section \<open>What the decoders deliver\<close>

record 'x buy_event =
  buy_pool :: pubkey
  buy_user :: pubkey
  base_amount_out :: u64
  quote_amount_in :: u64
  buy_protocol_fee :: u64
  buy_rest :: 'x

record 'x sell_event =
  sell_pool :: pubkey
  sell_user :: pubkey
  base_amount_in :: u64
  quote_amount_out :: u64
  sell_protocol_fee :: u64
  sell_rest :: 'x

record create_pool_event =
  new_pool :: pubkey
  new_base_mint :: pubkey
  new_quote_mint :: pubkey
  base_mint_decimals :: u8
  quote_mint_decimals :: u8

datatype 'x pump_swap_event =
    BuyEvent "'x buy_event"
  | SellEvent "'x sell_event"
  | CreatePoolEvent create_pool_event
  | OtherSwapEvent

datatype 'x pump_swap_instruction = SwapCpiEvent "'x pump_swap_event" | OtherSwapInstruction

record 'x curve_trade =
  ct_mint :: pubkey
  ct_user :: pubkey
  ct_is_buy :: bool
  ct_sol_amount :: u64
  ct_token_amount :: u64
  ct_fee :: u64
  ct_rest :: 'x

datatype 'x pumpfun_instruction = CurveTrade "'x curve_trade" | OtherFunInstruction

record 'x serde =
  buy_json :: "'x buy_event \<Rightarrow> json option"
  sell_json :: "'x sell_event \<Rightarrow> json option"
  curve_json :: "'x curve_trade \<Rightarrow> json option"

record ins_meta =
  tx_signature :: string
  tx_slot :: u64
  tx_block_time :: "i64 option"
  tx_failed :: bool
  ins_path :: "u8 list"

section \<open>The processors\<close>

record moments =
  started :: nat
  wall :: nat
  decoded :: nat
  checked :: nat
  asked :: nat
  queued :: nat

record indexer =
  resolver_of :: "resolver option"
  requested :: "pubkey \<rightharpoonup> nat"
  event_ids :: "event_log option"
  outbox :: "pending_write list option"
  slots :: watch
  stats :: metrics

text \<open>Sixty seconds, in microseconds.\<close>

definition POOL_RETRY_AFTER :: nat where "POOL_RETRY_AFTER = 60000000"

definition resolve :: "moments \<Rightarrow> pubkey \<Rightarrow> indexer \<Rightarrow> pool_info option \<times> indexer" where
  "resolve t pool s = (case resolver_of s of
      None \<Rightarrow> (None, s)
    | Some r \<Rightarrow>
        (case pool_get r pool of
           Some info \<Rightarrow> (Some info, s\<lparr>stats := inc POOL_CACHE_HITS (stats s)\<rparr>)
         | None \<Rightarrow>
             let s1 = s\<lparr>stats := inc POOL_CACHE_MISSES (stats s)\<rparr>;
                 stale = (case requested s pool of
                            Some since \<Rightarrow> POOL_RETRY_AFTER \<le> checked t - since
                          | None \<Rightarrow> True)
             in if stale
                then (None, s1\<lparr>requested := (requested s1)(pool \<mapsto> asked t),
                        resolver_of := Some (pool_request pool r)\<rparr>)
                else (None, s1)))"

definition meta_id :: "ins_meta \<Rightarrow> event_id" where
  "meta_id i = EventId (tx_signature i) (ins_path i) 0"

definition record_event :: "moments \<Rightarrow> ins_meta \<Rightarrow> indexer \<Rightarrow> indexer" where
  "record_event t i s =
     (let s1 = s\<lparr>stats := inc EVENTS_DECODED (stats s),
            event_ids := map_option (\<lambda>log. log @ [meta_id i]) (event_ids s)\<rparr>
      in s1\<lparr>stats := (stats s1)\<lparr>decode_time :=
            observe (decoded t - started t) (decode_time (stats s1))\<rparr>\<rparr>)"

definition row_of :: "ins_meta \<Rightarrow> string \<Rightarrow> string \<Rightarrow> json option \<Rightarrow> event_row" where
  "row_of i program kind value =
     \<lparr>e_signature = tx_signature i, e_path = ins_path i, e_ordinal = 0,
      e_slot = as_i64 (tx_slot i), e_block_time = tx_block_time i, e_program = program,
      e_type = kind, e_payload = (case value of Some v \<Rightarrow> v | None \<Rightarrow> JNull)\<rparr>"

definition send_row :: "moments \<Rightarrow> event_row \<Rightarrow> trade_row option \<Rightarrow> indexer \<Rightarrow> indexer" where
  "send_row t ev tr s = s\<lparr>outbox := map_option
     (\<lambda>rows. rows @ [\<lparr>pw_event = ev, pw_trade = tr, queued_at = queued t\<rparr>]) (outbox s)\<rparr>"

definition side_of :: "bool \<Rightarrow> string" where
  "side_of b = (if b then ''buy'' else ''sell'')"

definition swap_row :: "codec \<Rightarrow> pubkey \<Rightarrow> pubkey \<Rightarrow> u64 \<Rightarrow> trade \<Rightarrow> trade_row" where
  "swap_row c pool user fee t =
     \<lparr>t_pool = Some (show_key c pool), t_token_mint = show_key c (token_mint t),
      t_side = side_of (is_buy t), t_sol_amount = uint (sol_amount t),
      t_token_amount = uint (token_amount t), t_trader = show_key c user,
      t_fee = Some (uint fee)\<rparr>"

text \<open>The arms for \<^verbatim>\<open>BuyEvent\<close> and \<^verbatim>\<open>SellEvent\<close>, which differ in the fields they pass.\<close>

definition swap_arm ::
  "codec \<Rightarrow> pubkey \<Rightarrow> moments \<Rightarrow> ins_meta \<Rightarrow> string \<Rightarrow> json option \<Rightarrow> pubkey \<Rightarrow> pubkey \<Rightarrow> u64 \<Rightarrow> u64 \<Rightarrow>
     bool \<Rightarrow> u64 \<Rightarrow> indexer \<Rightarrow> indexer" where
  "swap_arm c wsol t i kind value pool user base quote acquiring_base fee s =
     (let s1 = record_event t i s;
          (info, s2) = resolve t pool s1;
          (oriented, m) = (case info of
              None \<Rightarrow> (None, stats s2)
            | Some pinfo \<Rightarrow> orient wsol pinfo base quote acquiring_base (stats s2));
          s3 = send_row t (row_of i ''pumpswap'' kind value)
                 (map_option (swap_row c pool user fee) oriented) (s2\<lparr>stats := m\<rparr>)
      in s3\<lparr>stats := inc (if oriented \<noteq> None then TRADES_WRITTEN else UNORIENTED) (stats s3)\<rparr>)"

definition create_pool_arm :: "codec \<Rightarrow> create_pool_event \<Rightarrow> indexer \<Rightarrow> indexer" where
  "create_pool_arm c ev s = s\<lparr>resolver_of := map_option
     (pool_insert c (new_pool ev)
        \<lparr>base_mint = new_base_mint ev, quote_mint = new_quote_mint ev,
         base_decimals = Some (base_mint_decimals ev),
         quote_decimals = Some (quote_mint_decimals ev)\<rparr>) (resolver_of s)\<rparr>"

definition process_pumpswap ::
  "codec \<Rightarrow> pubkey \<Rightarrow> 'x serde \<Rightarrow> moments \<Rightarrow> ins_meta \<Rightarrow> 'x pump_swap_instruction \<Rightarrow>
     indexer \<Rightarrow> indexer" where
  "process_pumpswap c wsol to_value t i ins s =
     (if tx_failed i then s\<lparr>stats := inc SKIPPED_FAILED (stats s)\<rparr>
      else
        let s1 = s\<lparr>slots := check_slot (wall t) (tx_slot i) (slots s)\<rparr> in
        (case ins of
           OtherSwapInstruction \<Rightarrow> s1
         | SwapCpiEvent (BuyEvent e) \<Rightarrow>
             swap_arm c wsol t i ''BuyEvent'' (buy_json to_value e) (buy_pool e) (buy_user e)
               (base_amount_out e) (quote_amount_in e) True (buy_protocol_fee e) s1
         | SwapCpiEvent (SellEvent e) \<Rightarrow>
             swap_arm c wsol t i ''SellEvent'' (sell_json to_value e) (sell_pool e) (sell_user e)
               (base_amount_in e) (quote_amount_out e) False (sell_protocol_fee e) s1
         | SwapCpiEvent (CreatePoolEvent e) \<Rightarrow> create_pool_arm c e s1
         | SwapCpiEvent OtherSwapEvent \<Rightarrow> s1))"

definition curve_row :: "codec \<Rightarrow> 'x curve_trade \<Rightarrow> trade_row" where
  "curve_row c e =
     \<lparr>t_pool = None, t_token_mint = show_key c (ct_mint e), t_side = side_of (ct_is_buy e),
      t_sol_amount = uint (ct_sol_amount e), t_token_amount = uint (ct_token_amount e),
      t_trader = show_key c (ct_user e), t_fee = Some (uint (ct_fee e))\<rparr>"

definition process_pumpfun ::
  "codec \<Rightarrow> 'x serde \<Rightarrow> moments \<Rightarrow> ins_meta \<Rightarrow> 'x pumpfun_instruction \<Rightarrow> indexer \<Rightarrow> indexer" where
  "process_pumpfun c to_value t i ins s =
     (if tx_failed i then s\<lparr>stats := inc SKIPPED_FAILED (stats s)\<rparr>
      else
        let s1 = s\<lparr>slots := check_slot (wall t) (tx_slot i) (slots s)\<rparr> in
        (case ins of
           OtherFunInstruction \<Rightarrow> s1
         | CurveTrade e \<Rightarrow>
             send_row t (row_of i ''pumpfun'' ''TradeEvent'' (curve_json to_value e))
               (Some (curve_row c e)) (record_event t i s1)))"

section \<open>Runs\<close>

text \<open>
  What happens to an indexer: one of its processors gets an instruction, or the resolver's
  background task takes a turn. \<open>None\<close> means that the turn cannot happen, there being no
  resolver or no request.
\<close>

datatype 'x move =
    Swap moments ins_meta "'x pump_swap_instruction"
  | Curve moments ins_meta "'x pumpfun_instruction"
  | Lookup "pubkey \<Rightarrow> u8 list option" "u8 list \<Rightarrow> (pubkey \<times> pubkey) option"

fun indexer_step ::
  "codec \<Rightarrow> pubkey \<Rightarrow> 'x serde \<Rightarrow> 'x move \<Rightarrow> indexer \<Rightarrow> indexer option" where
  "indexer_step c wsol to_value (Swap t i ins) s = Some (process_pumpswap c wsol to_value t i ins s)"
| "indexer_step c wsol to_value (Curve t i ins) s = Some (process_pumpfun c to_value t i ins s)"
| "indexer_step c wsol to_value (Lookup fetch decode) s =
     Option.bind (resolver_of s) (\<lambda>r.
       map_option (\<lambda>r'. s\<lparr>resolver_of := Some r'\<rparr>) (resolver_task c fetch decode r))"

fun indexer_run ::
  "codec \<Rightarrow> pubkey \<Rightarrow> 'x serde \<Rightarrow> 'x move list \<Rightarrow> indexer \<Rightarrow> indexer option" where
  "indexer_run c wsol to_value [] s = Some s"
| "indexer_run c wsol to_value (m # ms) s =
     Option.bind (indexer_step c wsol to_value m s) (indexer_run c wsol to_value ms)"

section \<open>What an instruction should produce\<close>

text \<open>
  The specification: the event row of an instruction (only a trade event of a successful
  transaction has one) and its trade row, given what is known about pools.
\<close>

fun move_meta :: "'x move \<Rightarrow> ins_meta option" where
  "move_meta (Swap t i ins) = Some i"
| "move_meta (Curve t i ins) = Some i"
| "move_meta (Lookup fetch decode) = None"

fun event_for :: "'x serde \<Rightarrow> 'x move \<Rightarrow> event_row option" where
  "event_for v (Swap t i (SwapCpiEvent (BuyEvent e))) =
     (if tx_failed i then None else Some (row_of i ''pumpswap'' ''BuyEvent'' (buy_json v e)))"
| "event_for v (Swap t i (SwapCpiEvent (SellEvent e))) =
     (if tx_failed i then None else Some (row_of i ''pumpswap'' ''SellEvent'' (sell_json v e)))"
| "event_for v (Curve t i (CurveTrade e)) =
     (if tx_failed i then None else Some (row_of i ''pumpfun'' ''TradeEvent'' (curve_json v e)))"
| "event_for v _ = None"

definition oriented_row ::
  "codec \<Rightarrow> pubkey \<Rightarrow> (pubkey \<Rightarrow> pool_info option) \<Rightarrow> pubkey \<Rightarrow> pubkey \<Rightarrow> u64 \<Rightarrow> u64 \<Rightarrow> bool \<Rightarrow> u64 \<Rightarrow>
     trade_row option" where
  "oriented_row c wsol info_of pool user base quote acquiring_base fee =
     Option.bind (info_of pool) (\<lambda>info. map_option (swap_row c pool user fee)
       (fst (orient wsol info base quote acquiring_base new_metrics)))"

fun trade_for ::
  "codec \<Rightarrow> pubkey \<Rightarrow> (pubkey \<Rightarrow> pool_info option) \<Rightarrow> 'x move \<Rightarrow> trade_row option" where
  "trade_for c wsol info_of (Swap t i (SwapCpiEvent (BuyEvent e))) =
     oriented_row c wsol info_of (buy_pool e) (buy_user e) (base_amount_out e) (quote_amount_in e)
       True (buy_protocol_fee e)"
| "trade_for c wsol info_of (Swap t i (SwapCpiEvent (SellEvent e))) =
     oriented_row c wsol info_of (sell_pool e) (sell_user e) (base_amount_in e) (quote_amount_out e)
       False (sell_protocol_fee e)"
| "trade_for c wsol info_of (Curve t i (CurveTrade e)) = Some (curve_row c e)"
| "trade_for c wsol info_of _ = None"

definition known :: "indexer \<Rightarrow> pubkey \<Rightarrow> pool_info option" where
  "known s p = Option.bind (resolver_of s) (\<lambda>r. pool_get r p)"

definition id_of_event :: "event_row \<Rightarrow> event_id" where
  "id_of_event e = EventId (e_signature e) (e_path e) (as_u32 (e_ordinal e))"

lemma fst_orient: "fst (orient wsol info base quote a m) = fst (orient wsol info base quote a m')"
  by (simp add: orient_def)

lemma orient_eq: "orient wsol info base quote a m = (fst (orient wsol info base quote a new_metrics),
    snd (orient wsol info base quote a m))"
  by (simp add: orient_def)

lemma get_orient:
  "get k (snd (orient wsol info base quote a m)) = get k m
     + (if k = ORIENTED_NORMAL \<and> quote_mint info = wsol
          \<or> k = ORIENTED_INVERTED \<and> quote_mint info \<noteq> wsol \<and> base_mint info = wsol then 1 else 0)"
  by (auto simp: orient_def)

lemma resolve_effect:
  "fst (resolve t pool s) = known s pool"
  "event_ids (snd (resolve t pool s)) = event_ids s"
  "outbox (snd (resolve t pool s)) = outbox s" "slots (snd (resolve t pool s)) = slots s"
  "k \<notin> {POOL_CACHE_HITS, POOL_CACHE_MISSES} \<Longrightarrow>
     get k (stats (snd (resolve t pool s))) = get k (stats s)"
  "known (snd (resolve t pool s)) = known s"
  by (auto simp: resolve_def known_def Let_def fun_eq_iff split: option.splits)

lemma row_of_program [simp]: "e_program (row_of i program kind value) = program"
  by (simp add: row_of_def)

lemma id_of_row_of [simp]: "id_of_event (row_of i program kind value) = meta_id i"
  by (simp add: id_of_event_def row_of_def meta_id_def as_u32_def)

lemma stats_decode [simp]: "get k (m\<lparr>decode_time := h\<rparr>) = get k m"
  by (simp add: get_def)

lemma record_event_effect [simp]:
  "event_ids (record_event t i s) = map_option (\<lambda>log. log @ [meta_id i]) (event_ids s)"
  "outbox (record_event t i s) = outbox s" "resolver_of (record_event t i s) = resolver_of s"
  "requested (record_event t i s) = requested s" "slots (record_event t i s) = slots s"
  "get k (stats (record_event t i s)) = get k (stats s) + (if k = EVENTS_DECODED then 1 else 0)"
  "known (record_event t i s) = known s"
  by (simp_all add: record_event_def Let_def known_def fun_eq_iff)

text \<open>Two indexers compared: what one more instruction or several have produced.\<close>

definition produced ::
  "event_row list \<Rightarrow> trade_row option list \<Rightarrow> indexer \<Rightarrow> indexer \<Rightarrow> bool" where
  "produced es ts s s' \<longleftrightarrow> length es = length ts
     \<and> event_ids s' = map_option (\<lambda>log. log @ map id_of_event es) (event_ids s)
     \<and> (outbox s = None \<longrightarrow> outbox s' = None)
     \<and> (\<forall>rows. outbox s = Some rows \<longrightarrow> (\<exists>new. outbox s' = Some (rows @ new)
          \<and> map pw_event new = es \<and> map pw_trade new = ts))
     \<and> get EVENTS_DECODED (stats s') = get EVENTS_DECODED (stats s) + of_nat (length es)
     \<and> get TRADES_WRITTEN (stats s') = get TRADES_WRITTEN (stats s)
         + of_nat (length (filter (\<lambda>(e, t). e_program e = ''pumpswap'' \<and> t \<noteq> None) (zip es ts)))
     \<and> get UNORIENTED (stats s') = get UNORIENTED (stats s)
         + of_nat (length (filter (\<lambda>(e, t). e_program e = ''pumpswap'' \<and> t = None) (zip es ts)))"

lemma produced_nothing:
  "event_ids s' = event_ids s \<Longrightarrow> outbox s' = outbox s \<Longrightarrow>
     (\<And>k. k \<in> {EVENTS_DECODED, TRADES_WRITTEN, UNORIENTED} \<Longrightarrow>
        get k (stats s') = get k (stats s)) \<Longrightarrow> produced [] [] s s'"
  by (auto simp: produced_def option.map_ident)

lemma produced_trans:
  assumes 1: "produced es ts a b" and 2: "produced es' ts' b c"
  shows "produced (es @ es') (ts @ ts') a c"
proof -
  have z: "zip (es @ es') (ts @ ts') = zip es ts @ zip es' ts'"
    using 1 by (simp add: produced_def)
  have out: "\<exists>new. outbox c = Some (rows @ new) \<and> map pw_event new = es @ es'
      \<and> map pw_trade new = ts @ ts'" if rows: "outbox a = Some rows" for rows
  proof -
    obtain n1 where n1: "outbox b = Some (rows @ n1)" "map pw_event n1 = es" "map pw_trade n1 = ts"
      using 1 rows by (auto simp: produced_def)
    moreover obtain n2 where "outbox c = Some ((rows @ n1) @ n2)" "map pw_event n2 = es'"
        "map pw_trade n2 = ts'"
      using 2 n1(1) by (auto simp: produced_def)
    ultimately show ?thesis by (intro exI [of _ "n1 @ n2"]) simp
  qed
  have ids: "event_ids c = map_option (\<lambda>log. log @ map id_of_event (es @ es')) (event_ids a)"
    using 1 2 by (cases "event_ids a") (simp_all add: produced_def)
  show ?thesis
    using 1 2 out ids unfolding produced_def z by (simp add: algebra_simps)
qed

lemma swap_arm_produced:
  "produced [row_of i ''pumpswap'' kind value]
     [oriented_row c wsol (known s) pool user base quote a fee] s
     (swap_arm c wsol t i kind value pool user base quote a fee s)"
proof -
  obtain info s2 where r: "resolve t pool (record_event t i s) = (info, s2)" by fastforce
  have info: "info = known s pool"
    using resolve_effect(1) [of t pool "record_event t i s"] r by simp
  have s2: "event_ids s2 = map_option (\<lambda>log. log @ [meta_id i]) (event_ids s)"
      "outbox s2 = outbox s"
    using resolve_effect(2,3) [of t pool "record_event t i s"] r by simp_all
  have k: "get k (stats s2) = get k (stats s) + (if k = EVENTS_DECODED then 1 else 0)"
    if "k \<notin> {POOL_CACHE_HITS, POOL_CACHE_MISSES}" for k
    using resolve_effect(5) [OF that, of t pool "record_event t i s"] r by simp
  show ?thesis
  proof (cases info)
    case None
    then have "swap_arm c wsol t i kind value pool user base quote a fee s =
        (send_row t (row_of i ''pumpswap'' kind value) None s2)\<lparr>stats := inc UNORIENTED (stats s2)\<rparr>"
      by (simp add: swap_arm_def r Let_def send_row_def)
    moreover have "oriented_row c wsol (known s) pool user base quote a fee = None"
      using None info by (simp add: oriented_row_def)
    ultimately show ?thesis
      by (auto simp: produced_def s2 k send_row_def)
  next
    case (Some pinfo)
    let ?o = "fst (orient wsol pinfo base quote a new_metrics)"
    obtain m where o: "orient wsol pinfo base quote a (stats s2) = (?o, m)"
      and m: "m = snd (orient wsol pinfo base quote a (stats s2))"
      using orient_eq by metis
    have "swap_arm c wsol t i kind value pool user base quote a fee s =
        (send_row t (row_of i ''pumpswap'' kind value) (map_option (swap_row c pool user fee) ?o) s2)
          \<lparr>stats := inc (if ?o \<noteq> None then TRADES_WRITTEN else UNORIENTED) m\<rparr>"
      using o by (simp add: swap_arm_def r Some Let_def send_row_def)
    moreover have "oriented_row c wsol (known s) pool user base quote a fee =
        map_option (swap_row c pool user fee) ?o"
      using Some info by (simp add: oriented_row_def)
    ultimately show ?thesis
      by (cases ?o) (auto simp: produced_def s2 k send_row_def m get_orient)
  qed
qed

definition events_for :: "'x serde \<Rightarrow> 'x move \<Rightarrow> event_row list" where
  "events_for v m = (case event_for v m of None \<Rightarrow> [] | Some e \<Rightarrow> [e])"

definition trades_of :: "codec \<Rightarrow> pubkey \<Rightarrow> 'x serde \<Rightarrow> (pubkey \<Rightarrow> pool_info option) \<Rightarrow> 'x move \<Rightarrow>
    trade_row option list" where
  "trades_of c wsol v info_of m =
     (if event_for v m = None then [] else [trade_for c wsol info_of m])"

lemma known_slots [simp]: "known (s\<lparr>slots := w\<rparr>) = known s"
  by (simp add: known_def fun_eq_iff)

lemma produced_slots: "produced es ts (s\<lparr>slots := w\<rparr>) s' = produced es ts s s'"
  by (simp add: produced_def)

lemma event_for_failed:
  "move_meta m = Some i \<Longrightarrow> tx_failed i \<Longrightarrow> event_for v m = None"
  by (induction v m rule: event_for.induct) auto

lemma pumpswap_produced:
  "produced (events_for v (Swap t i ins)) (trades_of c wsol v (known s) (Swap t i ins)) s
     (process_pumpswap c wsol v t i ins s)"
proof (cases "tx_failed i")
  case True
  then have "event_for v (Swap t i ins) = None" by (simp add: event_for_failed)
  with True show ?thesis
    by (auto simp: process_pumpswap_def trades_of_def events_for_def intro!: produced_nothing)
next
  case False
  let ?s = "s\<lparr>slots := check_slot (wall t) (tx_slot i) (slots s)\<rparr>"
  show ?thesis
  proof (cases ins)
    case (SwapCpiEvent ev)
    show ?thesis
    proof (cases ev)
      case (BuyEvent e)
      with SwapCpiEvent False show ?thesis
        using swap_arm_produced [of i "''BuyEvent''" "buy_json v e" c wsol ?s "buy_pool e"
            "buy_user e" "base_amount_out e" "quote_amount_in e" True "buy_protocol_fee e" t]
        by (simp add: process_pumpswap_def trades_of_def events_for_def produced_slots)
    next
      case (SellEvent e)
      with SwapCpiEvent False show ?thesis
        using swap_arm_produced [of i "''SellEvent''" "sell_json v e" c wsol ?s "sell_pool e"
            "sell_user e" "base_amount_in e" "quote_amount_out e" False "sell_protocol_fee e" t]
        by (simp add: process_pumpswap_def trades_of_def events_for_def produced_slots)
    next
      case (CreatePoolEvent e)
      with SwapCpiEvent False show ?thesis
        by (auto simp: process_pumpswap_def trades_of_def events_for_def create_pool_arm_def
            intro!: produced_nothing)
    next
      case OtherSwapEvent
      with SwapCpiEvent False show ?thesis
        by (auto simp: process_pumpswap_def trades_of_def events_for_def intro!: produced_nothing)
    qed
  next
    case OtherSwapInstruction
    with False show ?thesis
      by (auto simp: process_pumpswap_def trades_of_def events_for_def intro!: produced_nothing)
  qed
qed

lemma pumpfun_produced:
  "produced (events_for v (Curve t i ins)) (trades_of c wsol v (known s) (Curve t i ins)) s
     (process_pumpfun c v t i ins s)"
proof (cases "tx_failed i")
  case True
  then have "event_for v (Curve t i ins) = None" by (simp add: event_for_failed)
  with True show ?thesis
    by (auto simp: process_pumpfun_def trades_of_def events_for_def intro!: produced_nothing)
next
  case False
  then show ?thesis
    by (cases ins) (auto simp: process_pumpfun_def trades_of_def events_for_def produced_def send_row_def
        option.map_ident)
qed

lemma indexer_step_produced:
  assumes "indexer_step c wsol v m s = Some s'"
  shows "produced (events_for v m) (trades_of c wsol v (known s) m) s s'"
proof (cases m)
  case (Swap t i ins)
  with assms pumpswap_produced show ?thesis by fastforce
next
  case (Curve t i ins)
  with assms pumpfun_produced show ?thesis by fastforce
next
  case (Lookup fetch decode)
  with assms obtain r where "s' = s\<lparr>resolver_of := Some r\<rparr>"
    by (auto simp: bind_eq_Some_conv)
  with Lookup show ?thesis by (auto simp: trades_of_def events_for_def intro!: produced_nothing)
qed

section \<open>What a run produces\<close>

fun move_agrees :: "(pubkey \<Rightarrow> (pubkey \<times> pubkey) option) \<Rightarrow> 'x move \<Rightarrow> bool" where
  "move_agrees mints_of (Swap t i (SwapCpiEvent (CreatePoolEvent e))) =
     (tx_failed i \<or> valid_key (new_pool e) \<and> valid_key (new_base_mint e)
        \<and> valid_key (new_quote_mint e) \<and> mints_of (new_pool e) = Some (new_base_mint e, new_quote_mint e))"
| "move_agrees mints_of (Lookup fetch decode) =
     (\<forall>p data b t. fetch p = Some data \<longrightarrow> decode data = Some (b, t) \<longrightarrow>
        valid_key p \<and> valid_key b \<and> valid_key t \<and> mints_of p = Some (b, t))"
| "move_agrees mints_of _ = True"

definition resolver_moves ::
  "codec \<Rightarrow> (pubkey \<Rightarrow> (pubkey \<times> pubkey) option) \<Rightarrow> indexer \<Rightarrow> indexer \<Rightarrow> bool" where
  "resolver_moves c mints_of s s' \<longleftrightarrow>
     rel_option ((resolver_step c mints_of)\<^sup>*\<^sup>*) (resolver_of s) (resolver_of s')"

lemma resolver_moves_same: "resolver_of s' = resolver_of s \<Longrightarrow> resolver_moves c mints_of s s'"
  by (cases "resolver_of s") (simp_all add: resolver_moves_def)

lemma resolver_moves_trans:
  "resolver_moves c mints_of a b \<Longrightarrow> resolver_moves c mints_of b d \<Longrightarrow> resolver_moves c mints_of a d"
  by (cases "resolver_of a"; cases "resolver_of b"; cases "resolver_of d")
    (auto simp: resolver_moves_def)

lemma resolve_moves: "resolver_moves c mints_of s (snd (resolve t pool s))"
proof (cases "resolver_of s")
  case (Some r)
  have "resolver_step c mints_of r (pool_request pool r)" by (rule resolver_step.requested)
  with Some show ?thesis
    by (auto simp: resolver_moves_def resolve_def Let_def split: option.splits)
qed (simp add: resolver_moves_def resolve_def)

lemma resolver_of_swap_arm:
  "resolver_of (swap_arm c wsol t i kind value pool user base quote a fee s) =
     resolver_of (snd (resolve t pool (record_event t i s)))"
  by (auto simp: swap_arm_def Let_def send_row_def split: prod.splits option.splits)

lemma swap_arm_moves:
  "resolver_moves c mints_of s (swap_arm c wsol t i kind value pool user base quote a fee s)"
  using resolve_moves [of c mints_of "record_event t i s" t pool]
  by (simp add: resolver_moves_def resolver_of_swap_arm)

lemma indexer_step_moves:
  assumes "indexer_step c wsol v m s = Some s'" "move_agrees mints_of m"
  shows "resolver_moves c mints_of s s'"
proof (cases m)
  case (Curve t i ins)
  with assms(1) show ?thesis
    by (auto simp: process_pumpfun_def Let_def send_row_def intro!: resolver_moves_same
        split: pumpfun_instruction.splits if_splits)
next
  case (Lookup fetch decode)
  with assms(1) obtain r r' where r: "resolver_of s = Some r"
      "resolver_task c fetch decode r = Some r'" "s' = s\<lparr>resolver_of := Some r'\<rparr>"
    by (auto simp: bind_eq_Some_conv)
  have "resolver_step c mints_of r r'"
    using r(2) assms(2) Lookup by (intro resolver_step.turn) auto
  with r show ?thesis by (simp add: resolver_moves_def)
next
  case (Swap t i ins)
  let ?s = "s\<lparr>slots := check_slot (wall t) (tx_slot i) (slots s)\<rparr>"
  have arm: "resolver_moves c mints_of s
      (swap_arm c wsol t i kind js pool user base quote a fee ?s)"
    for kind js pool user base quote a fee
    using swap_arm_moves [of c mints_of ?s] by (simp add: resolver_moves_def)
  show ?thesis
  proof (cases "\<exists>e. ins = SwapCpiEvent (CreatePoolEvent e) \<and> \<not> tx_failed i")
    case True
    then obtain e where e: "ins = SwapCpiEvent (CreatePoolEvent e)" "\<not> tx_failed i" by blast
    with Swap assms show ?thesis
      by (cases "resolver_of s")
        (auto simp: process_pumpswap_def create_pool_arm_def resolver_moves_def info_agrees_def
          valid_info_def intro!: r_into_rtranclp resolver_step.created)
  next
    case False
    with Swap assms(1) arm show ?thesis
      by (auto simp: process_pumpswap_def Let_def intro: resolver_moves_same
          split: pump_swap_instruction.splits pump_swap_event.splits if_splits)
  qed
qed

lemma indexer_run_moves:
  "indexer_run c wsol v ms s = Some s' \<Longrightarrow> \<forall>m \<in> set ms. move_agrees mints_of m \<Longrightarrow>
     resolver_moves c mints_of s s'"
proof (induction ms arbitrary: s)
  case (Cons m ms)
  then obtain s1 where "indexer_step c wsol v m s = Some s1" "indexer_run c wsol v ms s1 = Some s'"
    by (auto simp: bind_eq_Some_conv)
  with Cons show ?case by (meson indexer_step_moves list.set_intros resolver_moves_trans)
qed (simp add: resolver_moves_same)

text \<open>What is known agrees with the chain, so a trade row is the chain's or missing.\<close>

definition chain_info :: "(pubkey \<Rightarrow> (pubkey \<times> pubkey) option) \<Rightarrow> pubkey \<Rightarrow> pool_info option" where
  "chain_info mints_of p = map_option (\<lambda>(b, q). \<lparr>base_mint = b, quote_mint = q,
     base_decimals = None, quote_decimals = None\<rparr>) (mints_of p)"

definition indexer_agrees ::
  "codec \<Rightarrow> (pubkey \<Rightarrow> (pubkey \<times> pubkey) option) \<Rightarrow> indexer \<Rightarrow> bool" where
  "indexer_agrees c mints_of s \<longleftrightarrow> pred_option (resolver_agrees c mints_of) (resolver_of s)"

lemma known_chain:
  "indexer_agrees c mints_of s \<Longrightarrow> known s p = Some info \<Longrightarrow>
     mints_of p = Some (base_mint info, quote_mint info)"
  by (auto simp: indexer_agrees_def known_def bind_eq_Some_conv resolver_agrees_def
      info_agrees_def)

lemma indexer_agrees_moves:
  assumes "resolver_moves c mints_of s s'" "indexer_agrees c mints_of s"
  shows "indexer_agrees c mints_of s'"
proof (cases "resolver_of s'")
  case (Some r')
  with assms(1) obtain r where r: "resolver_of s = Some r" "(resolver_step c mints_of)\<^sup>*\<^sup>* r r'"
    by (cases "resolver_of s") (auto simp: resolver_moves_def)
  from r(2) have "resolver_agrees c mints_of r'"
    using assms(2) r(1)
    by (induction rule: rtranclp_induct) (auto simp: indexer_agrees_def dest: resolver_step_agrees)
  with Some show ?thesis by (simp add: indexer_agrees_def)
qed (simp add: indexer_agrees_def)

lemma rows_accepted: "trade_error (swap_row c pool user fee t) = None" "trade_error (curve_row c e) = None"
  by (simp_all add: trade_error_def swap_row_def curve_row_def side_of_def)

lemma oriented_row_accepted:
  "oriented_row c wsol f pool user base quote a fee = Some x \<Longrightarrow> trade_error x = None"
  by (auto simp: oriented_row_def bind_eq_Some_conv rows_accepted)

lemma trade_for_accepted: "trade_for c wsol f m = Some x \<Longrightarrow> trade_error x = None"
  by (induction c wsol f m rule: trade_for.induct) (auto dest: oriented_row_accepted simp: rows_accepted)

lemma indexer_run_produced:
  assumes "indexer_run c wsol v ms s = Some s'"
  shows "\<exists>ts. produced (concat (map (events_for v) ms)) ts s s'
    \<and> (\<forall>t \<in> set ts. \<forall>x. t = Some x \<longrightarrow> trade_error x = None)"
  using assms
proof (induction ms arbitrary: s)
  case Nil
  then show ?case by (auto intro!: exI [of _ "[]"] produced_nothing)
next
  case (Cons m ms)
  then obtain s1 where s1: "indexer_step c wsol v m s = Some s1" "indexer_run c wsol v ms s1 = Some s'"
    by (auto simp: bind_eq_Some_conv)
  from Cons.IH [OF s1(2)] obtain ts where ts: "produced (concat (map (events_for v) ms)) ts s1 s'"
    "\<forall>t \<in> set ts. \<forall>x. t = Some x \<longrightarrow> trade_error x = None" by blast
  have "produced (concat (map (events_for v) (m # ms))) (trades_of c wsol v (known s) m @ ts) s s'"
    using produced_trans [OF indexer_step_produced [OF s1(1)] ts(1)] by simp
  moreover have "\<forall>t \<in> set (trades_of c wsol v (known s) m @ ts). \<forall>x. t = Some x \<longrightarrow> trade_error x = None"
    using ts(2) trade_for_accepted by (auto simp: trades_of_def split: if_splits)
  ultimately show ?case by blast
qed

text \<open>The watermark and the skipped transactions.\<close>

definition skips :: "'x move \<Rightarrow> bool" where
  "skips m \<longleftrightarrow> (\<exists>i. move_meta m = Some i \<and> tx_failed i)"

definition slots_of :: "'x move \<Rightarrow> u64 list" where
  "slots_of m = (case move_meta m of None \<Rightarrow> [] | Some i \<Rightarrow> if tx_failed i then [] else [tx_slot i])"

lemma slots_swap_arm [simp]:
  "slots (swap_arm c wsol t i kind js pool user base quote a fee s) = slots s"
  by (auto simp: swap_arm_def Let_def send_row_def split: prod.splits option.splits)
    (metis record_event_effect(5) resolve_effect(4) snd_conv)+

lemma skipped_swap_arm [simp]:
  "get SKIPPED_FAILED (stats (swap_arm c wsol t i kind js pool user base quote a fee s)) =
     get SKIPPED_FAILED (stats s)"
proof -
  obtain info s2 where r: "resolve t pool (record_event t i s) = (info, s2)" by fastforce
  have "get SKIPPED_FAILED (stats s2) = get SKIPPED_FAILED (stats s)"
    using resolve_effect(5) [of SKIPPED_FAILED t pool "record_event t i s"] r by simp
  then show ?thesis
    by (cases info) (simp_all add: swap_arm_def r Let_def send_row_def orient_def)
qed

lemma indexer_step_slots:
  assumes "indexer_step c wsol v m s = Some s'"
  shows "watermark (slots s') = fold max (slots_of m) (watermark (slots s))
    \<and> get SKIPPED_FAILED (stats s') = get SKIPPED_FAILED (stats s) + (if skips m then 1 else 0)"
proof (cases m)
  case (Swap t i ins)
  with assms show ?thesis
    by (auto simp: process_pumpswap_def create_pool_arm_def Let_def slots_of_def skips_def max.commute
        split: pump_swap_instruction.splits pump_swap_event.splits if_splits)
next
  case (Curve t i ins)
  with assms show ?thesis
    by (auto simp: process_pumpfun_def send_row_def Let_def slots_of_def skips_def max.commute
        split: pumpfun_instruction.splits if_splits)
next
  case (Lookup fetch decode)
  with assms show ?thesis by (auto simp: slots_of_def skips_def bind_eq_Some_conv)
qed

lemma indexer_run_slots:
  "indexer_run c wsol v ms s = Some s' \<Longrightarrow>
     watermark (slots s') = fold max (concat (map slots_of ms)) (watermark (slots s))
     \<and> get SKIPPED_FAILED (stats s') = get SKIPPED_FAILED (stats s) + of_nat (length (filter skips ms))"
proof (induction ms arbitrary: s)
  case (Cons m ms)
  then obtain s1 where "indexer_step c wsol v m s = Some s1" "indexer_run c wsol v ms s1 = Some s'"
    by (auto simp: bind_eq_Some_conv)
  with Cons.IH indexer_step_slots show ?case by fastforce
qed simp

text \<open>Requests waiting for the background task.\<close>

definition waiting :: "indexer \<Rightarrow> pubkey \<Rightarrow> nat" where
  "waiting s p = (case resolver_of s of None \<Rightarrow> 0 | Some r \<Rightarrow> count_list (items (requests r)) p)"

fun move_checked :: "'x move \<Rightarrow> nat option" where
  "move_checked (Swap t i ins) = Some (checked t)"
| "move_checked _ = None"

lemma requests_pool_insert [simp]: "requests (pool_insert c p info r) = requests r"
  by (auto simp: pool_insert_def cache_insert_def save_def split: option.splits prod.splits outcome.splits)

lemma waiting_same [simp]:
  "waiting (s\<lparr>stats := m\<rparr>) = waiting s" "waiting (s\<lparr>slots := w\<rparr>) = waiting s"
  by (simp_all add: waiting_def fun_eq_iff)

lemma count_try_send:
  "try_send q ch = Some ch' \<Longrightarrow> count_list (items ch') p = count_list (items ch) p + (if q = p then 1 else 0)"
  by (auto dest!: try_send_Some)

lemma waiting_request:
  "resolver_of s = Some r \<Longrightarrow> p \<noteq> q \<Longrightarrow>
     waiting (s\<lparr>stats := m, requested := f, resolver_of := Some (pool_request q r)\<rparr>) p = waiting s p"
  by (auto simp: waiting_def pool_request_def count_try_send split: option.splits)

lemma resolve_throttled:
  assumes "requested s p = Some t0" "checked t < t0 + POOL_RETRY_AFTER"
  shows "requested (snd (resolve t q s)) p = Some t0
    \<and> waiting (snd (resolve t q s)) p = waiting s p"
proof (cases "resolver_of s")
  case (Some r)
  show ?thesis
  proof (cases "p = q")
    case True
    have "\<not> POOL_RETRY_AFTER \<le> checked t - t0"
      using assms(2) by (simp add: POOL_RETRY_AFTER_def, linarith?)
    with True Some assms(1) show ?thesis
      by (auto simp: resolve_def Let_def waiting_def split: option.splits)
  next
    case False
    with Some assms show ?thesis
      by (auto simp: resolve_def Let_def waiting_request split: option.splits)
  qed
qed (simp add: resolve_def assms)

lemma requested_swap_arm:
  "requested (swap_arm c wsol t i kind js pool user base quote a fee s) =
     requested (snd (resolve t pool (record_event t i s)))"
  by (auto simp: swap_arm_def Let_def send_row_def split: prod.splits option.splits)

lemma swap_arm_throttled:
  assumes "requested s p = Some t0" "checked t < t0 + POOL_RETRY_AFTER"
  shows "requested (swap_arm c wsol t i kind js pool user base quote a fee s) p = Some t0
    \<and> waiting (swap_arm c wsol t i kind js pool user base quote a fee s) p = waiting s p"
  using resolve_throttled [of "record_event t i s" p t0 t pool] assms
  by (simp add: requested_swap_arm waiting_def resolver_of_swap_arm)

lemma indexer_step_throttled:
  assumes "indexer_step c wsol v m s = Some s'" "requested s p = Some t0"
    "\<forall>t. move_checked m = Some t \<longrightarrow> t < t0 + POOL_RETRY_AFTER"
  shows "requested s' p = Some t0 \<and> waiting s' p \<le> waiting s p"
proof (cases m)
  case (Swap t i ins)
  let ?s = "s\<lparr>slots := check_slot (wall t) (tx_slot i) (slots s)\<rparr>"
  have "requested ?s p = Some t0" "checked t < t0 + POOL_RETRY_AFTER" "waiting ?s p = waiting s p"
    using assms(2,3) Swap by simp_all
  note arm = swap_arm_throttled [OF this(1,2)] this
  show ?thesis
  proof (cases "\<exists>e. ins = SwapCpiEvent (CreatePoolEvent e)")
    case True
    with Swap assms arm show ?thesis
      by (cases "resolver_of s")
        (auto simp: process_pumpswap_def create_pool_arm_def Let_def waiting_def)
  next
    case False
    with Swap assms arm show ?thesis
      by (auto simp: process_pumpswap_def Let_def
          split: pump_swap_instruction.splits pump_swap_event.splits if_splits)
  qed
next
  case (Curve t i ins)
  with assms show ?thesis
    by (auto simp: process_pumpfun_def Let_def send_row_def waiting_def
        split: pumpfun_instruction.splits if_splits)
next
  case (Lookup fetch decode)
  with assms(1) obtain r r' where r: "resolver_of s = Some r"
      "resolver_task c fetch decode r = Some r'" "s' = s\<lparr>resolver_of := Some r'\<rparr>"
    by (auto simp: bind_eq_Some_conv)
  have "count_list (items (requests r')) p \<le> count_list (items (requests r)) p"
    using r(2)
    by (auto simp: resolver_task_def Let_def recv_def split: option.splits list.splits if_splits)
  with r assms(2) show ?thesis by (simp add: waiting_def)
qed

section \<open>Properties\<close>

text \<open>
  Sample data for the witnesses: a pool is created, bought from and, in a failed transaction,
  sold to; then a bonding-curve trade and a swap in a pool nobody knows.
\<close>

definition sample_moments :: "nat \<Rightarrow> moments" where
  "sample_moments n = \<lparr>started = n, wall = n, decoded = n + 1, checked = n + 2, asked = n + 3,
     queued = n + 4\<rparr>"

definition sample_meta :: "string \<Rightarrow> u64 \<Rightarrow> bool \<Rightarrow> ins_meta" where
  "sample_meta sig slot failed = \<lparr>tx_signature = sig, tx_slot = slot, tx_block_time = None,
     tx_failed = failed, ins_path = [3, 5]\<rparr>"

definition sample_serde :: "unit serde" where
  "sample_serde = \<lparr>buy_json = (\<lambda>_. None), sell_json = (\<lambda>_. None), curve_json = (\<lambda>_. None)\<rparr>"

definition sample_buy :: "u8 \<Rightarrow> unit buy_event" where
  "sample_buy p = \<lparr>buy_pool = sample_key p, buy_user = sample_key 9, base_amount_out = 1000,
     quote_amount_in = 50, buy_protocol_fee = 7, buy_rest = ()\<rparr>"

definition sample_create :: create_pool_event where
  "sample_create = \<lparr>new_pool = sample_key 3, new_base_mint = sample_key 2,
     new_quote_mint = sample_key 1, base_mint_decimals = 6, quote_mint_decimals = 9\<rparr>"

definition sample_curve :: "unit curve_trade" where
  "sample_curve = \<lparr>ct_mint = sample_key 2, ct_user = sample_key 9, ct_is_buy = False,
     ct_sol_amount = 30, ct_token_amount = 400, ct_fee = 1, ct_rest = ()\<rparr>"

definition sample_moves :: "unit move list" where
  "sample_moves =
     [Swap (sample_moments 0) (sample_meta ''a'' 100 False) (SwapCpiEvent (CreatePoolEvent sample_create)),
      Swap (sample_moments 10) (sample_meta ''b'' 101 False) (SwapCpiEvent (BuyEvent (sample_buy 3))),
      Swap (sample_moments 20) (sample_meta ''c'' 900 True) (SwapCpiEvent (BuyEvent (sample_buy 3))),
      Curve (sample_moments 30) (sample_meta ''d'' 103 False) (CurveTrade sample_curve),
      Swap (sample_moments 40) (sample_meta ''e'' 102 False) (SwapCpiEvent (BuyEvent (sample_buy 4)))]"

definition sample_indexer :: indexer where
  "sample_indexer = \<lparr>resolver_of = Some sample_resolver, requested = Map.empty, event_ids = Some [],
     outbox = Some [], slots = sample_watch, stats = new_metrics\<rparr>"

definition run_sample :: "unit move list \<Rightarrow> indexer option" where
  "run_sample ms = indexer_run byte_codec (sample_key 1) sample_serde ms sample_indexer"

lemma sample_runs: "\<exists>s. run_sample sample_moves = Some s"
  by (simp add: run_sample_def sample_moves_def)

definition events_of :: "'x serde \<Rightarrow> 'x move list \<Rightarrow> event_row list" where
  "events_of v ms = concat (map (events_for v) ms)"

lemma sample_events: "map e_signature (events_of sample_serde sample_moves) = [''b'', ''d'', ''e'']"
  by (simp add: events_of_def events_for_def sample_moves_def sample_meta_def row_of_def)

lemma produced_swaps:
  assumes "produced es ts s s'"
  shows "get TRADES_WRITTEN (stats s') + get UNORIENTED (stats s') =
    get TRADES_WRITTEN (stats s) + get UNORIENTED (stats s)
      + of_nat (length (filter (\<lambda>e. e_program e = ''pumpswap'') es))"
proof -
  have "length (filter (\<lambda>(e, t). e_program e = ''pumpswap'' \<and> t \<noteq> None) (zip es ts))
      + length (filter (\<lambda>(e, t). e_program e = ''pumpswap'' \<and> t = None) (zip es ts))
      = length (filter (\<lambda>e. e_program e = ''pumpswap'') es)"
    if "length es = length ts"
    using that by (induction es ts rule: list_induct2) auto
  then show ?thesis
    using assms unfolding produced_def by (simp add: algebra_simps flip: of_nat_add)
qed

text \<open>
  Claim C2. Every trade event of a successful transaction is recorded exactly once, whatever is
  known about pools and however the background task's turns are interleaved: the log and the
  rows handed to the writer are extended by those events, in order, the counter of decoded
  events by their number, and each swap is counted as written or as unoriented.
\<close>

theorem indexer_records_each_trade:
  assumes "indexer_run c wsol v ms s = Some s'"
    and "event_ids s = Some ids" "outbox s = Some rows"
  shows "event_ids s' = Some (ids @ map id_of_event (events_of v ms))
    \<and> (\<exists>new. outbox s' = Some (rows @ new) \<and> map pw_event new = events_of v ms)
    \<and> get EVENTS_DECODED (stats s') = get EVENTS_DECODED (stats s) + of_nat (length (events_of v ms))
    \<and> get TRADES_WRITTEN (stats s') + get UNORIENTED (stats s') =
        get TRADES_WRITTEN (stats s) + get UNORIENTED (stats s)
          + of_nat (length (filter (\<lambda>e. e_program e = ''pumpswap'') (events_of v ms)))"
proof -
  obtain ts where "produced (events_of v ms) ts s s'"
    using indexer_run_produced [OF assms(1)] unfolding events_of_def by blast
  with produced_swaps [OF this] assms(2,3) show ?thesis by (auto simp: produced_def)
qed

theorem indexer_records_each_trade_witness:
  "\<exists>s ids. run_sample sample_moves = Some s \<and> event_ids s = Some ids
     \<and> map signature ids = [''b'', ''d'', ''e''] \<and> get EVENTS_DECODED (stats s) = 3"
proof -
  obtain s where s: "run_sample sample_moves = Some s" using sample_runs by blast
  have "event_ids sample_indexer = Some []" "outbox sample_indexer = Some []"
    "get EVENTS_DECODED (stats sample_indexer) = 0"
    by (simp_all add: sample_indexer_def get_def new_metrics_def)
  moreover have "map signature (map id_of_event (events_of sample_serde sample_moves)) = [''b'', ''d'', ''e'']"
    unfolding sample_events [symmetric] by (simp add: id_of_event_def)
  moreover have "length (events_of sample_serde sample_moves) = 3"
    using arg_cong [OF sample_events, of length] by simp
  ultimately show ?thesis
    using indexer_records_each_trade [OF s [unfolded run_sample_def]] s by auto
qed

text \<open>
  Claim C30. No row is refused for its content: every row the processors hand to the writer
  meets the constraints of the tables, so a batch of them always commits when the server
  executes it.
\<close>

theorem rows_meet_constraints:
  assumes "indexer_run c wsol v ms s = Some s'" "outbox s = Some rows"
  shows "\<exists>new. outbox s' = Some (rows @ new) \<and> (\<forall>p \<in> set new. writable p)
    \<and> (\<forall>slot sig t. \<exists>t'. commit_effect new slot sig t = Inr t')"
proof -
  obtain ts where ts: "produced (concat (map (events_for v) ms)) ts s s'"
      "\<forall>t \<in> set ts. \<forall>x. t = Some x \<longrightarrow> trade_error x = None"
    using indexer_run_produced [OF assms(1)] by blast
  then obtain new where new: "outbox s' = Some (rows @ new)" "map pw_trade new = ts"
    using assms(2) by (auto simp: produced_def)
  have w: "\<forall>p \<in> set new. writable p"
    unfolding writable_def using ts(2) new(2) by (metis in_set_conv_nth length_map nth_map nth_mem)
  show ?thesis using new(1) w commit_effect_succeeds [OF w] by blast
qed

theorem rows_meet_constraints_witness:
  "\<exists>s new t. run_sample sample_moves = Some s \<and> outbox s = Some new
     \<and> commit_effect new 103 ''d'' empty_tables = Inr t"
proof -
  obtain s where s: "run_sample sample_moves = Some s" using sample_runs by blast
  have "outbox sample_indexer = Some []" by (simp add: sample_indexer_def)
  from rows_meet_constraints [OF s [unfolded run_sample_def] this] s show ?thesis by auto
qed



lemma indexer_run_throttled:
  "indexer_run c wsol v ms s = Some s' \<Longrightarrow> requested s p = Some t0 \<Longrightarrow>
     \<forall>m \<in> set ms. \<forall>t. move_checked m = Some t \<longrightarrow> t < t0 + POOL_RETRY_AFTER \<Longrightarrow>
     requested s' p = Some t0 \<and> waiting s' p \<le> waiting s p"
proof (induction ms arbitrary: s)
  case (Cons m ms)
  then obtain s1 where "indexer_step c wsol v m s = Some s1" "indexer_run c wsol v ms s1 = Some s'"
    by (auto simp: bind_eq_Some_conv)
  with Cons indexer_step_throttled [of c wsol v m s s1 p t0] show ?case by fastforce
qed simp

text \<open>
  Claim C32. A pool is asked for at most once a minute: after a request at \<open>t0\<close>, no run of
  instructions that look pools up before \<open>t0\<close> plus sixty seconds adds a request for it.
\<close>

theorem pool_requests_are_throttled:
  assumes "indexer_run c wsol v ms s = Some s'" "requested s p = Some t0"
    and "\<forall>m \<in> set ms. \<forall>t. move_checked m = Some t \<longrightarrow> t < t0 + 60000000"
  shows "requested s' p = Some t0 \<and> waiting s' p \<le> waiting s p"
  by (rule indexer_run_throttled [OF assms(1,2)]) (use assms(3) in \<open>simp add: POOL_RETRY_AFTER_def\<close>)

theorem pool_requests_are_throttled_witness:
  "\<exists>s. indexer_run byte_codec (sample_key 1) sample_serde sample_moves
       (sample_indexer\<lparr>requested := [sample_key 4 \<mapsto> 5]\<rparr>) = Some s
     \<and> requested s (sample_key 4) = Some 5 \<and> waiting s (sample_key 4) = 0"
proof -
  let ?s = "sample_indexer\<lparr>requested := [sample_key 4 \<mapsto> 5]\<rparr>"
  obtain s where s: "indexer_run byte_codec (sample_key 1) sample_serde sample_moves ?s = Some s"
    by (simp add: sample_moves_def)
  have "requested ?s (sample_key 4) = Some 5" "waiting ?s (sample_key 4) = 0"
    by (simp_all add: waiting_def sample_indexer_def sample_resolver_def new_resolver_def new_chan_def)
  moreover have "\<forall>m \<in> set sample_moves. \<forall>t. move_checked m = Some t \<longrightarrow> t < 5 + 60000000"
    by (simp add: sample_moves_def sample_moments_def)
  ultimately show ?thesis using pool_requests_are_throttled [OF s] s by fastforce
qed

text \<open>
  A lookup of an unknown pool that was not asked for in the last minute is a request:
  it is queued when there is room, counted as dropped when there is none, and the time is noted
  in both cases, so that a dropped request is not repeated for a minute either.
\<close>

theorem stale_lookup_is_requested:
  assumes "resolver_of s = Some r" "pool_get r p = None"
    and "requested s p = None \<or> (\<exists>t0. requested s p = Some t0 \<and> 60000000 \<le> checked t - t0)"
  shows "fst (resolve t p s) = None \<and> requested (snd (resolve t p s)) p = Some (asked t)
    \<and> (if receiver_alive (requests r) \<and> length (items (requests r)) < capacity (requests r)
       then waiting (snd (resolve t p s)) p = waiting s p + 1
       else resolver_of (snd (resolve t p s)) =
         Some (r\<lparr>pool_meter := inc LOOKUPS_DROPPED (pool_meter r)\<rparr>))"
  using assms
  by (auto simp: resolve_def Let_def POOL_RETRY_AFTER_def waiting_def pool_request_def try_send_def)

theorem stale_lookup_is_requested_witness:
  "waiting (snd (resolve (sample_moments 0) (sample_key 4) sample_indexer)) (sample_key 4) = 1"
  using stale_lookup_is_requested [of sample_indexer sample_resolver "sample_key 4" "sample_moments 0"]
  by (simp add: sample_indexer_def sample_resolver_def new_resolver_def new_chan_def pool_get_def
      waiting_def)

end
