(* ===== verification/Chain.thy ===== *)
theory Chain
  imports Processors
begin

text \<open>
  What a trade row says, and that the rows of the processors say what happened on the chain.

  The specification does not mention the orientation rule. A trade event is an exchange: the
  trader pays one amount of one mint and receives an amount of another. \<open>exchange_of\<close> reads it
  off the event and the mints of its pool on the chain, \<open>row_exchange\<close> off the columns of a
  trade row, and \<open>tells\<close> compares the two, with the pool, the trader and the fee.
\<close>

section \<open>What a trade row says\<close>

fun move_pool :: "'x move \<Rightarrow> pubkey option" where
  "move_pool (Swap t i (SwapCpiEvent (BuyEvent e))) = Some (buy_pool e)"
| "move_pool (Swap t i (SwapCpiEvent (SellEvent e))) = Some (sell_pool e)"
| "move_pool _ = None"

type_synonym ('m, 'n) exchange = "('m \<times> 'n) \<times> ('m \<times> 'n)"

fun exchange_of ::
  "pubkey \<Rightarrow> (pubkey \<Rightarrow> (pubkey \<times> pubkey) option) \<Rightarrow> 'x move \<Rightarrow> (pubkey, u64) exchange option" where
  "exchange_of wsol mints_of (Swap t i (SwapCpiEvent (BuyEvent e))) =
     map_option (\<lambda>(b, q). ((q, quote_amount_in e), (b, base_amount_out e))) (mints_of (buy_pool e))"
| "exchange_of wsol mints_of (Swap t i (SwapCpiEvent (SellEvent e))) =
     map_option (\<lambda>(b, q). ((b, base_amount_in e), (q, quote_amount_out e))) (mints_of (sell_pool e))"
| "exchange_of wsol mints_of (Curve t i (CurveTrade e)) =
     Some (if ct_is_buy e then ((wsol, ct_sol_amount e), (ct_mint e, ct_token_amount e))
           else ((ct_mint e, ct_token_amount e), (wsol, ct_sol_amount e)))"
| "exchange_of wsol mints_of _ = None"

fun trader_of :: "'x move \<Rightarrow> (pubkey \<times> u64) option" where
  "trader_of (Swap t i (SwapCpiEvent (BuyEvent e))) = Some (buy_user e, buy_protocol_fee e)"
| "trader_of (Swap t i (SwapCpiEvent (SellEvent e))) = Some (sell_user e, sell_protocol_fee e)"
| "trader_of (Curve t i (CurveTrade e)) = Some (ct_user e, ct_fee e)"
| "trader_of _ = None"

definition row_exchange :: "string \<Rightarrow> trade_row \<Rightarrow> (string, int) exchange" where
  "row_exchange sol r =
     (if t_side r = ''buy'' then ((sol, t_sol_amount r), (t_token_mint r, t_token_amount r))
      else ((t_token_mint r, t_token_amount r), (sol, t_sol_amount r)))"

definition tells ::
  "codec \<Rightarrow> pubkey \<Rightarrow> (pubkey \<Rightarrow> (pubkey \<times> pubkey) option) \<Rightarrow> 'x move \<Rightarrow> trade_row \<Rightarrow> bool" where
  "tells c wsol mints_of m r \<longleftrightarrow>
     map_option (map_prod (map_prod (show_key c) uint) (map_prod (show_key c) uint))
         (exchange_of wsol mints_of m) = Some (row_exchange (show_key c wsol) r)
     \<and> map_option (map_prod (show_key c) (Some \<circ> uint)) (trader_of m) = Some (t_trader r, t_fee r)
     \<and> t_pool r = map_option (show_key c) (move_pool m)
     \<and> t_side r \<in> {''buy'', ''sell''}"

definition has_sol_side ::
  "pubkey \<Rightarrow> (pubkey \<Rightarrow> (pubkey \<times> pubkey) option) \<Rightarrow> 'x move \<Rightarrow> bool" where
  "has_sol_side wsol mints_of m \<longleftrightarrow>
     (\<forall>p. move_pool m = Some p \<longrightarrow> (\<exists>b q. mints_of p = Some (b, q) \<and> (b = wsol \<or> q = wsol)))"

lemma oriented_row_chain_Some:
  "oriented_row c wsol (chain_info mints_of) pool user base quote a fee = Some r \<longleftrightarrow>
     (\<exists>b. mints_of pool = Some (b, wsol) \<and> r = swap_row c pool user fee
        \<lparr>sol_amount = quote, token_amount = base, token_mint = b, is_buy = a\<rparr>)
     \<or> (\<exists>q. mints_of pool = Some (wsol, q) \<and> q \<noteq> wsol \<and> r = swap_row c pool user fee
        \<lparr>sol_amount = base, token_amount = quote, token_mint = q, is_buy = \<not> a\<rparr>)"
  by (cases "mints_of pool") (auto simp: oriented_row_def chain_info_def orient_def)

lemma swap_row_simps [simp]:
  "t_pool (swap_row c pool user fee t) = Some (show_key c pool)"
  "t_token_mint (swap_row c pool user fee t) = show_key c (token_mint t)"
  "t_side (swap_row c pool user fee t) = side_of (is_buy t)"
  "t_sol_amount (swap_row c pool user fee t) = uint (sol_amount t)"
  "t_token_amount (swap_row c pool user fee t) = uint (token_amount t)"
  "t_trader (swap_row c pool user fee t) = show_key c user"
  "t_fee (swap_row c pool user fee t) = Some (uint fee)"
  by (simp_all add: swap_row_def)

lemma side_of_simps [simp]: "side_of b = ''buy'' \<longleftrightarrow> b" "side_of b = ''sell'' \<longleftrightarrow> \<not> b"
  by (simp_all add: side_of_def)

lemma chain_trade_tells:
  assumes "trade_for c wsol (chain_info mints_of) m = Some r"
  shows "tells c wsol mints_of m r"
  using assms
proof (induction c wsol "chain_info mints_of" m rule: trade_for.induct)
  case (1 c wsol t i e)
  then show ?case unfolding trade_for.simps oriented_row_chain_Some
    by (elim disjE exE conjE) (simp_all add: tells_def row_exchange_def)
next
  case (2 c wsol t i e)
  then show ?case unfolding trade_for.simps oriented_row_chain_Some
    by (elim disjE exE conjE) (simp_all add: tells_def row_exchange_def)
next
  case (3 c wsol t i e)
  then have "r = curve_row c e" by simp
  then show ?case by (simp add: tells_def row_exchange_def curve_row_def)
qed simp_all

lemma chain_trade_exists:
  assumes "event_for v m = Some e" "has_sol_side wsol mints_of m"
  shows "\<exists>r. trade_for c wsol (chain_info mints_of) m = Some r"
proof -
  have swap: "\<exists>r. oriented_row c wsol (chain_info mints_of) p user base quote a fee = Some r"
    if "move_pool m = Some p" for p user base quote a fee
    using assms(2) that unfolding has_sol_side_def oriented_row_chain_Some by blast
  show ?thesis using assms(1) swap
    by (induction v m rule: event_for.induct) (simp_all split: if_splits)
qed

section \<open>What the processors know\<close>

lemma oriented_row_known:
  assumes "indexer_agrees c mints_of s"
  shows "oriented_row c wsol (known s) p user base quote a fee =
    (if known s p = None then None
     else oriented_row c wsol (chain_info mints_of) p user base quote a fee)"
proof (cases "known s p")
  case (Some info)
  with known_chain [OF assms] show ?thesis
    by (simp add: oriented_row_def chain_info_def orient_def)
qed (simp add: oriented_row_def)

lemma trade_for_known:
  assumes "indexer_agrees c mints_of s"
  shows "trade_for c wsol (known s) m =
    (if \<exists>p. move_pool m = Some p \<and> known s p = None then None
     else trade_for c wsol (chain_info mints_of) m)"
  using oriented_row_known [OF assms] by (cases "(c, wsol, known s, m)" rule: trade_for.cases) simp_all

definition right_or_missing ::
  "codec \<Rightarrow> pubkey \<Rightarrow> (pubkey \<Rightarrow> (pubkey \<times> pubkey) option) \<Rightarrow> indexer \<Rightarrow> 'x move \<Rightarrow>
     trade_row option \<Rightarrow> bool" where
  "right_or_missing c wsol mints_of s m tr = (case tr of
      Some r \<Rightarrow> tells c wsol mints_of m r
    | None \<Rightarrow> (\<exists>p. move_pool m = Some p \<and> known s p = None) \<or> \<not> has_sol_side wsol mints_of m)"

lemma trade_for_right:
  assumes "indexer_agrees c mints_of s" "event_for v m = Some e"
  shows "right_or_missing c wsol mints_of s m (trade_for c wsol (known s) m)"
  using chain_trade_tells [of c wsol mints_of m] chain_trade_exists [OF assms(2), of wsol mints_of c]
  by (auto simp: right_or_missing_def trade_for_known [OF assms(1)] split: option.splits)

lemma right_or_missing_earlier:
  "(\<And>p. known s p \<noteq> None \<Longrightarrow> known s' p \<noteq> None) \<Longrightarrow>
     right_or_missing c wsol mints_of s' m tr \<Longrightarrow> right_or_missing c wsol mints_of s m tr"
  unfolding right_or_missing_def by (cases tr) (simp_all only: option.case, metis)

text \<open>A pool that is known stays known.\<close>

lemma cache_save [simp]: "cache (save c p info r) = cache r"
  by (simp add: save_def split: option.splits prod.splits outcome.splits)

lemma resolver_step_keeps:
  "resolver_step c mints_of r r' \<Longrightarrow> pool_get r p \<noteq> None \<Longrightarrow> pool_get r' p \<noteq> None"
proof (induction rule: resolver_step.induct)
  case (turn fetch decode r r')
  from resolver_task_shape [OF turn(1)] turn(3) show ?case
    by (auto simp: pool_get_def pool_insert_def cache_insert_def)
qed (simp_all add: pool_get_def pool_insert_def cache_insert_def pool_request_same)

lemma known_stays:
  assumes "resolver_moves c mints_of s s'" "known s p \<noteq> None"
  shows "known s' p \<noteq> None"
proof -
  obtain r r' where r: "resolver_of s = Some r" "resolver_of s' = Some r'"
      "(resolver_step c mints_of)\<^sup>*\<^sup>* r r'" "pool_get r p \<noteq> None"
    using assms by (cases "resolver_of s"; cases "resolver_of s'")
      (auto simp: resolver_moves_def known_def)
  from r(3,4) have "pool_get r' p \<noteq> None"
    by (induction rule: rtranclp_induct) (auto dest: resolver_step_keeps)
  with r(2) show ?thesis by (simp add: known_def)
qed

definition recorded :: "'x serde \<Rightarrow> 'x move list \<Rightarrow> 'x move list" where
  "recorded v ms = filter (\<lambda>m. event_for v m \<noteq> None) ms"

lemma recorded_simps [simp]:
  "recorded v [] = []"
  "recorded v (m # ms) = (if event_for v m = None then recorded v ms else m # recorded v ms)"
  by (simp_all add: recorded_def)

lemma indexer_run_right:
  assumes "indexer_run c wsol v ms s = Some s'" "indexer_agrees c mints_of s"
    "\<forall>m \<in> set ms. move_agrees mints_of m"
  shows "\<exists>ts. produced (events_of v ms) ts s s'
    \<and> list_all2 (right_or_missing c wsol mints_of s) (recorded v ms) ts"
  using assms
proof (induction ms arbitrary: s)
  case Nil
  then show ?case by (auto intro!: exI [of _ "[]"] produced_nothing simp: events_of_def)
next
  case (Cons m ms)
  then obtain s1 where s1: "indexer_step c wsol v m s = Some s1" "indexer_run c wsol v ms s1 = Some s'"
    by (auto simp: bind_eq_Some_conv)
  have moves: "resolver_moves c mints_of s s1"
    using indexer_step_moves [OF s1(1)] Cons.prems(3) by simp
  then obtain ts where ts: "produced (events_of v ms) ts s1 s'"
      "list_all2 (right_or_missing c wsol mints_of s1) (recorded v ms) ts"
    using Cons.IH [OF s1(2) indexer_agrees_moves [OF moves Cons.prems(2)]] Cons.prems(3) by auto
  have "produced (events_of v (m # ms)) (trades_of c wsol v (known s) m @ ts) s s'"
    using produced_trans [OF indexer_step_produced [OF s1(1)] ts(1)] by (simp add: events_of_def)
  moreover have "list_all2 (right_or_missing c wsol mints_of s) (recorded v ms) ts"
    using ts(2) by (rule list_all2_mono) (rule right_or_missing_earlier [OF known_stays [OF moves]])
  then have "list_all2 (right_or_missing c wsol mints_of s) (recorded v (m # ms))
      (trades_of c wsol v (known s) m @ ts)"
    using trade_for_right [OF Cons.prems(2)] by (auto simp: trades_of_def)
  ultimately show ?case by blast
qed

lemma events_of_recorded: "map (\<lambda>m. the (event_for v m)) (recorded v ms) = events_of v ms"
  by (induction ms) (auto simp: events_of_def events_for_def)

section \<open>Property\<close>

text \<open>
  Claim C4. A trade row is right or missing. If what comes from outside agrees with the
  chain, the rows handed to the writer are those of the recorded events, in order, and each
  trade row says what happened on the chain: who paid and received which amounts of which
  mints, in which pool, at which fee. A row is missing only for a swap whose pool was not known
  when the run began, or has no wrapped SOL side.
\<close>

theorem trade_rows_agree_with_chain:
  assumes "indexer_run c wsol v ms s = Some s'" "indexer_agrees c mints_of s"
    and "\<forall>m \<in> set ms. move_agrees mints_of m" "outbox s = Some rows"
  shows "\<exists>new. outbox s' = Some (rows @ new) \<and> map pw_event new = events_of v ms
    \<and> list_all2 (\<lambda>m p. right_or_missing c wsol mints_of s m (pw_trade p)) (recorded v ms) new"
proof -
  obtain ts where ts: "produced (events_of v ms) ts s s'"
      "list_all2 (right_or_missing c wsol mints_of s) (recorded v ms) ts"
    using indexer_run_right [OF assms(1-3)] by blast
  then obtain new where "outbox s' = Some (rows @ new)"
      "map pw_event new = events_of v ms" "map pw_trade new = ts"
    using assms(4) by (auto simp: produced_def)
  with ts(2) show ?thesis by (auto simp: list_all2_map2)
qed

lemma sample_moves_agree: "\<forall>m \<in> set sample_moves. move_agrees sample_mints m"
  by (simp add: sample_moves_def sample_create_def sample_mints_def)

lemma sample_indexer_agrees: "indexer_agrees byte_codec sample_mints sample_indexer"
  by (simp add: indexer_agrees_def sample_indexer_def sample_resolver_ok)

theorem trade_rows_agree_with_chain_witness:
  "\<exists>s new. run_sample sample_moves = Some s \<and> outbox s = Some new
     \<and> map pw_event new = events_of sample_serde sample_moves
     \<and> list_all2 (\<lambda>m p. right_or_missing byte_codec (sample_key 1) sample_mints sample_indexer m (pw_trade p))
         (recorded sample_serde sample_moves) new"
proof -
  obtain s where s: "run_sample sample_moves = Some s" using sample_runs by blast
  have "outbox sample_indexer = Some []" by (simp add: sample_indexer_def)
  from trade_rows_agree_with_chain [OF s [unfolded run_sample_def] sample_indexer_agrees
      sample_moves_agree this] s
  show ?thesis by auto
qed

end
