(* ===== verification/Repair.thy ===== *)
theory Repair
  imports Chain
begin

text \<open>
  \<^verbatim>\<open>src/repair.rs\<close>: rebuilding trade rows from the stored payloads of events whose pool was
  not known when they were decoded.

  The rows are built by reading the JSON payload field by field; each missing or ill-typed
  field is a reason to skip (\<open>skipped\<close>). \<open>run_repair\<close> loads the pools and the events with no
  trade, builds what it can and writes it a hundred rows at a time. An error of the database
  ends the run, and an unanswered statement suspends it.
\<close>

section \<open>Building a trade row from a payload\<close>

datatype skipped = Pool_unknown | No_sol_side | Bad_payload

text \<open>The \<^verbatim>\<open>?\<close> operator and \<^verbatim>\<open>Option::ok_or\<close>.\<close>

definition ok_or :: "'e \<Rightarrow> 'a option \<Rightarrow> 'e + 'a" where
  "ok_or e x = (case x of None \<Rightarrow> Inl e | Some y \<Rightarrow> Inr y)"

definition try_ok :: "'e + 'a \<Rightarrow> ('a \<Rightarrow> 'e + 'b) \<Rightarrow> 'e + 'b" where
  "try_ok x f = (case x of Inl e \<Rightarrow> Inl e | Inr y \<Rightarrow> f y)"

lemma ok_or_simps [simp]: "ok_or e None = Inl e" "ok_or e (Some x) = Inr x"
  by (simp_all add: ok_or_def)

lemma try_ok_simps [simp]: "try_ok (Inl e) f = Inl e" "try_ok (Inr x) f = f x"
  by (simp_all add: try_ok_def)

lemma try_ok_Inr: "try_ok x f = Inr y \<longleftrightarrow> (\<exists>a. x = Inr a \<and> f a = Inr y)"
  by (cases x) simp_all

fun json_bytes :: "json list \<Rightarrow> u8 list option" where
  "json_bytes [] = Some []"
| "json_bytes (b # bs) = (case Option.bind (as_u64_json b) u8_of_u64 of
      None \<Rightarrow> None
    | Some x \<Rightarrow> map_option (\<lambda>xs. x # xs) (json_bytes bs))"

definition pubkey_from_json :: "json option \<Rightarrow> pubkey option" where
  "pubkey_from_json v = Option.bind v (\<lambda>j. Option.bind (as_array j) (\<lambda>arr.
     if length arr \<noteq> 32 then None else map_option Pubkey (json_bytes arr)))"

definition field_u64 :: "string \<Rightarrow> json \<Rightarrow> u64 option" where
  "field_u64 k p = Option.bind (json_get k p) as_u64_json"

definition build_pumpfun :: "codec \<Rightarrow> unrepaired_event \<Rightarrow> skipped + trade_row" where
  "build_pumpfun c e = (let p = e_payload e in
     try_ok (ok_or Bad_payload (pubkey_from_json (json_get ''mint'' p))) (\<lambda>mint.
     try_ok (ok_or Bad_payload (pubkey_from_json (json_get ''user'' p))) (\<lambda>user.
     try_ok (ok_or Bad_payload (Option.bind (json_get ''is_buy'' p) as_bool)) (\<lambda>buy.
     try_ok (ok_or Bad_payload (field_u64 ''sol_amount'' p)) (\<lambda>sol.
     try_ok (ok_or Bad_payload (field_u64 ''token_amount'' p)) (\<lambda>token.
       Inr \<lparr>t_pool = None, t_token_mint = show_key c mint, t_side = side_of buy,
         t_sol_amount = uint sol, t_token_amount = uint token, t_trader = show_key c user,
         t_fee = map_option uint (field_u64 ''fee'' p)\<rparr>))))))"

definition swap_amounts :: "unrepaired_event \<Rightarrow> skipped + u64 \<times> u64 \<times> bool" where
  "swap_amounts e = (let p = e_payload e in
     if e_type e = ''BuyEvent'' then
       try_ok (ok_or Bad_payload (field_u64 ''base_amount_out'' p)) (\<lambda>base.
       try_ok (ok_or Bad_payload (field_u64 ''quote_amount_in'' p)) (\<lambda>quote.
         Inr (base, quote, True)))
     else if e_type e = ''SellEvent'' then
       try_ok (ok_or Bad_payload (field_u64 ''base_amount_in'' p)) (\<lambda>base.
       try_ok (ok_or Bad_payload (field_u64 ''quote_amount_out'' p)) (\<lambda>quote.
         Inr (base, quote, False)))
     else Inl Bad_payload)"

definition build_pumpswap ::
  "codec \<Rightarrow> pubkey \<Rightarrow> (string \<rightharpoonup> pool_info) \<Rightarrow> unrepaired_event \<Rightarrow> metrics \<Rightarrow>
     (skipped + trade_row) \<times> metrics" where
  "build_pumpswap c wsol known_pools e m =
     (let p = e_payload e in
      case (try_ok (ok_or Bad_payload (pubkey_from_json (json_get ''pool'' p))) (\<lambda>pool.
            try_ok (ok_or Bad_payload (pubkey_from_json (json_get ''user'' p))) (\<lambda>user.
            try_ok (swap_amounts e) (\<lambda>(base, quote, acquiring_base).
            try_ok (ok_or Pool_unknown (known_pools (show_key c pool))) (\<lambda>info.
              Inr (pool, user, base, quote, acquiring_base, info)))))) of
        Inl err \<Rightarrow> (Inl err, m)
      | Inr (pool, user, base, quote, acquiring_base, info) \<Rightarrow>
          (case orient wsol info base quote acquiring_base m of
             (None, m') \<Rightarrow> (Inl No_sol_side, m')
           | (Some t, m') \<Rightarrow>
               (Inr \<lparr>t_pool = Some (show_key c pool), t_token_mint = show_key c (token_mint t),
                  t_side = side_of (is_buy t), t_sol_amount = uint (sol_amount t),
                  t_token_amount = uint (token_amount t), t_trader = show_key c user,
                  t_fee = map_option uint (field_u64 ''protocol_fee'' p)\<rparr>, m')))"

definition build ::
  "codec \<Rightarrow> pubkey \<Rightarrow> (string \<rightharpoonup> pool_info) \<Rightarrow> unrepaired_event \<Rightarrow> metrics \<Rightarrow>
     (skipped + trade_row) \<times> metrics" where
  "build c wsol known_pools e m =
     (if e_program e = ''pumpfun'' then (build_pumpfun c e, m)
      else if e_program e = ''pumpswap'' then build_pumpswap c wsol known_pools e m
      else (Inl Bad_payload, m))"

section \<open>The run\<close>

record repair_run =
  ready :: "repaired_trade list"
  written :: nat
  unknown :: nat
  no_sol :: nat
  bad :: nat

definition repaired_row :: "unrepaired_event \<Rightarrow> trade_row \<Rightarrow> repaired_trade" where
  "repaired_row e t = \<lparr>r_signature = e_signature e, r_path = e_path e, r_ordinal = e_ordinal e,
     r_slot = e_slot e, r_block_time = e_block_time e, r_program = e_program e, r_trade = t\<rparr>"

text \<open>The pools whose mints can be read; the others are passed over.\<close>

definition known_from :: "codec \<Rightarrow> stored_pool list \<Rightarrow> string \<rightharpoonup> pool_info" where
  "known_from c ps = fold (\<lambda>p f.
     case (read_key c (sp_base_mint p), read_key c (sp_quote_mint p)) of
       (Some b, Some q) \<Rightarrow> f(sp_pool p \<mapsto> \<lparr>base_mint = b, quote_mint = q,
          base_decimals = Option.bind (sp_base_decimals p) u8_of_i32,
          quote_decimals = Option.bind (sp_quote_decimals p) u8_of_i32\<rparr>)
     | _ \<Rightarrow> f) ps Map.empty"

definition count_skip :: "skipped \<Rightarrow> repair_run \<Rightarrow> repair_run" where
  "count_skip s r = (case s of
      Pool_unknown \<Rightarrow> r\<lparr>unknown := unknown r + 1\<rparr>
    | No_sol_side \<Rightarrow> r\<lparr>no_sol := no_sol r + 1\<rparr>
    | Bad_payload \<Rightarrow> r\<lparr>bad := bad r + 1\<rparr>)"

fun repair_loop ::
  "codec \<Rightarrow> pubkey \<Rightarrow> (string \<rightharpoonup> pool_info) \<Rightarrow> unrepaired_event list \<Rightarrow> repair_run \<Rightarrow> db \<Rightarrow> metrics \<Rightarrow>
     repair_run outcome \<times> db \<times> metrics" where
  "repair_loop c wsol known_pools [] r d m = (Answer r, d, m)"
| "repair_loop c wsol known_pools (e # es) r d m =
     (case build c wsol known_pools e m of
        (Inl s, m') \<Rightarrow> repair_loop c wsol known_pools es (count_skip s r) d m'
      | (Inr t, m') \<Rightarrow>
          let rows = ready r @ [repaired_row e t] in
          if 100 \<le> length rows then
            (case write_repaired rows d of
               (Answer n, d') \<Rightarrow> repair_loop c wsol known_pools es
                 (r\<lparr>ready := [], written := written r + n\<rparr>) d' m'
             | (Failure err, d') \<Rightarrow> (Failure err, d', m')
             | (No_answer, d') \<Rightarrow> (No_answer, d', m'))
          else repair_loop c wsol known_pools es (r\<lparr>ready := rows\<rparr>) d m')"

definition new_run :: repair_run where
  "new_run = \<lparr>ready = [], written = 0, unknown = 0, no_sol = 0, bad = 0\<rparr>"

definition run_repair ::
  "codec \<Rightarrow> pubkey \<Rightarrow> (event_row list \<Rightarrow> event_row list) \<Rightarrow> i64 \<Rightarrow> db \<Rightarrow> metrics \<Rightarrow>
     repair_run outcome \<times> db \<times> metrics" where
  "run_repair c wsol scan limit d m =
     (case load_pools d of
        (Failure e, d1) \<Rightarrow> (Failure e, d1, m)
      | (No_answer, d1) \<Rightarrow> (No_answer, d1, m)
      | (Answer stored, d1) \<Rightarrow>
          (case load_unrepaired scan limit d1 of
             (Failure e, d2) \<Rightarrow> (Failure e, d2, m)
           | (No_answer, d2) \<Rightarrow> (No_answer, d2, m)
           | (Answer es, d2) \<Rightarrow>
               (case repair_loop c wsol (known_from c stored) es new_run d2 m of
                  (Failure e, d3, m') \<Rightarrow> (Failure e, d3, m')
                | (No_answer, d3, m') \<Rightarrow> (No_answer, d3, m')
                | (Answer r, d3, m') \<Rightarrow>
                    (case write_repaired (ready r) d3 of
                       (Failure e, d4) \<Rightarrow> (Failure e, d4, m')
                     | (No_answer, d4) \<Rightarrow> (No_answer, d4, m')
                     | (Answer n, d4) \<Rightarrow> (Answer (r\<lparr>written := written r + n\<rparr>), d4, m')))))"

section \<open>Repair and the processors agree\<close>

text \<open>
  What is relied on of \<^verbatim>\<open>serde_json::to_value\<close>: a struct becomes an object with its fields, a
  key becomes the array of its bytes, an integer a number, a boolean a boolean.
\<close>

definition key_json :: "pubkey \<Rightarrow> json" where
  "key_json k = JArray (map (\<lambda>b. json_u64 (ucast b)) (key_bytes k))"

definition carries_buy :: "'x buy_event \<Rightarrow> json \<Rightarrow> bool" where
  "carries_buy e j \<longleftrightarrow> json_get ''pool'' j = Some (key_json (buy_pool e))
     \<and> json_get ''user'' j = Some (key_json (buy_user e))
     \<and> json_get ''base_amount_out'' j = Some (json_u64 (base_amount_out e))
     \<and> json_get ''quote_amount_in'' j = Some (json_u64 (quote_amount_in e))
     \<and> json_get ''protocol_fee'' j = Some (json_u64 (buy_protocol_fee e))"

definition carries_sell :: "'x sell_event \<Rightarrow> json \<Rightarrow> bool" where
  "carries_sell e j \<longleftrightarrow> json_get ''pool'' j = Some (key_json (sell_pool e))
     \<and> json_get ''user'' j = Some (key_json (sell_user e))
     \<and> json_get ''base_amount_in'' j = Some (json_u64 (base_amount_in e))
     \<and> json_get ''quote_amount_out'' j = Some (json_u64 (quote_amount_out e))
     \<and> json_get ''protocol_fee'' j = Some (json_u64 (sell_protocol_fee e))"

definition carries_curve :: "'x curve_trade \<Rightarrow> json \<Rightarrow> bool" where
  "carries_curve e j \<longleftrightarrow> json_get ''mint'' j = Some (key_json (ct_mint e))
     \<and> json_get ''user'' j = Some (key_json (ct_user e))
     \<and> json_get ''is_buy'' j = Some (JBool (ct_is_buy e))
     \<and> json_get ''sol_amount'' j = Some (json_u64 (ct_sol_amount e))
     \<and> json_get ''token_amount'' j = Some (json_u64 (ct_token_amount e))
     \<and> json_get ''fee'' j = Some (json_u64 (ct_fee e))"

definition serde_ok :: "'x serde \<Rightarrow> bool" where
  "serde_ok v \<longleftrightarrow> (\<forall>e. \<exists>j. buy_json v e = Some j \<and> carries_buy e j)
     \<and> (\<forall>e. \<exists>j. sell_json v e = Some j \<and> carries_sell e j)
     \<and> (\<forall>e. \<exists>j. curve_json v e = Some j \<and> carries_curve e j)"

fun valid_move :: "'x move \<Rightarrow> bool" where
  "valid_move (Swap t i (SwapCpiEvent (BuyEvent e))) = (valid_key (buy_pool e) \<and> valid_key (buy_user e))"
| "valid_move (Swap t i (SwapCpiEvent (SellEvent e))) = (valid_key (sell_pool e) \<and> valid_key (sell_user e))"
| "valid_move (Curve t i (CurveTrade e)) = (valid_key (ct_mint e) \<and> valid_key (ct_user e))"
| "valid_move _ = True"

lemma json_bytes_key [simp]: "json_bytes (map (\<lambda>b. json_u64 (ucast b)) bs) = Some bs"
  by (induction bs) simp_all

lemma pubkey_from_key_json [simp]: "valid_key k \<Longrightarrow> pubkey_from_json (Some (key_json k)) = Some k"
  by (simp add: pubkey_from_json_def key_json_def valid_key_def)

lemma build_pumpswap_payload:
  assumes "json_get ''pool'' (e_payload e) = Some (key_json pool)" "valid_key pool"
    and "json_get ''user'' (e_payload e) = Some (key_json user)" "valid_key user"
    and "json_get ''protocol_fee'' (e_payload e) = Some (json_u64 fee)"
    and "swap_amounts e = Inr (base, quote, a)"
  shows "fst (build_pumpswap c wsol known_pools e m) =
    (case oriented_row c wsol (\<lambda>p. known_pools (show_key c p)) pool user base quote a fee of
       Some t \<Rightarrow> Inr t
     | None \<Rightarrow> Inl (if known_pools (show_key c pool) = None then Pool_unknown else No_sol_side))"
proof (cases "known_pools (show_key c pool)")
  case None
  with assms show ?thesis by (simp add: build_pumpswap_def Let_def oriented_row_def)
next
  case (Some info)
  have "fst (build_pumpswap c wsol known_pools e m) =
      (case fst (orient wsol info base quote a m) of
         Some t \<Rightarrow> Inr (swap_row c pool user fee t) | None \<Rightarrow> Inl No_sol_side)"
    using assms Some
    by (auto simp: build_pumpswap_def Let_def swap_row_def field_u64_def split: prod.splits option.splits)
  moreover have "fst (orient wsol info base quote a m) = fst (orient wsol info base quote a new_metrics)"
    by (rule fst_orient)
  ultimately show ?thesis
    using Some by (simp add: oriented_row_def split: option.splits)
qed

lemma build_buy:
  assumes "carries_buy b j" "valid_key (buy_pool b)" "valid_key (buy_user b)"
  shows "fst (build c wsol known_pools (row_of i ''pumpswap'' ''BuyEvent'' (Some j)) k) =
    (case oriented_row c wsol (\<lambda>p. known_pools (show_key c p)) (buy_pool b) (buy_user b)
        (base_amount_out b) (quote_amount_in b) True (buy_protocol_fee b) of
       Some t \<Rightarrow> Inr t
     | None \<Rightarrow> Inl (if known_pools (show_key c (buy_pool b)) = None then Pool_unknown else No_sol_side))"
proof -
  let ?e = "row_of i ''pumpswap'' ''BuyEvent'' (Some j)"
  have p: "e_payload ?e = j" "e_type ?e = ''BuyEvent''" "e_program ?e = ''pumpswap''"
    by (simp_all add: row_of_def)
  have "swap_amounts ?e = Inr (base_amount_out b, quote_amount_in b, True)"
    using assms(1) by (simp add: swap_amounts_def p field_u64_def carries_buy_def)
  from build_pumpswap_payload [OF _ assms(2) _ assms(3) _ this] assms(1)
  show ?thesis by (simp add: build_def p carries_buy_def)
qed

lemma build_sell:
  assumes "carries_sell b j" "valid_key (sell_pool b)" "valid_key (sell_user b)"
  shows "fst (build c wsol known_pools (row_of i ''pumpswap'' ''SellEvent'' (Some j)) k) =
    (case oriented_row c wsol (\<lambda>p. known_pools (show_key c p)) (sell_pool b) (sell_user b)
        (base_amount_in b) (quote_amount_out b) False (sell_protocol_fee b) of
       Some t \<Rightarrow> Inr t
     | None \<Rightarrow> Inl (if known_pools (show_key c (sell_pool b)) = None then Pool_unknown else No_sol_side))"
proof -
  let ?e = "row_of i ''pumpswap'' ''SellEvent'' (Some j)"
  have p: "e_payload ?e = j" "e_type ?e = ''SellEvent''" "e_program ?e = ''pumpswap''"
    by (simp_all add: row_of_def)
  have "swap_amounts ?e = Inr (base_amount_in b, quote_amount_out b, False)"
    using assms(1) by (simp add: swap_amounts_def p field_u64_def carries_sell_def)
  from build_pumpswap_payload [OF _ assms(2) _ assms(3) _ this] assms(1)
  show ?thesis by (simp add: build_def p carries_sell_def)
qed

lemma build_curve:
  assumes "carries_curve b j" "valid_key (ct_mint b)" "valid_key (ct_user b)"
  shows "fst (build c wsol known_pools (row_of i ''pumpfun'' ''TradeEvent'' (Some j)) k) = Inr (curve_row c b)"
  using assms
  by (simp add: build_def build_pumpfun_def Let_def row_of_def carries_curve_def field_u64_def
      curve_row_def)

text \<open>What repair answers for an event, in terms of the processors' specification.\<close>

definition repair_answer ::
  "codec \<Rightarrow> pubkey \<Rightarrow> (string \<rightharpoonup> pool_info) \<Rightarrow> 'x move \<Rightarrow> skipped + trade_row" where
  "repair_answer c wsol known_pools m =
     (case trade_for c wsol (\<lambda>p. known_pools (show_key c p)) m of
        Some t \<Rightarrow> Inr t
      | None \<Rightarrow> Inl (if Option.bind (move_pool m) (\<lambda>p. known_pools (show_key c p)) = None
                   then Pool_unknown else No_sol_side))"

lemma build_matches_processor:
  assumes "serde_ok v" "valid_move m" "event_for v m = Some e"
  shows "fst (build c wsol known_pools e k) = repair_answer c wsol known_pools m"
  using assms
proof (induction v m rule: event_for.induct)
  case (1 v t i b)
  then obtain j where "buy_json v b = Some j" "carries_buy b j" unfolding serde_ok_def by blast
  with 1 show ?case by (auto simp: repair_answer_def build_buy split: if_splits)
next
  case (2 v t i b)
  then obtain j where "sell_json v b = Some j" "carries_sell b j" unfolding serde_ok_def by blast
  with 2 show ?case by (auto simp: repair_answer_def build_sell split: if_splits)
next
  case (3 v t i b)
  then obtain j where "curve_json v b = Some j" "carries_curve b j" unfolding serde_ok_def by blast
  with 3 show ?case by (auto simp: repair_answer_def build_curve split: if_splits)
qed auto

section \<open>What a run does\<close>

definition built :: "codec \<Rightarrow> pubkey \<Rightarrow> (string \<rightharpoonup> pool_info) \<Rightarrow> unrepaired_event \<Rightarrow> repaired_trade option" where
  "built c wsol known_pools e = (case fst (build c wsol known_pools e new_metrics) of
      Inl s \<Rightarrow> None | Inr t \<Rightarrow> Some (repaired_row e t))"

lemma fst_build: "fst (build c wsol known_pools e m) = fst (build c wsol known_pools e m')"
  by (auto simp: build_def build_pumpswap_def Let_def orient_def split: sum.splits)

lemma build_accepted:
  assumes "fst (build c wsol known_pools e m) = Inr t"
  shows "trade_error t = None"
  using assms
  by (auto simp: build_def build_pumpswap_def build_pumpfun_def Let_def try_ok_Inr orient_def
      trade_error_def side_of_def ok_or_def split: sum.splits if_splits option.splits)

lemma built_row:
  assumes "built c wsol known_pools e = Some r"
  shows "trade_key r = event_key e" "trade_error (r_trade r) = None"
  using assms build_accepted [of c wsol known_pools e new_metrics]
  by (auto simp: built_def repaired_row_def trade_key_def event_key_def split: sum.splits)

abbreviation with_trades :: "tables \<Rightarrow> repaired_trade list \<Rightarrow> tables" where
  "with_trades t rows \<equiv> t\<lparr>trades := insert_do_nothing trade_key (trades t) rows\<rparr>"

lemma write_repaired_healthy:
  assumes "healthy d" "\<forall>r \<in> set rows. trade_error (r_trade r) = None \<and> trade_key r \<in> event_key ` set (events (store d))"
  shows "\<exists>d'. write_repaired rows d =
      (Answer (length (trades (store d')) - length (trades (store d))), d')
    \<and> store d' = with_trades (store d) rows \<and> healthy d'"
proof (cases "rows = []")
  case False
  have "\<exists>n t. insert_trades rows (store d) = Inr (n, t)"
    using assms(2) by (intro insert_trades_succeeds) auto
  then obtain n t where nt: "insert_trades rows (store d) = Inr (n, t)" by blast
  obtain d' where "execute (insert_trades rows) d = (Answer n, d')" "store d' = t" "healthy d'"
    using execute_healthy [OF assms(1), of "insert_trades rows"] nt by blast
  with False insert_trades_Inr [OF nt] show ?thesis by (auto simp: write_repaired_def)
qed (simp add: write_repaired_def return_def assms(1))

definition skips_of :: "repair_run \<Rightarrow> nat" where
  "skips_of r = unknown r + no_sol r + bad r"

lemma count_skip_simps [simp]:
  "ready (count_skip s r) = ready r" "written (count_skip s r) = written r"
  "skips_of (count_skip s r) = Suc (skips_of r)"
  by (cases s; simp add: count_skip_def skips_of_def)+

lemma insert_trades_more:
  "length (trades t) \<le> length (trades (with_trades t rows))"
  by (simp add: length_insert_do_nothing)

lemma repair_loop_healthy:
  assumes "healthy d"
    and "\<forall>r \<in> set (ready st). trade_error (r_trade r) = None \<and> trade_key r \<in> event_key ` set (events (store d))"
    and "event_key ` set es \<subseteq> event_key ` set (events (store d))"
  shows "\<exists>st' d' m' done. repair_loop c wsol kp es st d m = (Answer st', d', m') \<and> healthy d'
    \<and> done @ ready st' = ready st @ List.map_filter (built c wsol kp) es
    \<and> store d' = with_trades (store d) done
    \<and> written st' = written st + (length (trades (store d')) - length (trades (store d)))
    \<and> skips_of st' = skips_of st + length (filter (\<lambda>e. built c wsol kp e = None) es)"
  using assms
proof (induction es arbitrary: st d m)
  case Nil
  then show ?case by (auto simp: List.map_filter_def intro!: exI [of _ "[]"])
next
  case (Cons e es)
  obtain x m1 where b: "build c wsol kp e m = (x, m1)" by fastforce
  then have x: "fst (build c wsol kp e new_metrics) = x" using fst_build by (metis fst_conv)
  show ?case
  proof (cases x)
    case (Inl s)
    then have "built c wsol kp e = None" using x by (simp add: built_def)
    with Inl b Cons.IH [of d "count_skip s st" m1] Cons.prems show ?thesis
      by (auto simp: List.map_filter_def)
  next
    case (Inr t)
    let ?r = "repaired_row e t" and ?rows = "ready st @ [repaired_row e t]"
    have br: "built c wsol kp e = Some ?r" using x Inr by (simp add: built_def)
    have rows: "\<forall>r \<in> set ?rows. trade_error (r_trade r) = None \<and> trade_key r \<in> event_key ` set (events (store d))"
      using Cons.prems built_row [OF br] by auto
    show ?thesis
    proof (cases "100 \<le> length ?rows")
      case False
      with Inr b br Cons.IH [of d "st\<lparr>ready := ?rows\<rparr>" m1] Cons.prems(1,3) rows show ?thesis
        by (auto simp: Let_def List.map_filter_def skips_of_def)
    next
      case True
      obtain d1 where d1: "write_repaired ?rows d =
            (Answer (length (trades (store d1)) - length (trades (store d))), d1)"
          "store d1 = with_trades (store d) ?rows" "healthy d1"
        using write_repaired_healthy [OF Cons.prems(1) rows] by blast
      let ?st = "st\<lparr>ready := [], written := written st + (length (trades (store d1)) - length (trades (store d)))\<rparr>"
      obtain st' d' m' dn where IH: "repair_loop c wsol kp es ?st d1 m1 = (Answer st', d', m')"
          "healthy d'" "dn @ ready st' = List.map_filter (built c wsol kp) es"
          "store d' = with_trades (store d1) dn"
          "written st' = written ?st + (length (trades (store d')) - length (trades (store d1)))"
          "skips_of st' = skips_of ?st + length (filter (\<lambda>e. built c wsol kp e = None) es)"
        using Cons.IH [of d1 ?st m1] Cons.prems(3) d1(2,3) by auto
      have "store d' = with_trades (store d) (?rows @ dn)"
        by (simp add: IH(4) d1(2) insert_do_nothing_append)
      moreover have "length (trades (store d)) \<le> length (trades (store d1))"
          "length (trades (store d1)) \<le> length (trades (store d'))"
        by (simp_all add: IH(4) d1(2) length_insert_do_nothing)
      ultimately show ?thesis
        using True Inr b br d1(1) IH
        by (intro exI [of _ st'] exI [of _ d'] exI [of _ m'] exI [of _ "?rows @ dn"])
          (simp add: Let_def List.map_filter_def skips_of_def)
    qed
  qed
qed

lemma new_run_simps [simp]: "ready new_run = []" "written new_run = 0" "skips_of new_run = 0"
  by (simp_all add: new_run_def skips_of_def)

definition repairable ::
  "codec \<Rightarrow> pubkey \<Rightarrow> (event_row list \<Rightarrow> event_row list) \<Rightarrow> i64 \<Rightarrow> tables \<Rightarrow> repaired_trade list" where
  "repairable c wsol scan limit t =
     List.map_filter (built c wsol (known_from c (pools t))) (take (nat limit) (missing_trades scan t))"

lemma missing_trades_facts:
  assumes "tables_ok t" "scan_ok scan"
  shows "distinct (map event_key (missing_trades scan t))"
    and "set (missing_trades scan t) = {e \<in> set (events t). event_key e \<notin> trade_key ` set (trades t)}"
proof -
  have ms: "mset (scan (events t)) = mset (events t)" using assms(2) by (simp add: scan_ok_def)
  then show "set (missing_trades scan t) = {e \<in> set (events t). event_key e \<notin> trade_key ` set (trades t)}"
    using mset_eq_setD [OF ms] by (auto simp: missing_trades_def)
  have "mset (map event_key (scan (events t))) = mset (map event_key (events t))" using ms by simp
  then have "distinct (map event_key (scan (events t)))"
    using assms(1) mset_eq_imp_distinct_iff unfolding tables_ok_def by blast
  then have "distinct (map event_key (filter P (scan (events t))))" for P by (rule distinct_map_filter)
  moreover have "mset (map event_key (sort_key e_slot xs)) = mset (map event_key xs)" for xs by simp
  ultimately show "distinct (map event_key (missing_trades scan t))"
    unfolding missing_trades_def using mset_eq_imp_distinct_iff by blast
qed

lemma map_filter_keys:
  assumes "\<And>e r. f e = Some r \<Longrightarrow> g r = k e" "distinct (map k es)"
  shows "distinct (map g (List.map_filter f es)) \<and> g ` set (List.map_filter f es) \<subseteq> k ` set es"
  using assms(2)
proof (induction es)
  case (Cons e es)
  show ?case
  proof (cases "f e")
    case None
    with Cons show ?thesis by (simp add: List.map_filter_simps) blast
  next
    case (Some r)
    with Cons assms(1) [OF Some] show ?thesis by (simp add: List.map_filter_simps) blast
  qed
qed (simp add: List.map_filter_def)

lemma repairable_fresh:
  assumes "tables_ok t" "scan_ok scan"
  shows "insert_do_nothing trade_key (trades t) (repairable c wsol scan limit t) =
    trades t @ repairable c wsol scan limit t"
proof -
  let ?es = "take (nat limit) (missing_trades scan t)"
  have "distinct (map event_key ?es)"
    using missing_trades_facts(1) [OF assms] by (simp flip: take_map)
  then have keys: "distinct (map trade_key (repairable c wsol scan limit t))"
      "trade_key ` set (repairable c wsol scan limit t) \<subseteq> event_key ` set ?es"
    using map_filter_keys [of "built c wsol (known_from c (pools t))" trade_key event_key ?es]
      built_row(1)
    unfolding repairable_def by blast+
  have "\<forall>e \<in> set ?es. event_key e \<notin> trade_key ` set (trades t)"
    using missing_trades_facts(2) [OF assms] by (auto dest: in_set_takeD)
  then have "event_key ` set ?es \<inter> trade_key ` set (trades t) = {}" by blast
  then have "trade_key ` set (repairable c wsol scan limit t) \<inter> trade_key ` set (trades t) = {}"
    using keys(2) by blast
  then show ?thesis by (rule insert_do_nothing_fresh [OF keys(1)])
qed

lemma length_map_filter:
  "length (List.map_filter f es) + length (filter (\<lambda>e. f e = None) es) = length es"
  by (induction es) (auto simp: List.map_filter_def split: option.splits)

lemma run_repair_healthy:
  assumes ok: "healthy d" "tables_ok (store d)" "scan_ok scan" "0 \<le> limit"
  shows "\<exists>r d' m'. run_repair c wsol scan limit d m = (Answer r, d', m') \<and> healthy d'
    \<and> store d' = (store d)\<lparr>trades := trades (store d) @ repairable c wsol scan limit (store d)\<rparr>
    \<and> written r = length (repairable c wsol scan limit (store d))
    \<and> written r + skips_of r = length (take (nat limit) (missing_trades scan (store d)))"
proof -
  let ?t = "store d" let ?es = "take (nat limit) (missing_trades scan (store d))"
  let ?kp = "known_from c (pools (store d))"
  obtain d1 where d1: "load_pools d = (Answer (pools ?t), d1)" "store d1 = ?t" "healthy d1"
    using execute_healthy [OF ok(1), of "\<lambda>t. Inr (pools t, t)"] by (auto simp: load_pools_def)
  obtain d2 where d2: "load_unrepaired scan limit d1 = (Answer ?es, d2)" "store d2 = ?t" "healthy d2"
    using execute_healthy [OF d1(3), of "\<lambda>t. if limit < 0 then Inl Invalid_limit
       else Inr (take (nat limit) (missing_trades scan t), t)"] ok(4) d1(2)
    by (auto simp: load_unrepaired_def)
  have "set ?es \<subseteq> set (events ?t)"
    using missing_trades_facts(2) [OF ok(2,3)] by (auto dest: in_set_takeD)
  then have es: "event_key ` set ?es \<subseteq> event_key ` set (events (store d2))"
    unfolding d2(2) by blast
  obtain st d3 m3 dn where lp: "repair_loop c wsol ?kp ?es new_run d2 m = (Answer st, d3, m3)" "healthy d3"
      "dn @ ready st = List.map_filter (built c wsol ?kp) ?es"
      "store d3 = with_trades (store d2) dn"
      "written st = length (trades (store d3)) - length (trades (store d2))"
      "skips_of st = length (filter (\<lambda>e. built c wsol ?kp e = None) ?es)"
    using repair_loop_healthy [OF d2(3) _ es, of new_run c wsol ?kp m] by (auto simp: new_run_simps)
  have rd: "set (ready st) \<subseteq> {r. \<exists>e \<in> set ?es. built c wsol ?kp e = Some r}"
  proof -
    have "set (ready st) \<subseteq> set (List.map_filter (built c wsol ?kp) ?es)" unfolding lp(3) [symmetric] by simp
    then show ?thesis by (force simp: List.map_filter_def)
  qed
  have "\<forall>r \<in> set (ready st). trade_error (r_trade r) = None \<and> trade_key r \<in> event_key ` set (events (store d3))"
  proof
    fix r assume "r \<in> set (ready st)"
    then obtain e where e: "e \<in> set ?es" "built c wsol ?kp e = Some r" using rd by blast
    have "event_key e \<in> event_key ` set (events (store d3))" using e(1) es lp(4) d2(2) by auto
    with built_row [OF e(2)] show "trade_error (r_trade r) = None \<and> trade_key r \<in> event_key ` set (events (store d3))"
      by simp
  qed
  from write_repaired_healthy [OF lp(2) this] obtain d4 where d4: "write_repaired (ready st) d3 =
      (Answer (length (trades (store d4)) - length (trades (store d3))), d4)"
      "store d4 = with_trades (store d3) (ready st)" "healthy d4" by blast
  have tr: "store d4 = ?t\<lparr>trades := trades ?t @ repairable c wsol scan limit ?t\<rparr>"
    using repairable_fresh [OF ok(2,3), of c wsol limit]
    by (simp add: d4(2) lp(4) d2(2) insert_do_nothing_append [symmetric] lp(3) repairable_def)
  have "length (trades (store d2)) \<le> length (trades (store d3))"
    "length (trades (store d3)) \<le> length (trades (store d4))"
    by (simp_all add: d4(2) lp(4) length_insert_do_nothing)
  then have w: "written st + (length (trades (store d4)) - length (trades (store d3))) =
      length (repairable c wsol scan limit ?t)"
    by (simp add: lp(5) d2(2) tr)
  let ?r = "st\<lparr>written := written st + (length (trades (store d4)) - length (trades (store d3)))\<rparr>"
  have "run_repair c wsol scan limit d m = (Answer ?r, d4, m3)"
    by (simp add: run_repair_def d1 d2 lp(1) d4(1))
  moreover have "skips_of ?r = skips_of st" by (simp add: skips_of_def)
  moreover have "length (repairable c wsol scan limit ?t) + skips_of st = length ?es"
    using length_map_filter [of "built c wsol ?kp" ?es] unfolding lp(6) repairable_def .
  ultimately show ?thesis using d4(3) tr w by (intro exI conjI) (assumption, simp_all)
qed

text \<open>What is still missing after a run that saw everything cannot be built.\<close>

lemma repairable_again:
  assumes "tables_ok t" "scan_ok scan" "length (missing_trades scan t) \<le> nat limit"
    and t': "t' = t\<lparr>trades := trades t @ repairable c wsol scan limit t\<rparr>" "tables_ok t'"
  shows "repairable c wsol scan limit t' = []"
proof -
  let ?kp = "known_from c (pools t)"
  have all: "repairable c wsol scan limit t = List.map_filter (built c wsol ?kp) (missing_trades scan t)"
    using assms(3) by (simp add: repairable_def)
  have "built c wsol ?kp e = None" if "e \<in> set (missing_trades scan t')" for e
  proof (rule ccontr)
    assume "built c wsol ?kp e \<noteq> None"
    then obtain r where r: "built c wsol ?kp e = Some r" by blast
    from that have e: "e \<in> set (events t)" "event_key e \<notin> trade_key ` set (trades t')"
      using missing_trades_facts(2) [OF t'(2) assms(2)] t'(1) by auto
    then have "e \<in> set (missing_trades scan t)"
      using missing_trades_facts(2) [OF assms(1,2)] t'(1) by auto
    then have "r \<in> set (repairable c wsol scan limit t)"
      unfolding all using r by (force simp: List.map_filter_def)
    then have "trade_key r \<in> trade_key ` set (trades t')" using t'(1) by simp
    with e(2) built_row(1) [OF r] show False by simp
  qed
  moreover have "pools t' = pools t" using t'(1) by simp
  ultimately show ?thesis
    by (auto simp: repairable_def List.map_filter_def filter_empty_conv dest: in_set_takeD)
qed

lemma repaired_ok:
  assumes "tables_ok t" "scan_ok scan"
  shows "tables_ok (t\<lparr>trades := trades t @ repairable c wsol scan limit t\<rparr>)"
proof -
  let ?rows = "repairable c wsol scan limit t"
  have sub: "set (take (nat limit) (missing_trades scan t)) \<subseteq> set (events t)"
    using missing_trades_facts(2) [OF assms] by (auto dest: in_set_takeD)
  have "trade_error (r_trade r) = None \<and> trade_key r \<in> event_key ` set (events t)" if r: "r \<in> set ?rows" for r
  proof -
    obtain e where e: "e \<in> set (take (nat limit) (missing_trades scan t))"
        "built c wsol (known_from c (pools t)) e = Some r"
      using r by (force simp: repairable_def List.map_filter_def)
    with sub built_row [OF e(2)] show ?thesis by auto
  qed
  then obtain n t' where ins: "insert_trades ?rows t = Inr (n, t')"
    using insert_trades_succeeds [of ?rows t] by blast
  have "t' = t\<lparr>trades := trades t @ ?rows\<rparr>"
    using insert_trades_Inr(1) [OF ins] repairable_fresh [OF assms] by simp
  with insert_trades_ok [OF assms(1) ins] show ?thesis by simp
qed

section \<open>The pools a run knows\<close>

lemma known_from_snoc:
  "known_from c (ps @ [p]) =
     (case (read_key c (sp_base_mint p), read_key c (sp_quote_mint p)) of
        (Some b, Some q) \<Rightarrow> (known_from c ps)(sp_pool p \<mapsto> \<lparr>base_mint = b, quote_mint = q,
          base_decimals = Option.bind (sp_base_decimals p) u8_of_i32,
          quote_decimals = Option.bind (sp_quote_decimals p) u8_of_i32\<rparr>)
      | _ \<Rightarrow> known_from c ps)"
  by (simp add: known_from_def split: option.splits)

lemma known_from_agrees:
  assumes "codec_ok c" "\<forall>q \<in> set ps. row_agrees c mints_of q"
  shows "\<forall>s info. known_from c ps s = Some info \<longrightarrow> (\<exists>p. s = show_key c p \<and> info_agrees mints_of p info)"
    and "sp_pool ` set ps \<subseteq> dom (known_from c ps)"
proof -
  have "(\<forall>s info. known_from c ps s = Some info \<longrightarrow> (\<exists>p. s = show_key c p \<and> info_agrees mints_of p info))
      \<and> sp_pool ` set ps \<subseteq> dom (known_from c ps)"
    using assms(2)
  proof (induction ps rule: rev_induct)
    case Nil
    then show ?case by (simp add: known_from_def)
  next
    case (snoc q ps)
    then have "row_agrees c mints_of q" by simp
    then obtain p b t where q: "valid_key p" "valid_key b" "valid_key t" "mints_of p = Some (b, t)"
        "sp_pool q = show_key c p" "sp_base_mint q = show_key c b" "sp_quote_mint q = show_key c t"
      unfolding row_agrees_def by blast
    let ?i = "\<lparr>base_mint = b, quote_mint = t, base_decimals = Option.bind (sp_base_decimals q) u8_of_i32,
        quote_decimals = Option.bind (sp_quote_decimals q) u8_of_i32\<rparr>"
    have k: "known_from c (ps @ [q]) = (known_from c ps)(sp_pool q \<mapsto> ?i)"
      using assms(1) q by (simp add: known_from_snoc codec_ok_def)
    have "info_agrees mints_of p ?i" using q by (simp add: info_agrees_def valid_info_def)
    with snoc q(5) show ?case unfolding k by auto
  qed
  then show "\<forall>s info. known_from c ps s = Some info \<longrightarrow> (\<exists>p. s = show_key c p \<and> info_agrees mints_of p info)"
    and "sp_pool ` set ps \<subseteq> dom (known_from c ps)" by blast+
qed

text \<open>A swap event's pool, when the table has it, gives repair the trade of the chain.\<close>

definition pool_in_table :: "codec \<Rightarrow> 'x move \<Rightarrow> tables \<Rightarrow> bool" where
  "pool_in_table c m t \<longleftrightarrow> (\<forall>p. move_pool m = Some p \<longrightarrow> show_key c p \<in> sp_pool ` set (pools t))"

lemma oriented_row_cong:
  assumes "f p = Some i" "g p = Some j" "base_mint i = base_mint j" "quote_mint i = quote_mint j"
  shows "oriented_row c wsol f p user base quote a fee = oriented_row c wsol g p user base quote a fee"
  using assms by (simp add: oriented_row_def orient_def)

lemma trade_for_table:
  assumes "codec_ok c" "\<forall>q \<in> set (pools t). row_agrees c mints_of q" "pool_in_table c m t" "valid_move m"
  shows "trade_for c wsol (\<lambda>p. known_from c (pools t) (show_key c p)) m =
    trade_for c wsol (chain_info mints_of) m"
proof -
  have swap: "oriented_row c wsol (\<lambda>p. known_from c (pools t) (show_key c p)) p user base quote a fee =
      oriented_row c wsol (chain_info mints_of) p user base quote a fee"
    if "move_pool m = Some p" "valid_key p" for p user base quote a fee
  proof -
    have "show_key c p \<in> dom (known_from c (pools t))"
      using known_from_agrees(2) [OF assms(1,2)] assms(3) that by (auto simp: pool_in_table_def)
    then obtain i where i: "known_from c (pools t) (show_key c p) = Some i" by blast
    then obtain p' where p': "show_key c p = show_key c p'" "info_agrees mints_of p' i"
      using known_from_agrees(1) [OF assms(1,2)] by blast
    then have "p' = p"
      using show_key_inj [OF assms(1) that(2), of p'] by (simp add: info_agrees_def)
    then have "mints_of p = Some (base_mint i, quote_mint i)"
      using p'(2) by (simp add: info_agrees_def)
    then have "chain_info mints_of p = Some \<lparr>base_mint = base_mint i, quote_mint = quote_mint i,
        base_decimals = None, quote_decimals = None\<rparr>" by (simp add: chain_info_def)
    from oriented_row_cong [of "\<lambda>p. known_from c (pools t) (show_key c p)" p i "chain_info mints_of", OF i this]
    show ?thesis by simp
  qed
  show ?thesis
    using swap assms(4) by (induction m rule: valid_move.induct) simp_all
qed

section \<open>Properties\<close>

text \<open>
  Sample data: the payloads that serde writes, and tables with one event stored without its
  trade and its pool, as after a swap in a pool that was looked up later.
\<close>

definition json_serde :: "unit serde" where
  "json_serde = \<lparr>
     buy_json = (\<lambda>e. Some (JObject [(''pool'', key_json (buy_pool e)), (''user'', key_json (buy_user e)),
       (''base_amount_out'', json_u64 (base_amount_out e)),
       (''quote_amount_in'', json_u64 (quote_amount_in e)),
       (''protocol_fee'', json_u64 (buy_protocol_fee e))])),
     sell_json = (\<lambda>e. Some (JObject [(''pool'', key_json (sell_pool e)), (''user'', key_json (sell_user e)),
       (''base_amount_in'', json_u64 (base_amount_in e)),
       (''quote_amount_out'', json_u64 (quote_amount_out e)),
       (''protocol_fee'', json_u64 (sell_protocol_fee e))])),
     curve_json = (\<lambda>e. Some (JObject [(''mint'', key_json (ct_mint e)), (''user'', key_json (ct_user e)),
       (''is_buy'', JBool (ct_is_buy e)), (''sol_amount'', json_u64 (ct_sol_amount e)),
       (''token_amount'', json_u64 (ct_token_amount e)), (''fee'', json_u64 (ct_fee e))]))\<rparr>"

lemma json_serde_ok: "serde_ok json_serde"
  by (simp add: serde_ok_def json_serde_def carries_buy_def carries_sell_def carries_curve_def)

definition sample_swap :: "unit move" where
  "sample_swap = Swap (sample_moments 0) (sample_meta ''b'' 101 False) (SwapCpiEvent (BuyEvent (sample_buy 3)))"

definition sample_event :: event_row where
  "sample_event = row_of (sample_meta ''b'' 101 False) ''pumpswap'' ''BuyEvent'' (buy_json json_serde (sample_buy 3))"

definition sample_chain_trade :: trade_row where
  "sample_chain_trade = swap_row byte_codec (sample_key 3) (sample_key 9) 7
     \<lparr>sol_amount = 50, token_amount = 1000, token_mint = sample_key 2, is_buy = True\<rparr>"

lemma sample_swap_facts:
  "valid_move sample_swap" "event_for json_serde sample_swap = Some sample_event"
  "move_pool sample_swap = Some (sample_key 3)"
  "trade_for byte_codec (sample_key 1) (chain_info sample_mints) sample_swap = Some sample_chain_trade"
  by (simp_all add: sample_swap_def sample_event_def sample_buy_def sample_meta_def sample_chain_trade_def
      chain_info_def sample_mints_def oriented_row_def orient_def)

lemma sample_swap_sol: "has_sol_side (sample_key 1) sample_mints sample_swap"
  by (simp add: has_sol_side_def sample_swap_facts sample_mints_def)




definition sample_tables :: tables where
  "sample_tables = empty_tables\<lparr>events := [sample_event],
     pools := [stored_of byte_codec (sample_key 3) sample_info]\<rparr>"

lemma sample_tables_ok: "tables_ok sample_tables"
  by (simp add: sample_tables_def tables_ok_def empty_tables_def trades_ok_def gaps_ok_def)

lemma sample_missing: "missing_trades (\<lambda>es. es) sample_tables = [sample_event]"
  by (simp add: missing_trades_def sample_tables_def empty_tables_def)


text \<open>
  Repair is idempotent: when the limit covers the events without a trade, a second
  run right after the first answers, writes nothing and leaves the tables as they are.
\<close>

theorem repair_is_idempotent:
  assumes "healthy d" "tables_ok (store d)" "scan_ok scan" "0 \<le> limit"
    and "length (missing_trades scan (store d)) \<le> nat limit"
    and "run_repair c wsol scan limit d m = (Answer r, d', m')"
  shows "\<exists>r2 d2 m2. run_repair c wsol scan limit d' m' = (Answer r2, d2, m2)
    \<and> written r2 = 0 \<and> store d2 = store d'"
proof -
  have d': "healthy d'" "store d' = (store d)\<lparr>trades := trades (store d) @ repairable c wsol scan limit (store d)\<rparr>"
    using run_repair_healthy [OF assms(1-4), of c wsol m] assms(6) by auto
  have ok': "tables_ok (store d')" unfolding d'(2) by (rule repaired_ok [OF assms(2,3)])
  have "repairable c wsol scan limit (store d') = []"
    by (rule repairable_again [OF assms(2,3,5) d'(2) ok'])
  with run_repair_healthy [OF d'(1) ok' assms(3,4), of c wsol m'] show ?thesis by auto
qed

theorem repair_is_idempotent_witness:
  "\<exists>r d m r2 d2 m2. run_repair byte_codec (sample_key 1) (\<lambda>es. es) 100
      \<lparr>store = sample_tables, script = []\<rparr> new_metrics = (Answer r, d, m)
    \<and> run_repair byte_codec (sample_key 1) (\<lambda>es. es) 100 d m = (Answer r2, d2, m2) \<and> written r2 = 0"
proof -
  let ?d = "\<lparr>store = sample_tables, script = []\<rparr>"
  have h: "healthy ?d" "tables_ok (store ?d)" "scan_ok (\<lambda>es :: event_row list. es)"
    "length (missing_trades (\<lambda>es. es) (store ?d)) \<le> nat 100"
    by (simp_all add: healthy_def sample_tables_ok scan_ok_def sample_missing)
  obtain r d m where run: "run_repair byte_codec (sample_key 1) (\<lambda>es. es) 100 ?d new_metrics = (Answer r, d, m)"
    using run_repair_healthy [OF h(1-3), of 100] by force
  from repair_is_idempotent [OF h(1-3) _ h(4) run] run show ?thesis by auto
qed



definition stuck_event :: event_row where
  "stuck_event = sample_event\<lparr>e_signature := ''a'', e_slot := 5, e_payload := JNull\<rparr>"

definition stuck_db :: db where
  "stuck_db = \<lparr>store = sample_tables\<lparr>events := [stuck_event, sample_event]\<rparr>, script = []\<rparr>"

lemma stuck_tables_ok: "tables_ok (sample_tables\<lparr>events := [stuck_event, sample_event]\<rparr>)"
  by (simp add: sample_tables_def tables_ok_def empty_tables_def trades_ok_def gaps_ok_def
      stuck_event_def sample_event_def row_of_def sample_meta_def event_key_def)

lemma stuck_build: "build c wsol kp stuck_event m = (Inl Bad_payload, m)"
  by (simp add: build_def stuck_event_def sample_event_def row_of_def build_pumpswap_def
      pubkey_from_json_def)

lemma stuck_missing: "missing_trades (\<lambda>es. es) (store stuck_db) = [stuck_event, sample_event]"
  by (simp add: missing_trades_def stuck_db_def sample_tables_def empty_tables_def stuck_event_def
      sample_event_def row_of_def sample_meta_def as_i64_def)

definition later_runs :: "codec \<Rightarrow> pubkey \<Rightarrow> (event_row list \<Rightarrow> event_row list) \<Rightarrow> i64 \<Rightarrow> metrics \<Rightarrow> nat \<Rightarrow> db \<Rightarrow> db" where
  "later_runs c wsol scan limit m n = ((\<lambda>d. fst (snd (run_repair c wsol scan limit d m))) ^^ n)"

lemma starved_run:
  assumes "healthy d" "tables_ok (store d)" "scan_ok scan" "0 \<le> limit"
    and "repairable c wsol scan limit (store d) = []"
  shows "healthy (fst (snd (run_repair c wsol scan limit d m)))
    \<and> store (fst (snd (run_repair c wsol scan limit d m))) = store d"
  using run_repair_healthy [OF assms(1-4), of c wsol m] assms(5) by force

lemma starved_runs:
  assumes "healthy d" "tables_ok (store d)" "scan_ok scan" "0 \<le> limit"
    and "repairable c wsol scan limit (store d) = []"
  shows "healthy (later_runs c wsol scan limit m n d) \<and> store (later_runs c wsol scan limit m n d) = store d"
proof (induction n)
  case (Suc n)
  then show ?case
    using starved_run [of "later_runs c wsol scan limit m n d" scan limit c wsol m] assms(2-5)
    by (simp add: later_runs_def)
qed (simp add: later_runs_def assms(1))

text \<open>
  Repair can starve. Events are loaded by slot up to the limit, and those that cannot
  be built stay without a trade: when none of the first \<open>limit\<close> events without a trade can be
  built, no number of runs writes anything, whatever could be built after them. (In the sample
  the limit is 1, and an older event with an unreadable payload hides one that can be built.)
\<close>

theorem repair_can_starve:
  assumes "healthy d" "tables_ok (store d)" "scan_ok scan" "0 \<le> limit"
    and "\<forall>e \<in> set (take (nat limit) (missing_trades scan (store d))).
      \<exists>why. fst (build c wsol (known_from c (pools (store d))) e new_metrics) = Inl why"
  shows "store (later_runs c wsol scan limit m n d) = store d"
proof -
  have "repairable c wsol scan limit (store d) = []"
    using assms(5) by (auto simp: repairable_def List.map_filter_def filter_empty_conv built_def)
  with starved_runs [OF assms(1-4)] show ?thesis by blast
qed

theorem repair_can_starve_witness:
  "missing_trades (\<lambda>es. es) (store stuck_db) = [stuck_event, sample_event]
   \<and> (\<exists>t. fst (build byte_codec (sample_key 1) (known_from byte_codec (pools (store stuck_db)))
        sample_event new_metrics) = Inr t)
   \<and> (\<forall>n. store (later_runs byte_codec (sample_key 1) (\<lambda>es. es) 1 new_metrics n stuck_db) = store stuck_db)"
proof -
  have i: "info_agrees sample_mints (sample_key 3) sample_info"
    by (simp add: info_agrees_def valid_info_def sample_info_def sample_mints_def)
  have p: "pools (store stuck_db) = pools sample_tables" by (simp add: stuck_db_def)
  have "\<forall>q \<in> set (pools sample_tables). row_agrees byte_codec sample_mints q"
    using row_agrees_stored_of [OF i] by (simp add: sample_tables_def)
  moreover have "pool_in_table byte_codec sample_swap sample_tables"
    by (simp add: pool_in_table_def sample_swap_facts sample_tables_def stored_of_def)
  ultimately have "trade_for byte_codec (sample_key 1)
      (\<lambda>p. known_from byte_codec (pools sample_tables) (show_key byte_codec p)) sample_swap
      = Some sample_chain_trade"
    using trade_for_table [OF byte_codec_ok _ _ sample_swap_facts(1)] sample_swap_facts(4) by metis
  then have "fst (build byte_codec (sample_key 1) (known_from byte_codec (pools (store stuck_db)))
        sample_event new_metrics) = Inr sample_chain_trade"
    unfolding p by (simp add: build_matches_processor [OF json_serde_ok sample_swap_facts(1,2)]
        repair_answer_def)
  moreover have "healthy stuck_db" "scan_ok (\<lambda>es :: event_row list. es)" "tables_ok (store stuck_db)"
    by (simp_all add: healthy_def stuck_db_def scan_ok_def stuck_tables_ok)
  ultimately show ?thesis
    using repair_can_starve [of stuck_db "\<lambda>es. es" 1 byte_codec "sample_key 1" new_metrics]
    by (simp add: stuck_missing stuck_build)
qed

end
