(* ===== verification/Datasources.thy ===== *)
theory Datasources
  imports Json Metrics
begin

text \<open>
  \<^verbatim>\<open>src/datasources/replay.rs\<close> and \<^verbatim>\<open>src/datasources/backfill.rs\<close>: the two sources of
  transactions the repository implements itself. Each sends updates into the pipeline's channel
  until it is done, is cancelled, or the receiver is gone.

  The JSON, base64 and protobuf readers, the conversions of transactions and the RPC client are
  library code: they are the components of \<open>replay_lib\<close> and \<open>backfill_lib\<close>, and arguments.
  \<open>cancelled i\<close> answers the \<open>i\<close>-th look at the cancellation token, \<open>accepts n\<close> whether the send
  after \<open>n\<close> successful ones succeeds.
\<close>

section \<open>Updates\<close>

record ('t, 'm) tx_update =
  up_signature :: "u8 list"
  up_transaction :: 't
  up_meta :: 'm
  up_is_vote :: bool
  up_slot :: u64
  up_index :: "u64 option"
  up_block_time :: "i64 option"

section \<open>Replaying a capture\<close>

record ('r, 'q) tx_info =
  info_signature :: "u8 list"
  info_transaction :: "'r option"
  info_meta :: "'q option"
  info_is_vote :: bool
  info_index :: u64

record ('r, 'q, 't, 'm) replay_lib =
  parse_json :: "string \<Rightarrow> json option"
  decode_base64 :: "string \<Rightarrow> u8 list option"
  decode_info :: "u8 list \<Rightarrow> ('r, 'q) tx_info option"
  read_signature :: "u8 list \<Rightarrow> u8 list option"
  create_tx :: "'r \<Rightarrow> 't option"
  create_meta :: "'q \<Rightarrow> 'm option"

text \<open>One line of the file; \<open>None\<close> is a line that is skipped.\<close>

definition line_update ::
  "('r, 'q, 't, 'm) replay_lib \<Rightarrow> string \<Rightarrow> ('t, 'm) tx_update option" where
  "line_update lib line =
     Option.bind (parse_json lib line) (\<lambda>json.
       let slot = (case as_u64_json (json_index ''slot'' json) of Some n \<Rightarrow> n | None \<Rightarrow> 0) in
       Option.bind (as_str (json_index ''data'' json)) (\<lambda>data.
       Option.bind (decode_base64 lib data) (\<lambda>bytes.
       Option.bind (decode_info lib bytes) (\<lambda>info.
       Option.bind (read_signature lib (info_signature info)) (\<lambda>sig.
       Option.bind (info_transaction info) (\<lambda>raw_tx.
       Option.bind (info_meta info) (\<lambda>raw_meta.
       Option.bind (create_tx lib raw_tx) (\<lambda>tx.
       map_option (\<lambda>meta.
         \<lparr>up_signature = sig, up_transaction = tx, up_meta = meta, up_is_vote = info_is_vote info,
          up_slot = slot, up_index = Some (info_index info), up_block_time = None\<rparr>)
         (create_meta lib raw_meta)))))))))"

record ('t, 'm) replay_state =
  delivered :: "('t, 'm) tx_update list"
  skipped :: u64
  passes :: u32
  checks :: nat
  replay_meter :: metrics

datatype flow = Next | Break_passes | Read_failed

fun replay_lines ::
  "('r, 'q, 't, 'm) replay_lib \<Rightarrow> (nat \<Rightarrow> bool) \<Rightarrow> (nat \<Rightarrow> bool) \<Rightarrow> string option list \<Rightarrow>
     ('t, 'm) replay_state \<Rightarrow> flow \<times> ('t, 'm) replay_state" where
  "replay_lines lib cancelled accepts [] s = (Next, s)"
| "replay_lines lib cancelled accepts (l # ls) s =
     (let s1 = s\<lparr>checks := checks s + 1\<rparr> in
      if cancelled (checks s) then (Break_passes, s1)
      else case l of
        None \<Rightarrow> (Read_failed, s1)
      | Some line \<Rightarrow>
          (case line_update lib line of
             None \<Rightarrow> replay_lines lib cancelled accepts ls
               (s1\<lparr>skipped := skipped s1 + 1, replay_meter := inc REPLAY_SKIPPED (replay_meter s1)\<rparr>)
           | Some u \<Rightarrow>
               if accepts (length (delivered s1))
               then replay_lines lib cancelled accepts ls (s1\<lparr>delivered := delivered s1 @ [u]\<rparr>)
               else (Break_passes, s1)))"

text \<open>
  The loop over passes; \<open>open_file i\<close> is the file as it is at the \<open>i\<close>-th opening (an element
  \<open>None\<close> is a line that cannot be read). With \<open>repeat\<close> zero the loop has no end of its own, so
  it has fuel: \<open>None\<close> means that the fuel did not suffice. The Boolean is \<open>False\<close> for an
  \<^verbatim>\<open>Err\<close>.
\<close>

fun replay_passes ::
  "('r, 'q, 't, 'm) replay_lib \<Rightarrow> (nat \<Rightarrow> bool) \<Rightarrow> (nat \<Rightarrow> bool) \<Rightarrow> (nat \<Rightarrow> string option list option) \<Rightarrow>
     u32 \<Rightarrow> nat \<Rightarrow> nat \<Rightarrow> ('t, 'm) replay_state \<Rightarrow> (bool \<times> ('t, 'm) replay_state) option" where
  "replay_passes lib cancelled accepts open_file repeat 0 i s = None"
| "replay_passes lib cancelled accepts open_file repeat (Suc fuel) i s =
     (let s1 = s\<lparr>checks := checks s + 1\<rparr> in
      if cancelled (checks s) then Some (True, s1)
      else case open_file i of
        None \<Rightarrow> Some (False, s1)
      | Some ls \<Rightarrow>
          (case replay_lines lib cancelled accepts ls s1 of
             (Read_failed, s2) \<Rightarrow> Some (False, s2)
           | (Break_passes, s2) \<Rightarrow> Some (True, s2)
           | (Next, s2) \<Rightarrow>
               let s3 = s2\<lparr>passes := passes s2 + 1\<rparr> in
               if repeat \<noteq> 0 \<and> repeat \<le> passes s3 then Some (True, s3)
               else replay_passes lib cancelled accepts open_file repeat fuel (Suc i) s3))"

definition replay_start :: "metrics \<Rightarrow> ('t, 'm) replay_state" where
  "replay_start m = \<lparr>delivered = [], skipped = 0, passes = 0, checks = 0, replay_meter = m\<rparr>"

definition replay_consume ::
  "('r, 'q, 't, 'm) replay_lib \<Rightarrow> (nat \<Rightarrow> bool) \<Rightarrow> (nat \<Rightarrow> bool) \<Rightarrow> (nat \<Rightarrow> string option list option) \<Rightarrow>
     u32 \<Rightarrow> nat \<Rightarrow> metrics \<Rightarrow> (bool \<times> ('t, 'm) replay_state) option" where
  "replay_consume lib cancelled accepts open_file repeat fuel m =
     replay_passes lib cancelled accepts open_file repeat fuel 0 (replay_start m)"

section \<open>Fetching blocks\<close>

definition RPC_MAX_ATTEMPTS :: nat where "RPC_MAX_ATTEMPTS = 4"

text \<open>
  The retry loop: the answer of each attempt is an argument, the result is the block (if any)
  and the waits between attempts, in milliseconds.
\<close>

function fetch_loop :: "(nat \<Rightarrow> 'b option) \<Rightarrow> nat \<Rightarrow> nat \<Rightarrow> 'b option \<times> nat list" where
  "fetch_loop get_block attempt wait =
     (case get_block attempt of
        Some b \<Rightarrow> (Some b, [])
      | None \<Rightarrow>
          if RPC_MAX_ATTEMPTS \<le> attempt then (None, [])
          else case fetch_loop get_block (attempt + 1) (wait * 2) of
                 (r, waits) \<Rightarrow> (r, wait # waits))"
  by pat_completeness auto
termination
  by (relation "measure (\<lambda>(get_block, attempt, wait). RPC_MAX_ATTEMPTS - attempt)") auto

declare fetch_loop.simps [simp del]

definition fetch_block :: "(nat \<Rightarrow> 'b option) \<Rightarrow> 'b option \<times> nat list" where
  "fetch_block get_block = fetch_loop get_block 1 200"

record 'x confirmed_block =
  b_time :: "i64 option"
  b_transactions :: "'x list option"

record ('x, 'q, 't, 'm) backfill_lib =
  decode_tx :: "'x \<Rightarrow> 't option"
  raw_meta :: "'x \<Rightarrow> 'q option"
  convert_meta :: "'q \<Rightarrow> 'm option"
  tx_signatures :: "'t \<Rightarrow> u8 list list"

text \<open>One transaction of a block; \<open>None\<close> is one that is passed over.\<close>

definition block_update ::
  "('x, 'q, 't, 'm) backfill_lib \<Rightarrow> u64 \<Rightarrow> i64 option \<Rightarrow> nat \<Rightarrow> 'x \<Rightarrow> ('t, 'm) tx_update option" where
  "block_update lib slot time index x =
     Option.bind (decode_tx lib x) (\<lambda>tx.
     Option.bind (raw_meta lib x) (\<lambda>raw.
     Option.bind (convert_meta lib raw) (\<lambda>meta.
       (case tx_signatures lib tx of
          [] \<Rightarrow> None
        | sig # _ \<Rightarrow> Some
            \<lparr>up_signature = sig, up_transaction = tx, up_meta = meta, up_is_vote = False,
             up_slot = slot, up_index = Some (of_nat index), up_block_time = time\<rparr>))))"

fun backfill_block ::
  "('x, 'q, 't, 'm) backfill_lib \<Rightarrow> (nat \<Rightarrow> bool) \<Rightarrow> u64 \<Rightarrow> i64 option \<Rightarrow> nat \<Rightarrow> 'x list \<Rightarrow>
     ('t, 'm) tx_update list \<Rightarrow> bool \<times> ('t, 'm) tx_update list" where
  "backfill_block lib accepts slot time index [] out = (True, out)"
| "backfill_block lib accepts slot time index (x # xs) out =
     (case block_update lib slot time index x of
        None \<Rightarrow> backfill_block lib accepts slot time (Suc index) xs out
      | Some u \<Rightarrow>
          if accepts (length out)
          then backfill_block lib accepts slot time (Suc index) xs (out @ [u])
          else (False, out))"

fun backfill_slots ::
  "('x, 'q, 't, 'm) backfill_lib \<Rightarrow> (nat \<Rightarrow> bool) \<Rightarrow> (nat \<Rightarrow> bool) \<Rightarrow>
     (u64 \<Rightarrow> nat \<Rightarrow> 'x confirmed_block option) \<Rightarrow> nat \<Rightarrow> u64 list \<Rightarrow> ('t, 'm) tx_update list \<Rightarrow>
     ('t, 'm) tx_update list" where
  "backfill_slots lib cancelled accepts get_block i [] out = out"
| "backfill_slots lib cancelled accepts get_block i (slot # ss) out =
     (if cancelled i then out
      else case fst (fetch_block (get_block slot)) of
        None \<Rightarrow> backfill_slots lib cancelled accepts get_block (Suc i) ss out
      | Some b \<Rightarrow>
          (case b_transactions b of
             None \<Rightarrow> backfill_slots lib cancelled accepts get_block (Suc i) ss out
           | Some xs \<Rightarrow>
               (case backfill_block lib accepts slot (b_time b) 0 xs out of
                  (False, out') \<Rightarrow> out'
                | (True, out') \<Rightarrow>
                    backfill_slots lib cancelled accepts get_block (Suc i) ss out')))"

text \<open>
  \<open>slots\<close> is the answer of \<^verbatim>\<open>get_blocks\<close> for the range, \<open>None\<close> an RPC error, which is the only
  \<^verbatim>\<open>Err\<close>.
\<close>

definition backfill_consume ::
  "('x, 'q, 't, 'm) backfill_lib \<Rightarrow> (nat \<Rightarrow> bool) \<Rightarrow> (nat \<Rightarrow> bool) \<Rightarrow>
     (u64 \<Rightarrow> nat \<Rightarrow> 'x confirmed_block option) \<Rightarrow> u64 list option \<Rightarrow> ('t, 'm) tx_update list option" where
  "backfill_consume lib cancelled accepts get_block slots =
     map_option (\<lambda>ss. backfill_slots lib cancelled accepts get_block 0 ss []) slots"

section \<open>What a replay sends\<close>

definition usable :: "('r, 'q, 't, 'm) replay_lib \<Rightarrow> string list \<Rightarrow> ('t, 'm) tx_update list" where
  "usable lib ls = List.map_filter (line_update lib) ls"

definition unusable :: "('r, 'q, 't, 'm) replay_lib \<Rightarrow> string list \<Rightarrow> nat" where
  "unusable lib ls = length (filter (\<lambda>l. line_update lib l = None) ls)"

definition after_lines ::
  "('r, 'q, 't, 'm) replay_lib \<Rightarrow> string list \<Rightarrow> ('t, 'm) replay_state \<Rightarrow> ('t, 'm) replay_state \<Rightarrow> bool" where
  "after_lines lib ls s s' \<longleftrightarrow> delivered s' = delivered s @ usable lib ls
     \<and> skipped s' = skipped s + of_nat (unusable lib ls)
     \<and> get REPLAY_SKIPPED (replay_meter s') = get REPLAY_SKIPPED (replay_meter s) + of_nat (unusable lib ls)
     \<and> passes s' = passes s"

lemma replay_lines_all:
  "\<exists>s'. replay_lines lib (\<lambda>_. False) (\<lambda>_. True) (map Some ls) s = (Next, s') \<and> after_lines lib ls s s'"
proof (induction ls arbitrary: s)
  case Nil
  then show ?case by (simp add: after_lines_def usable_def unusable_def List.map_filter_simps)
next
  case (Cons l ls)
  show ?case
  proof (cases "line_update lib l")
    case None
    let ?s = "s\<lparr>checks := checks s + 1, skipped := skipped s + 1,
      replay_meter := inc REPLAY_SKIPPED (replay_meter s)\<rparr>"
    from Cons [of ?s] None show ?thesis
      by (auto simp: after_lines_def usable_def unusable_def List.map_filter_simps algebra_simps)
  next
    case (Some u)
    from Cons [of "s\<lparr>checks := checks s + 1, delivered := delivered s @ [u]\<rparr>"] Some show ?thesis
      by (auto simp: after_lines_def usable_def unusable_def List.map_filter_simps)
  qed
qed

lemma replay_passes_all:
  assumes "\<And>i. open_file i = Some (map Some ls)"
  shows "unat (passes s) + Suc k = unat repeat \<Longrightarrow> Suc k \<le> fuel \<Longrightarrow>
    \<exists>s'. replay_passes lib (\<lambda>_. False) (\<lambda>_. True) open_file repeat fuel i s = Some (True, s')
      \<and> delivered s' = delivered s @ concat (replicate (Suc k) (usable lib ls))
      \<and> skipped s' = skipped s + of_nat (Suc k * unusable lib ls)
      \<and> get REPLAY_SKIPPED (replay_meter s') =
          get REPLAY_SKIPPED (replay_meter s) + of_nat (Suc k * unusable lib ls)"
proof (induction k arbitrary: s fuel i)
  case 0
  then obtain f where f: "fuel = Suc f" by (cases fuel) auto
  obtain s2 where s2: "replay_lines lib (\<lambda>_. False) (\<lambda>_. True) (map Some ls) (s\<lparr>checks := checks s + 1\<rparr>) = (Next, s2)"
      "after_lines lib ls s s2"
    using replay_lines_all [of lib ls "s\<lparr>checks := checks s + 1\<rparr>"] by (auto simp: after_lines_def)
  have "unat (passes s) + 1 < 2 ^ 32"
    using 0(1) unsigned_less [of repeat, where ?'a = nat] by simp
  then have "passes s + 1 = repeat" using 0(1) by (simp add: word_unat_eq_iff unat_word_ariths)
  moreover have "repeat \<noteq> 0" using 0(1) by auto
  ultimately show ?case
    using s2 by (auto simp: f assms [of i] after_lines_def Let_def)
next
  case (Suc k)
  then obtain f where f: "fuel = Suc f" "Suc k \<le> f" by (cases fuel) auto
  obtain s2 where s2: "replay_lines lib (\<lambda>_. False) (\<lambda>_. True) (map Some ls) (s\<lparr>checks := checks s + 1\<rparr>) = (Next, s2)"
      "after_lines lib ls s s2"
    using replay_lines_all [of lib ls "s\<lparr>checks := checks s + 1\<rparr>"] by (auto simp: after_lines_def)
  let ?s3 = "s2\<lparr>passes := passes s2 + 1\<rparr>"
  have lt: "unat (passes s) + 1 < 2 ^ 32"
    using Suc.prems(1) unsigned_less [of repeat, where ?'a = nat] by simp
  then have p: "unat (passes s + 1) = unat (passes s) + 1"
    by (simp add: unat_word_ariths)
  then have "\<not> repeat \<le> passes s + 1" using Suc.prems(1) by (simp add: word_le_nat_alt)
  moreover obtain s' where "replay_passes lib (\<lambda>_. False) (\<lambda>_. True) open_file repeat f (Suc i) ?s3 = Some (True, s')"
      "delivered s' = delivered s2 @ concat (replicate (Suc k) (usable lib ls))"
      "skipped s' = skipped s2 + of_nat (Suc k * unusable lib ls)"
      "get REPLAY_SKIPPED (replay_meter s') =
          get REPLAY_SKIPPED (replay_meter s2) + of_nat (Suc k * unusable lib ls)"
    using Suc.IH [of ?s3 f "Suc i"] Suc.prems(1) f(2) p s2(2) by (auto simp: after_lines_def)
  ultimately show ?case
    using s2 by (auto simp: f(1) assms [of i] after_lines_def Let_def algebra_simps)
qed

text \<open>One undisturbed pass over a file, as \<^verbatim>\<open>verify\<close>, the tests and a plain replay make it.\<close>

lemma replay_once:
  fixes lib :: "('r, 'q, 't, 'm) replay_lib"
  assumes "\<And>i. open_file i = Some (map Some ls)"
  shows "\<exists>s. replay_consume lib (\<lambda>_. False) (\<lambda>_. True) open_file 1 1 m = Some (True, s)
    \<and> delivered s = usable lib ls \<and> skipped s = of_nat (unusable lib ls)"
proof -
  define s0 :: "('t, 'm) replay_state" where "s0 = replay_start m"
  have "unat (passes s0) + Suc 0 = unat (1 :: u32)" by (simp add: s0_def replay_start_def)
  from replay_passes_all [of open_file ls, OF assms this, of 1 lib 0] show ?thesis
    by (auto simp: replay_consume_def s0_def replay_start_def)
qed

lemma replay_once_delivers:
  assumes "replay_consume lib (\<lambda>_. False) (\<lambda>_. True) open_file 1 1 m = Some (True, s)"
    and "\<And>i. open_file i = Some (map Some ls)"
  shows "delivered s = usable lib ls"
  using replay_once [of open_file ls lib m, OF assms(2)] assms(1) by auto

lemma replay_passes_endless:
  assumes "\<And>i. open_file i = Some (map Some ls)"
  shows "replay_passes lib (\<lambda>_. False) (\<lambda>_. True) open_file 0 fuel i s = None"
proof (induction fuel arbitrary: i s)
  case (Suc fuel)
  obtain s2 where "replay_lines lib (\<lambda>_. False) (\<lambda>_. True) (map Some ls) (s\<lparr>checks := checks s + 1\<rparr>) = (Next, s2)"
    using replay_lines_all by blast
  with Suc show ?case by (simp add: assms [of i])
qed simp

section \<open>What a backfill sends\<close>

definition updates_of_block ::
  "('x, 'q, 't, 'm) backfill_lib \<Rightarrow> u64 \<Rightarrow> 'x confirmed_block \<Rightarrow> ('t, 'm) tx_update list" where
  "updates_of_block lib slot b = (case b_transactions b of
      None \<Rightarrow> []
    | Some xs \<Rightarrow> List.map_filter (\<lambda>(i, x). block_update lib slot (b_time b) i x) (enumerate 0 xs))"

definition updates_of_slot ::
  "('x, 'q, 't, 'm) backfill_lib \<Rightarrow> (u64 \<Rightarrow> nat \<Rightarrow> 'x confirmed_block option) \<Rightarrow> u64 \<Rightarrow>
     ('t, 'm) tx_update list" where
  "updates_of_slot lib get_block slot = (case fst (fetch_block (get_block slot)) of
      None \<Rightarrow> [] | Some b \<Rightarrow> updates_of_block lib slot b)"

lemma backfill_block_all:
  "backfill_block lib (\<lambda>_. True) slot time i xs out =
     (True, out @ List.map_filter (\<lambda>(i, x). block_update lib slot time i x) (enumerate i xs))"
  by (induction xs arbitrary: i out) (auto simp: List.map_filter_simps split: option.splits)

lemma backfill_slots_all:
  "backfill_slots lib (\<lambda>_. False) (\<lambda>_. True) get_block i ss out =
     out @ concat (map (updates_of_slot lib get_block) ss)"
  by (induction ss arbitrary: i out)
    (auto simp: updates_of_slot_def updates_of_block_def backfill_block_all split: option.splits)

lemma fetch_block_eq:
  "fetch_block g =
     (case (g 1, g 2, g 3, g 4) of
        (Some b, _) \<Rightarrow> (Some b, [])
      | (None, Some b, _) \<Rightarrow> (Some b, [200])
      | (None, None, Some b, _) \<Rightarrow> (Some b, [200, 400])
      | (None, None, None, r) \<Rightarrow> (r, [200, 400, 800]))"
  by (simp add: fetch_block_def fetch_loop.simps [of g] RPC_MAX_ATTEMPTS_def numeral_eq_Suc
      split: option.split)

section \<open>Properties\<close>

text \<open>
  Claim C24. A replay sends the file, the stated number of times: when nothing cancels it and
  every line can be read, it ends within as many passes as asked for, having sent the updates of
  the usable lines in order once per pass and counted every other line of every pass as skipped.
\<close>

theorem replay_sends_the_file:
  assumes "repeat \<noteq> 0" "unat repeat \<le> fuel" "\<And>i. open_file i = Some (map Some ls)"
  shows "\<exists>s. replay_consume lib (\<lambda>_. False) (\<lambda>_. True) open_file repeat fuel m = Some (True, s)
    \<and> delivered s = concat (replicate (unat repeat) (List.map_filter (line_update lib) ls))
    \<and> get REPLAY_SKIPPED (replay_meter s) = get REPLAY_SKIPPED m
        + of_nat (unat repeat * length (filter (\<lambda>l. line_update lib l = None) ls))"
proof -
  obtain k where k: "unat repeat = Suc k" using assms(1) by (metis not0_implies_Suc unat_eq_0)
  have "unat (passes (replay_start m :: ('a, 'b) replay_state)) + Suc k = unat repeat"
    by (simp add: replay_start_def k)
  from replay_passes_all [of open_file ls, OF assms(3) this, of fuel lib 0] assms(2) k show ?thesis
    by (auto simp: replay_consume_def replay_start_def usable_def unusable_def)
qed

definition sample_lib :: "(unit, unit, unit, unit) replay_lib" where
  "sample_lib = \<lparr>parse_json = (\<lambda>s. if s = ''bad'' then None else
       Some (JObject [(''slot'', json_u64 7), (''data'', JString s)])),
     decode_base64 = (\<lambda>s. Some []),
     decode_info = (\<lambda>b. Some \<lparr>info_signature = [1, 2], info_transaction = Some (), info_meta = Some (),
        info_is_vote = False, info_index = 0\<rparr>),
     read_signature = Some, create_tx = Some, create_meta = Some\<rparr>"

theorem replay_sends_the_file_witness:
  "\<exists>s. replay_consume sample_lib (\<lambda>_. False) (\<lambda>_. True) (\<lambda>_. Some (map Some [''x'', ''bad''])) 2 5 new_metrics
      = Some (True, s)
    \<and> map up_slot (delivered s) = [7, 7] \<and> get REPLAY_SKIPPED (replay_meter s) = 2"
proof -
  have two: "unat (2 :: u32) = Suc (Suc 0)" by simp
  show ?thesis
    using replay_sends_the_file [of 2 5 "\<lambda>_. Some (map Some [''x'', ''bad''])" "[''x'', ''bad'']" sample_lib
        new_metrics]
    unfolding two
    by (auto simp: sample_lib_def line_update_def json_index_def List.map_filter_simps get_def
        new_metrics_def)
qed

text \<open>
  A replay with repeat 0 ends only from outside: as long as nothing cancels it and the
  file can be read, no number of passes finishes it.
\<close>

theorem replay_zero_never_ends:
  assumes "\<And>i. open_file i = Some (map Some ls)"
  shows "replay_consume lib (\<lambda>_. False) (\<lambda>_. True) open_file 0 fuel m = None"
  unfolding replay_consume_def by (rule replay_passes_endless [OF assms])

theorem replay_zero_never_ends_witness:
  "replay_consume sample_lib (\<lambda>_. False) (\<lambda>_. True) (\<lambda>_. Some (map Some [''x''])) 0 1000 new_metrics = None"
  by (rule replay_zero_never_ends) (rule refl)

text \<open>
  Claim C25. A block is asked for at most four times, with waits of 200, 400 and 800 ms after the
  failures: the answer is the first success among the first four attempts, and the waits are
  those before it.
\<close>

theorem fetch_block_retries:
  "let tries = map get_block [1, 2, 3, 4]; failed = takeWhile (\<lambda>r. r = None) tries in
     fst (fetch_block get_block) = (if failed = tries then None else tries ! length failed)
     \<and> snd (fetch_block get_block) = take (length failed) [200, 400, 800]"
  by (cases "get_block 1"; cases "get_block 2"; cases "get_block 3"; cases "get_block 4")
    (simp_all add: fetch_block_eq Let_def)

text \<open>
  A backfill that nothing interrupts sends, slot by slot and in block order, every
  transaction that can be decoded of every block it obtained; a slot whose block it gave up on
  contributes nothing, and the source still ends without an error.
\<close>

theorem backfill_sends_obtained_blocks:
  "backfill_consume lib (\<lambda>_. False) (\<lambda>_. True) get_block slots =
     map_option (\<lambda>ss. concat (map (updates_of_slot lib get_block)
       (filter (\<lambda>s. list_ex (\<lambda>k. get_block s k \<noteq> None) [1, 2, 3, 4]) ss))) slots"
proof -
  have e: "updates_of_slot lib get_block s = []" if "\<not> list_ex (\<lambda>k. get_block s k \<noteq> None) [1, 2, 3, 4]" for s
    using that by (simp add: updates_of_slot_def fetch_block_eq)
  have "concat (map (updates_of_slot lib get_block) ss) = concat (map (updates_of_slot lib get_block)
      (filter (\<lambda>s. list_ex (\<lambda>k. get_block s k \<noteq> None) [1, 2, 3, 4]) ss))" for ss
    by (induction ss) (use e in auto)
  then show ?thesis by (simp add: backfill_consume_def backfill_slots_all)
qed

end
