(* ===== verification/Pipeline.thy ===== *)
theory Pipeline
  imports Repair
begin

text \<open>
  \<^verbatim>\<open>src/pipeline.rs\<close>: how the parts of a run are put together. The resolver is spawned (and
  primed) when there is an RPC client, the writer when there is a database, and both processors
  share what \<open>indexer\<close> holds. When the source has ended the pipeline is dropped, the writer's
  senders with it, and the writer task is awaited.

  Between these, the framework (a third-party crate) calls the processors with the decoded
  instructions of the source's updates, in order: a run is a sequence of \<open>pl_event\<close>s, in which
  the calls, the hand-overs of rows to the writer's channel, the writer's turns, the resolver's
  turns and statements of other connections are interleaved in any way the code allows.

  All parts use one database. A statement of one part is seen by the others: \<open>share\<close> puts the
  new tables behind every connection.
\<close>

record pipeline =
  ix :: indexer
  wr :: "writer option"
  handed :: nat

datatype 'x pl_event =
    Process "'x move"
  | Hand_over
  | Write action
  | Elsewhere tables

definition share :: "tables \<Rightarrow> pipeline \<Rightarrow> pipeline" where
  "share t g = g\<lparr>
     ix := (ix g)\<lparr>resolver_of :=
       map_option (\<lambda>r. r\<lparr>pool_db := map_option (\<lambda>d. d\<lparr>store := t\<rparr>) (pool_db r)\<rparr>) (resolver_of (ix g))\<rparr>,
     wr := map_option (\<lambda>w. w\<lparr>db := (db w)\<lparr>store := t\<rparr>\<rparr>) (wr g)\<rparr>"

definition resolver_tables :: "indexer \<Rightarrow> tables option" where
  "resolver_tables s = map_option store (Option.bind (resolver_of s) pool_db)"

definition sending :: "pipeline \<Rightarrow> bool" where
  "sending g \<longleftrightarrow> (case wr g of None \<Rightarrow> True | Some w \<Rightarrow> \<not> senders_dropped w)"

fun from_source :: "'x move \<Rightarrow> bool" where
  "from_source (Lookup fetch decode) = False"
| "from_source m = True"

text \<open>
  What the other connections may do while a pipeline runs: the gap recorder writes gaps, other
  processes may write pools. The tables the writer works on are its own.
\<close>

definition writer_view :: "tables \<Rightarrow> tables" where
  "writer_view t = t\<lparr>pools := [], stream_gaps := [], next_gap_id := 1\<rparr>"

fun pipeline_step ::
  "(db_error \<Rightarrow> string) \<Rightarrow> codec \<Rightarrow> pubkey \<Rightarrow> 'x serde \<Rightarrow> 'x pl_event \<Rightarrow> pipeline \<Rightarrow> pipeline option" where
  "pipeline_step err_text c wsol v (Process m) g =
     (if from_source m \<and> \<not> sending g then None
      else map_option (\<lambda>s. case resolver_tables s of
               None \<Rightarrow> g\<lparr>ix := s\<rparr>
             | Some t \<Rightarrow> share t (g\<lparr>ix := s\<rparr>)) (indexer_step c wsol v m (ix g)))"
| "pipeline_step err_text c wsol v Hand_over g =
     (case (wr g, outbox (ix g)) of
        (Some w, Some rows) \<Rightarrow>
          if handed g < length rows
          then map_option (\<lambda>w'. g\<lparr>wr := Some w', handed := handed g + 1\<rparr>)
                 (writer_step err_text (Send (rows ! handed g)) w)
          else None
      | _ \<Rightarrow> None)"
| "pipeline_step err_text c wsol v (Write a) g =
     (case (wr g, a) of
        (None, _) \<Rightarrow> None
      | (_, Send r) \<Rightarrow> None
      | (Some w, _) \<Rightarrow>
          if a = Drop_senders \<and> outbox (ix g) \<noteq> None \<and> handed g < length (the (outbox (ix g))) then None
          else map_option (\<lambda>w'. share (store (db w')) (g\<lparr>wr := Some w'\<rparr>)) (writer_step err_text a w))"
| "pipeline_step err_text c wsol v (Elsewhere t) g =
     (case wr g of
        None \<Rightarrow> Some g
      | Some w \<Rightarrow> if writer_view t = writer_view (store (db w)) then Some (share t g) else None)"

fun pipeline_run ::
  "(db_error \<Rightarrow> string) \<Rightarrow> codec \<Rightarrow> pubkey \<Rightarrow> 'x serde \<Rightarrow> 'x pl_event list \<Rightarrow> pipeline \<Rightarrow> pipeline option" where
  "pipeline_run err_text c wsol v [] g = Some g"
| "pipeline_run err_text c wsol v (e # es) g =
     Option.bind (pipeline_step err_text c wsol v e g) (pipeline_run err_text c wsol v es)"

text \<open>
  The set-up of \<^verbatim>\<open>run_pipeline\<close>: with an RPC client there is a resolver, which is primed, and an
  error of priming ends the run before anything else starts. \<open>answers\<close> are the replies the
  writer's connection will get; those of the resolver's are the script of \<open>d\<close>.
\<close>

definition start_pipeline ::
  "codec \<Rightarrow> bool \<Rightarrow> bool \<Rightarrow> db option \<Rightarrow> reply list \<Rightarrow> disconnection chan option \<Rightarrow> metrics \<Rightarrow>
     prime_error + pipeline" where
  "start_pipeline c rpc collect d answers gaps m =
     (let finish = (\<lambda>r. Inr \<lparr>ix = \<lparr>resolver_of = r, requested = Map.empty,
              event_ids = (if collect then Some [] else None),
              outbox = (if d = None then None else Some []),
              slots = \<lparr>watermark = 0, gaps_tx = gaps, watch_meter = m\<rparr>, stats = m\<rparr>,
            wr = map_option (\<lambda>d. spawn_writer (d\<lparr>script := answers\<rparr>) WRITE_QUEUE_SIZE m) d, handed = 0\<rparr>)
      in if rpc then
           (case prime c (new_resolver POOL_LOOKUP_QUEUE_SIZE d m) of
              (Inl e, r) \<Rightarrow> Inl e
            | (Inr n, r) \<Rightarrow> finish (Some r))
         else finish None)"

text \<open>A run that has ended: the source is done, and the writer, if there is one, has stopped.\<close>

definition ended :: "pipeline \<Rightarrow> bool" where
  "ended g \<longleftrightarrow> (case wr g of None \<Rightarrow> True | Some w \<Rightarrow> status w = Stopped)"

definition run_pipeline ::
  "(db_error \<Rightarrow> string) \<Rightarrow> codec \<Rightarrow> pubkey \<Rightarrow> 'x serde \<Rightarrow> bool \<Rightarrow> bool \<Rightarrow> db option \<Rightarrow>
     reply list \<Rightarrow> disconnection chan option \<Rightarrow> metrics \<Rightarrow> 'x pl_event list \<Rightarrow> prime_error + pipeline option" where
  "run_pipeline err_text c wsol v rpc collect d answers gaps m es =
     (case start_pipeline c rpc collect d answers gaps m of
        Inl e \<Rightarrow> Inl e
      | Inr g \<Rightarrow> Inr (case pipeline_run err_text c wsol v es g of
            None \<Rightarrow> None
          | Some g' \<Rightarrow> if ended g' then Some g' else None))"

section \<open>The writer's tables are its own\<close>

text \<open>
  The writer's statements do the same on the tables and on the writer's view of them, so the
  writer inside a pipeline runs as it would alone.
\<close>

definition viewed :: "writer \<Rightarrow> writer" where
  "viewed w = w\<lparr>db := (db w)\<lparr>store := writer_view (store (db w))\<rparr>\<rparr>"

definition view_db :: "db \<Rightarrow> db" where
  "view_db d = d\<lparr>store := writer_view (store d)\<rparr>"

definition framed :: "(tables \<Rightarrow> db_error + 'a \<times> tables) \<Rightarrow> bool" where
  "framed stmt \<longleftrightarrow> (\<forall>t. stmt (writer_view t) = map_sum id (apsnd writer_view) (stmt t))"

definition framed_op :: "(db \<Rightarrow> 'a outcome \<times> db) \<Rightarrow> bool" where
  "framed_op f \<longleftrightarrow> (\<forall>d. f (view_db d) = apsnd view_db (f d))"

named_theorems framing \<open>operations of the writer that do not look beyond its view\<close>

lemma script_view [simp]: "script (view_db d) = script d"
  by (simp add: view_db_def)

lemma writer_view_idem [simp]: "writer_view (writer_view t) = writer_view t"
  by (simp add: writer_view_def)

lemma framed_execute [framing]:
  assumes "framed stmt"
  shows "framed_op (execute stmt)"
proof -
  have f: "stmt (writer_view t) = map_sum id (apsnd writer_view) (stmt t)" for t
    using assms by (simp add: framed_def)
  have "execute stmt (view_db d) = apsnd view_db (execute stmt d)" for d
    by (cases "script d")
      (auto simp: execute_def next_reply_def landed_def view_db_def f split: reply.splits sum.splits)
  then show ?thesis by (simp add: framed_op_def)
qed

lemma framed_and_then [framing]:
  "framed_op f \<Longrightarrow> (\<And>x. framed_op (g x)) \<Longrightarrow> framed_op (and_then f g)"
  by (auto simp: framed_op_def and_then_def split: prod.splits outcome.splits)

lemma framed_return [framing]: "framed_op (return x)"
  by (simp add: framed_op_def return_def)

lemma framed_transaction [framing]:
  assumes "framed_op body"
  shows "framed_op (transaction body)"
proof -
  have null: "framed_op (execute (\<lambda>t. Inr ((), t)))"
    by (rule framed_execute) (simp add: framed_def)
  have fin: "execute (\<lambda>_. Inr ((), writer_view t)) (view_db d) = apsnd view_db (execute (\<lambda>_. Inr ((), t)) d)"
    for t and d :: db
    by (cases "script d")
      (auto simp: execute_def next_reply_def landed_def view_db_def split: reply.splits)
  have vs: "view_db d1\<lparr>store := writer_view t\<rparr> = view_db (d1\<lparr>store := t\<rparr>)" for d1 :: db and t
    by (simp add: view_db_def)
  have st: "store (view_db d) = writer_view (store d)" for d :: db by (simp add: view_db_def)
  show ?thesis
    unfolding framed_op_def
  proof
    fix d :: db
    obtain r d0 where 1: "execute (\<lambda>t. Inr ((), t)) d = (r, d0)" by fastforce
    have v1: "execute (\<lambda>t. Inr ((), t)) (view_db d) = (r, view_db d0)"
      using null 1 by (simp add: framed_op_def)
    obtain r1 d1 where 2: "body d0 = (r1, d1)" by fastforce
    have v2: "body (view_db d0) = (r1, view_db d1)" using assms 2 by (simp add: framed_op_def)
    show "transaction body (view_db d) = apsnd view_db (transaction body d)"
      by (cases r; cases r1) (simp_all add: transaction_def 1 v1 2 v2 st vs fin)
  qed
qed

lemma view_fields [simp]:
  "events (writer_view t) = events t" "trades (writer_view t) = trades t"
  "checkpoint (writer_view t) = checkpoint t" "dead_letters (writer_view t) = dead_letters t"
  by (simp_all add: writer_view_def)

lemma framed_insert_trades: "framed (insert_trades rows)"
  by (auto simp: framed_def insert_trades_def Let_def writer_view_def split: option.splits)

lemma framed_write_events [framing]: "framed_op (write_events rows)"
  unfolding write_events_def
  by (auto intro!: framing simp: framed_def events_stmt_def writer_view_def)

lemma framed_write_trades [framing]: "framed_op (write_trades rows)"
proof -
  have "framed (trades_stmt rows)" for rows
    using framed_insert_trades [of rows]
    by (auto simp: framed_def trades_stmt_def split: sum.splits prod.splits)
  then show ?thesis unfolding write_trades_def Let_def by (auto intro!: framing)
qed

lemma framed_write_checkpoint [framing]: "framed_op (write_checkpoint slot sig)"
  unfolding write_checkpoint_def by (rule framed_execute) (simp add: framed_def writer_view_def)

lemma framed_write_dead_letters [framing]: "framed_op (write_dead_letters rows err)"
  unfolding write_dead_letters_def
  by (auto intro!: framing simp: framed_def writer_view_def)

lemma framed_write_batch [framing]: "framed_op (write_batch rows slot sig)"
  unfolding write_batch_def by (intro framing)

lemma viewed_db: "viewed w = w\<lparr>db := view_db (db w)\<rparr>"
  by (simp add: viewed_def view_db_def)

lemma viewed_fields [simp]:
  "queue (viewed w) = queue w" "batch (viewed w) = batch w" "senders_dropped (viewed w) = senders_dropped w"
  "meter (viewed w) = meter w" "unparked (viewed w) = unparked w" "status (viewed w) = status w"
  by (simp_all add: viewed_def)

lemma park_viewed: "park err (viewed w) = viewed (park err w)"
proof -
  obtain r d where w: "write_dead_letters (batch w) err (db w) = (r, d)" by fastforce
  then have "write_dead_letters (batch w) err (view_db (db w)) = (r, view_db d)"
    using framed_write_dead_letters [of "batch w" err] by (simp add: framed_op_def)
  with w show ?thesis by (cases r) (simp_all add: park_def viewed_db)
qed

lemma flush_viewed: "flush err_text clock (viewed w) = viewed (flush err_text clock w)"
proof (cases "max_by_key row_slot (batch w)")
  case None
  then show ?thesis by (simp add: flush_def)
next
  case (Some newest)
  let ?sig = "e_signature (pw_event newest)"
  obtain r d where w: "write_batch (batch w) (row_slot newest) ?sig (db w) = (r, d)" by fastforce
  then have v: "write_batch (batch w) (row_slot newest) ?sig (view_db (db w)) = (r, view_db d)"
    using framed_write_batch [of "batch w" "row_slot newest" ?sig] by (simp add: framed_op_def)
  have p: "park err (viewed w\<lparr>db := view_db d, meter := m\<rparr>) = viewed (park err (w\<lparr>db := d, meter := m\<rparr>))"
    for err m
  proof -
    have "viewed w\<lparr>db := view_db d, meter := m\<rparr> = viewed (w\<lparr>db := d, meter := m\<rparr>)"
      by (simp add: viewed_db)
    then show ?thesis by (simp only: park_viewed)
  qed
  have dv: "db (viewed w) = view_db (db w)" by (simp add: viewed_db)
  have u: "viewed w\<lparr>db := view_db d, meter := m, batch := []\<rparr> = viewed (w\<lparr>db := d, meter := m, batch := []\<rparr>)"
    for m by (simp add: viewed_db)
  show ?thesis
    using Some w v by (cases r) (simp_all add: flush_def dv p u)
qed

lemma stop_viewed: "stop (viewed w) = viewed (stop w)"
  by (simp add: stop_def viewed_def)

lemma writer_step_viewed:
  "writer_step err_text a (viewed w) = map_option viewed (writer_step err_text a w)"
proof (cases a)
  case (Send r)
  then show ?thesis
    by (cases "try_send r (queue w)") (simp_all add: viewed_def)
next
  case (Receive clock)
  show ?thesis
  proof (cases "recv (queue w)")
    case None
    with Receive show ?thesis by (simp add: flush_viewed stop_viewed)
  next
    case (Some rq)
    obtain r q where rq: "rq = (r, q)" by fastforce
    have "viewed w\<lparr>queue := q, batch := batch w @ [r]\<rparr> = viewed (w\<lparr>queue := q, batch := batch w @ [r]\<rparr>)"
      by (simp add: viewed_def)
    with Receive Some rq show ?thesis
      by (simp add: Let_def flush_viewed)
  qed
next
  case (Tick clock)
  then show ?thesis by (simp add: flush_viewed)
next
  case Drop_senders
  then show ?thesis by (simp add: viewed_def)
qed

section \<open>A pipeline's writer, its processors\<close>

lemma share_parts [simp]:
  "outbox (ix (share t g)) = outbox (ix g)" "event_ids (ix (share t g)) = event_ids (ix g)"
  "handed (share t g) = handed g" "slots (ix (share t g)) = slots (ix g)"
  "stats (ix (share t g)) = stats (ix g)" "requested (ix (share t g)) = requested (ix g)"
  "wr (share t g) = map_option (\<lambda>w. w\<lparr>db := (db w)\<lparr>store := t\<rparr>\<rparr>) (wr g)"
  by (simp_all add: share_def)

text \<open>The connections see the same tables, and the resolver's statements keep the writer's view.\<close>

definition joined :: "pipeline \<Rightarrow> bool" where
  "joined g \<longleftrightarrow> (\<forall>w t. wr g = Some w \<longrightarrow> resolver_tables (ix g) = Some t \<longrightarrow> store (db w) = t)"

lemma joined_share: "joined (share t g)"
  by (auto simp: joined_def share_def resolver_tables_def bind_eq_Some_conv)

definition but_pools :: "tables \<Rightarrow> tables" where
  "but_pools t = t\<lparr>pools := []\<rparr>"

lemma but_pools_view: "but_pools t = but_pools t' \<Longrightarrow> writer_view t = writer_view t'"
proof -
  have "writer_view t = writer_view (but_pools t)" for t by (simp add: writer_view_def but_pools_def)
  then show "but_pools t = but_pools t' \<Longrightarrow> writer_view t = writer_view t'" by metis
qed

lemma but_pools_gaps: "but_pools t = but_pools t' \<Longrightarrow> stream_gaps t = stream_gaps t'"
  by (metis (no_types) but_pools_def tables.select_convs(6) tables.surjective tables.update_convs(3))

lemma save_view:
  assumes "pool_db r = Some d" "pool_db (save c p info r) = Some d'"
  shows "but_pools (store d') = but_pools (store d)"
proof -
  obtain d'' where "pool_db (save c p info r) = Some d''" "store d'' = store d \<or>
     store d'' = (store d)\<lparr>pools := upsert_pool (stored_of c p info) (pools (store d))\<rparr>"
    using save_store [OF assms(1)] by metis
  with assms(2) show ?thesis by (auto simp: but_pools_def)
qed

lemma save_some: "pool_db r \<noteq> None \<longleftrightarrow> pool_db (save c p info r) \<noteq> None"
  by (cases "pool_db r") (auto simp: save_def split: prod.splits outcome.splits)

definition same_view :: "resolver \<Rightarrow> resolver \<Rightarrow> bool" where
  "same_view r r' \<longleftrightarrow> rel_option (\<lambda>d d'. but_pools (store d') = but_pools (store d)) (pool_db r) (pool_db r')"

lemma same_view_same: "pool_db r' = pool_db r \<Longrightarrow> same_view r r'"
  by (cases "pool_db r") (simp_all add: same_view_def)

lemma pool_insert_view: "same_view r (pool_insert c p info r)"
proof (cases "pool_db r")
  case None
  then show ?thesis by (simp add: same_view_def pool_insert_def cache_insert_def save_None)
next
  case (Some d)
  then have "pool_db (cache_insert p info r) = Some d" by (simp add: cache_insert_def)
  with save_view [OF this] save_some [of "cache_insert p info r" c p info] Some show ?thesis
    by (auto simp: same_view_def pool_insert_def)
qed

lemma resolver_task_view:
  assumes "resolver_task c fetch decode r = Some r'"
  shows "same_view r r'"
  using resolver_task_shape [OF assms]
proof (elim disjE exE conjE)
  assume "pool_db r' = pool_db r"
  then show ?thesis by (rule same_view_same)
next
  fix p b t r2
  assume "pool_db r2 = pool_db r" "r' = pool_insert c p \<lparr>base_mint = b, quote_mint = t,
    base_decimals = None, quote_decimals = None\<rparr> r2"
  with pool_insert_view [of r2 c p] show ?thesis by (simp add: same_view_def)
qed

lemma resolve_db: "map_option pool_db (resolver_of (snd (resolve t pool s))) = map_option pool_db (resolver_of s)"
  by (auto simp: resolve_def Let_def pool_request_same split: option.splits)

definition same_tables :: "indexer \<Rightarrow> indexer \<Rightarrow> bool" where
  "same_tables s s' \<longleftrightarrow> rel_option (\<lambda>t t'. but_pools t' = but_pools t) (resolver_tables s) (resolver_tables s')"

lemma same_tables_dbs:
  "map_option pool_db (resolver_of s') = map_option pool_db (resolver_of s) \<Longrightarrow> same_tables s s'"
  by (cases "resolver_of s"; cases "resolver_of s'")
    (auto simp: same_tables_def resolver_tables_def option.rel_refl)

lemma same_tables_view:
  "resolver_of s = Some r \<Longrightarrow> resolver_of s' = Some r' \<Longrightarrow> same_view r r' \<Longrightarrow> same_tables s s'"
  by (simp add: same_tables_def resolver_tables_def same_view_def option.rel_map)

lemma indexer_step_tables:
  assumes "indexer_step c wsol v m s = Some s'"
  shows "same_tables s s'"
proof (cases m)
  case (Curve t i ins)
  with assms show ?thesis
    by (intro same_tables_dbs) (auto simp: process_pumpfun_def Let_def send_row_def
        split: pumpfun_instruction.splits if_splits)
next
  case (Lookup fetch decode)
  with assms obtain r r' where r: "resolver_of s = Some r"
      "resolver_task c fetch decode r = Some r'" "s' = s\<lparr>resolver_of := Some r'\<rparr>"
    by (auto simp: bind_eq_Some_conv)
  with resolver_task_view [OF r(2)] show ?thesis by (simp add: same_tables_view)
next
  case (Swap t i ins)
  let ?s = "s\<lparr>slots := check_slot (wall t) (tx_slot i) (slots s)\<rparr>"
  have arm: "map_option pool_db (resolver_of (swap_arm c wsol t i kind js pool user base quote a fee ?s))
      = map_option pool_db (resolver_of s)"
    for kind js pool user base quote a fee
    using resolve_db [of t pool "record_event t i ?s"] by (simp add: resolver_of_swap_arm)
  show ?thesis
  proof (cases "\<exists>e r. ins = SwapCpiEvent (CreatePoolEvent e) \<and> \<not> tx_failed i \<and> resolver_of s = Some r")
    case True
    then obtain e r where e: "ins = SwapCpiEvent (CreatePoolEvent e)" "\<not> tx_failed i" "resolver_of s = Some r"
      by blast
    with Swap assms show ?thesis
      by (auto simp: process_pumpswap_def create_pool_arm_def intro!: same_tables_view pool_insert_view)
  next
    case False
    with Swap assms arm show ?thesis
      by (intro same_tables_dbs) (auto simp: process_pumpswap_def create_pool_arm_def Let_def
          split: pump_swap_instruction.splits pump_swap_event.splits if_splits)
  qed
qed

fun moves_of :: "'x pl_event list \<Rightarrow> 'x move list" where
  "moves_of [] = []"
| "moves_of (Process m # es) = m # moves_of es"
| "moves_of (e # es) = moves_of es"

lemma events_of_append: "events_of v (ms @ ms') = events_of v ms @ events_of v ms'"
  by (simp add: events_of_def)

lemma moves_of_Cons: "moves_of (e # es) = moves_of [e] @ moves_of es"
  by (cases e) simp_all

text \<open>What is recorded does not depend on the connections.\<close>

lemma produced_share: "produced es ts s (ix (share t (g\<lparr>ix := s'\<rparr>))) = produced es ts s s'"
  by (simp add: produced_def)

lemma no_move_produced:
  assumes "moves_of [e] = []" "event_ids s' = event_ids s" "outbox s' = outbox s" "stats s' = stats s"
  shows "\<exists>ts. produced (events_of v (moves_of [e])) ts s s'
    \<and> (\<forall>t \<in> set ts. \<forall>x. t = Some x \<longrightarrow> trade_error x = None)"
  using assms by (auto simp: events_of_def intro!: exI [of _ "[]"] produced_nothing)

lemma pipeline_step_produced:
  assumes "pipeline_step err_text c wsol v e g = Some g'"
  shows "\<exists>ts. produced (events_of v (moves_of [e])) ts (ix g) (ix g')
    \<and> (\<forall>t \<in> set ts. \<forall>x. t = Some x \<longrightarrow> trade_error x = None)"
proof (cases e)
  case (Process m)
  with assms obtain s where s: "indexer_step c wsol v m (ix g) = Some s"
      "g' = (case resolver_tables s of None \<Rightarrow> g\<lparr>ix := s\<rparr> | Some t \<Rightarrow> share t (g\<lparr>ix := s\<rparr>))"
    by (auto split: if_splits)
  have "indexer_run c wsol v [m] (ix g) = Some s" using s(1) by simp
  from indexer_run_produced [OF this] Process s(2) show ?thesis
    by (cases "resolver_tables s") (auto simp: events_of_def produced_share)
next
  case Hand_over
  with assms show ?thesis
    by (intro no_move_produced) (auto split: option.splits if_splits)
next
  case (Write a)
  with assms show ?thesis
    by (intro no_move_produced) (cases a; auto split: option.splits if_splits)+
next
  case (Elsewhere t)
  with assms show ?thesis
    by (intro no_move_produced) (auto split: option.splits if_splits)
qed

lemma pipeline_run_produced:
  "pipeline_run err_text c wsol v es g = Some g' \<Longrightarrow>
     \<exists>ts. produced (events_of v (moves_of es)) ts (ix g) (ix g')
       \<and> (\<forall>t \<in> set ts. \<forall>x. t = Some x \<longrightarrow> trade_error x = None)"
proof (induction es arbitrary: g)
  case Nil
  then show ?case by (auto simp: events_of_def intro!: exI [of _ "[]"] produced_nothing)
next
  case (Cons e es)
  then obtain g1 where g1: "pipeline_step err_text c wsol v e g = Some g1"
      "pipeline_run err_text c wsol v es g1 = Some g'"
    by (auto simp: bind_eq_Some_conv)
  obtain ts1 where ts1: "produced (events_of v (moves_of [e])) ts1 (ix g) (ix g1)"
      "\<forall>t \<in> set ts1. \<forall>x. t = Some x \<longrightarrow> trade_error x = None"
    using pipeline_step_produced [OF g1(1)] by blast
  obtain ts2 where ts2: "produced (events_of v (moves_of es)) ts2 (ix g1) (ix g')"
      "\<forall>t \<in> set ts2. \<forall>x. t = Some x \<longrightarrow> trade_error x = None"
    using Cons.IH [OF g1(2)] by blast
  have "produced (events_of v (moves_of (e # es))) (ts1 @ ts2) (ix g) (ix g')"
    unfolding moves_of_Cons [of e es] events_of_append
    by (rule produced_trans [OF ts1(1) ts2(1)])
  with ts1(2) ts2(2) show ?case by (intro exI [of _ "ts1 @ ts2"]) auto
qed

text \<open>
  What the writer of a pipeline has done: a run of its own, from its view of the tables, in
  which it was sent the rows handed over.
\<close>

definition writing :: "(db_error \<Rightarrow> string) \<Rightarrow> writer \<Rightarrow> pipeline \<Rightarrow> bool" where
  "writing err_text w0 g \<longleftrightarrow> joined g \<and> (\<exists>w rows as. wr g = Some w \<and> outbox (ix g) = Some rows
     \<and> writer_run err_text as w0 = Some (viewed w) \<and> sent as = take (handed g) rows
     \<and> handed g \<le> length rows \<and> (senders_dropped w \<longrightarrow> handed g = length rows))"

lemma writer_run_snoc:
  "writer_run err_text (as @ [a]) w = Option.bind (writer_run err_text as w) (writer_step err_text a)"
  by (induction as arbitrary: w) (auto split: option.splits)

lemma sent_snoc: "sent (as @ [a]) = sent as @ sent [a]"
proof (induction as)
  case (Cons x xs)
  then show ?case by (cases x) simp_all
qed simp

lemma viewed_store: "writer_view t = writer_view (store (db w)) \<Longrightarrow>
    viewed (w\<lparr>db := (db w)\<lparr>store := t\<rparr>\<rparr>) = viewed w"
  by (simp add: viewed_def)

lemma senders_dropped_step:
  "writer_step err_text a w = Some w' \<Longrightarrow> a \<noteq> Drop_senders \<Longrightarrow> senders_dropped w' = senders_dropped w"
  by (cases a) (auto simp: Let_def flush_frame split: if_splits option.splits)

lemma writing_step_process:
  assumes "pipeline_step err_text c wsol v (Process m) g = Some g'" "writing err_text w0 g"
  shows "writing err_text w0 g'"
proof -
  obtain w rows as where w: "wr g = Some w" "outbox (ix g) = Some rows"
      "writer_run err_text as w0 = Some (viewed w)" "sent as = take (handed g) rows"
      "handed g \<le> length rows" "senders_dropped w \<longrightarrow> handed g = length rows" "joined g"
    using assms(2) unfolding writing_def by blast
  obtain s where s: "indexer_step c wsol v m (ix g) = Some s" "from_source m \<longrightarrow> sending g"
      "g' = (case resolver_tables s of None \<Rightarrow> g\<lparr>ix := s\<rparr> | Some t \<Rightarrow> share t (g\<lparr>ix := s\<rparr>))"
    using assms(1) by (auto split: if_splits)
  obtain ts where p: "produced (events_for v m) ts (ix g) s"
    using indexer_step_produced [OF s(1)] by blast
  then obtain new where new: "outbox s = Some (rows @ new)" "map pw_event new = events_for v m"
    using w(2) by (auto simp: produced_def)
  have drop: "senders_dropped w \<longrightarrow> new = []"
  proof
    assume "senders_dropped w"
    then have "\<not> from_source m" using s(2) w(1) by (auto simp: sending_def)
    then have "events_for v m = []" by (cases m) (simp_all add: events_for_def)
    with new(2) show "new = []" by simp
  qed
  have tables: "same_tables (ix g) s" by (rule indexer_step_tables [OF s(1)])
  show ?thesis
  proof (cases "resolver_tables s")
    case None
    with s(3) have "g' = g\<lparr>ix := s\<rparr>" by simp
    moreover have "joined (g\<lparr>ix := s\<rparr>)" using None by (simp add: joined_def)
    ultimately show ?thesis
      using w new drop unfolding writing_def by (intro conjI exI [of _ w]) (auto intro: exI [of _ as])
  next
    case (Some t)
    with tables obtain t0 where t0: "resolver_tables (ix g) = Some t0" "writer_view t = writer_view t0"
      by (auto simp: same_tables_def option_rel_Some2 dest: but_pools_view)
    have "store (db w) = t0" using w(1,7) t0(1) by (simp add: joined_def)
    then have "viewed (w\<lparr>db := (db w)\<lparr>store := t\<rparr>\<rparr>) = viewed w"
      by (intro viewed_store) (simp add: t0(2))
    with Some s(3) w new drop show ?thesis
      unfolding writing_def by (auto simp: joined_share intro!: exI [of _ as])
  qed
qed

lemma writing_step:
  assumes "pipeline_step err_text c wsol v e g = Some g'" "writing err_text w0 g"
  shows "writing err_text w0 g'"
proof (cases e)
  case (Process m)
  with assms writing_step_process show ?thesis by metis
next
  case Hand_over
  obtain w rows as where w: "wr g = Some w" "outbox (ix g) = Some rows"
      "writer_run err_text as w0 = Some (viewed w)" "sent as = take (handed g) rows"
      "handed g \<le> length rows" "senders_dropped w \<longrightarrow> handed g = length rows" "joined g"
    using assms(2) unfolding writing_def by blast
  with Hand_over assms(1) obtain w' where w': "handed g < length rows"
      "writer_step err_text (Send (rows ! handed g)) w = Some w'" "g' = g\<lparr>wr := Some w', handed := handed g + 1\<rparr>"
    by (auto split: if_splits)
  have "db w' = db w" "\<not> senders_dropped w'" using w'(2) by (auto split: if_splits)
  then have "joined g'" using w(1,7) by (auto simp: joined_def w'(3))
  moreover have "writer_run err_text (as @ [Send (rows ! handed g)]) w0 = Some (viewed w')"
    using w(3) w'(2) by (simp add: writer_run_snoc writer_step_viewed del: writer_step.simps)
  moreover have "sent (as @ [Send (rows ! handed g)]) = take (handed g') rows"
    using w(4) w'(1,3) by (simp add: sent_snoc take_Suc_conv_app_nth)
  ultimately show ?thesis
    using w(2) w'(1,3) \<open>\<not> senders_dropped w'\<close>
    unfolding writing_def by (intro conjI exI [of _ w']) (auto intro!: exI)
next
  case (Write a)
  obtain w rows as where w: "wr g = Some w" "outbox (ix g) = Some rows"
      "writer_run err_text as w0 = Some (viewed w)" "sent as = take (handed g) rows"
      "handed g \<le> length rows" "senders_dropped w \<longrightarrow> handed g = length rows" "joined g"
    using assms(2) unfolding writing_def by blast
  have a: "sent [a] = []" "a = Drop_senders \<longrightarrow> handed g = length rows"
    using Write assms(1) w(1,2,5) by (cases a; auto split: if_splits)+
  obtain w' where w': "writer_step err_text a w = Some w'" "g' = share (store (db w')) (g\<lparr>wr := Some w'\<rparr>)"
    using Write assms(1) w(1,2) by (cases a; auto split: if_splits simp del: writer_step.simps)
  have "writer_run err_text (as @ [a]) w0 = Some (viewed w')"
    using w(3) w'(1) by (simp add: writer_run_snoc writer_step_viewed del: writer_step.simps)
  moreover have "senders_dropped w' \<longrightarrow> handed g = length rows"
    using senders_dropped_step [OF w'(1)] a(2) w(6) by blast
  moreover have "sent (as @ [a]) = take (handed g) rows"
    unfolding sent_snoc a(1) w(4) by simp
  moreover have "viewed (w'\<lparr>db := (db w')\<lparr>store := store (db w')\<rparr>\<rparr>) = viewed w'" by (simp add: viewed_def)
  ultimately show ?thesis
    using w(2,5) unfolding writing_def w'(2)
    by (intro conjI exI [of _ "w'\<lparr>db := (db w')\<lparr>store := store (db w')\<rparr>\<rparr>"] exI [of _ rows]
        exI [of _ "as @ [a]"]) (simp_all add: joined_share)
next
  case (Elsewhere t)
  obtain w rows as where w: "wr g = Some w" "outbox (ix g) = Some rows"
      "writer_run err_text as w0 = Some (viewed w)" "sent as = take (handed g) rows"
      "handed g \<le> length rows" "senders_dropped w \<longrightarrow> handed g = length rows" "joined g"
    using assms(2) unfolding writing_def by blast
  with Elsewhere assms(1) have t: "writer_view t = writer_view (store (db w))" "g' = share t g"
    by (auto split: if_splits)
  have "viewed (w\<lparr>db := (db w)\<lparr>store := t\<rparr>\<rparr>) = viewed w" by (rule viewed_store [OF t(1)])
  with w t(2) show ?thesis unfolding writing_def by (auto simp: joined_share intro!: exI [of _ as])
qed

lemma writing_run:
  "pipeline_run err_text c wsol v es g = Some g' \<Longrightarrow> writing err_text w0 g \<Longrightarrow> writing err_text w0 g'"
  by (induction es arbitrary: g) (auto simp: bind_eq_Some_conv simp del: pipeline_step.simps dest: writing_step)

section \<open>Starting\<close>

lemma prime_rows_db: "pool_db (snd (prime_rows c ps r)) = pool_db r"
  by (induction ps arbitrary: r) (auto simp: cache_insert_def split: option.splits)

lemma load_pools_store: "load_pools d = (x, d') \<Longrightarrow> store d' = store d"
  by (auto simp: load_pools_def dest!: store_execute)

lemma prime_tables:
  assumes "prime c r = (x, r')"
  shows "map_option store (pool_db r') = map_option store (pool_db r)"
proof (cases "pool_db r")
  case None
  with assms show ?thesis by (auto simp: prime_def)
next
  case (Some d)
  obtain a d' where l: "load_pools d = (a, d')" by fastforce
  show ?thesis
  proof (cases a)
    case (Answer stored)
    obtain b r1 where pr: "prime_rows c stored (r\<lparr>pool_db := Some d'\<rparr>) = (b, r1)" by fastforce
    have "pool_db r1 = Some d'" using prime_rows_db [of c stored "r\<lparr>pool_db := Some d'\<rparr>"] pr by simp
    with assms Some l Answer pr load_pools_store [OF l] show ?thesis
      by (cases b) (auto simp: prime_def)
  qed (use assms Some l load_pools_store [OF l] in \<open>auto simp: prime_def\<close>)
qed

lemma start_pipeline_writing:
  assumes "start_pipeline c rpc collect (Some d) answers gaps m = Inr g"
  shows "writing err_text (spawn_writer (view_db d\<lparr>script := answers\<rparr>) WRITE_QUEUE_SIZE m) g"
    and "event_ids (ix g) = (if collect then Some [] else None)" "outbox (ix g) = Some []"
proof -
  have "joined g"
  proof (cases rpc)
    case True
    obtain x r where p: "prime c (new_resolver POOL_LOOKUP_QUEUE_SIZE (Some d) m) = (x, r)" by fastforce
    then have "map_option store (pool_db r) = Some (store d)"
      using prime_tables by (fastforce simp: new_resolver_def)
    with True p assms show ?thesis
      by (auto simp: start_pipeline_def Let_def joined_def resolver_tables_def spawn_writer_def
          split: sum.splits)
  qed (use assms in \<open>auto simp: start_pipeline_def Let_def joined_def resolver_tables_def\<close>)
  moreover have g: "wr g = Some (spawn_writer (d\<lparr>script := answers\<rparr>) WRITE_QUEUE_SIZE m)" "handed g = 0"
      "outbox (ix g) = Some []" "event_ids (ix g) = (if collect then Some [] else None)"
    using assms by (auto simp: start_pipeline_def Let_def split: prod.splits sum.splits if_splits)
  moreover have "viewed (spawn_writer (d\<lparr>script := answers\<rparr>) WRITE_QUEUE_SIZE m) =
      spawn_writer (view_db d\<lparr>script := answers\<rparr>) WRITE_QUEUE_SIZE m"
    by (simp add: viewed_def spawn_writer_def view_db_def)
  ultimately show "writing err_text (spawn_writer (view_db d\<lparr>script := answers\<rparr>) WRITE_QUEUE_SIZE m) g"
    unfolding writing_def by (intro conjI exI [of _ "spawn_writer (d\<lparr>script := answers\<rparr>) WRITE_QUEUE_SIZE m"]
        exI [of _ "[]"]) (simp_all add: spawn_writer_def)
  show "event_ids (ix g) = (if collect then Some [] else None)" "outbox (ix g) = Some []"
    by (rule g)+
qed

lemma view_ok: "tables_ok t \<Longrightarrow> tables_ok (writer_view t)"
  by (simp add: tables_ok_def gaps_ok_def writer_view_def)

text \<open>Everything about an ended run with a database, in terms of a run of the writer alone.\<close>

lemma ended_run:
  assumes run: "run_pipeline err_text c wsol v rpc collect (Some d) answers gaps m es = Inr (Some g)"
    and ok: "tables_ok (writer_view (store d))"
  obtains w as rows where "wr g = Some w" "status w = Stopped"
    "writer_run err_text as (spawn_writer (view_db d\<lparr>script := answers\<rparr>) WRITE_QUEUE_SIZE m) = Some (viewed w)"
    "outbox (ix g) = Some rows" "sent as = rows" "map pw_event rows = events_of v (moves_of es)"
    "\<forall>p \<in> set rows. writable p"
    "event_ids (ix g) = (if collect then Some (map id_of_event (events_of v (moves_of es))) else None)"
proof -
  let ?w0 = "spawn_writer (view_db d\<lparr>script := answers\<rparr>) WRITE_QUEUE_SIZE m"
  obtain g0 where g0: "start_pipeline c rpc collect (Some d) answers gaps m = Inr g0"
      "pipeline_run err_text c wsol v es g0 = Some g" "ended g"
    using run by (auto simp: run_pipeline_def split: sum.splits option.splits if_splits)
  note start = start_pipeline_writing [OF g0(1)]
  obtain w rows as where w: "wr g = Some w" "outbox (ix g) = Some rows"
      "writer_run err_text as ?w0 = Some (viewed w)" "sent as = take (handed g) rows"
      "senders_dropped w \<longrightarrow> handed g = length rows"
    using writing_run [OF g0(2) start(1)] unfolding writing_def by blast
  have stopped: "status w = Stopped" using g0(3) w(1) by (simp add: ended_def)
  have "writer_ok (viewed w)"
    by (rule writer_run_ok [OF w(3)]) (rule spawned_ok, simp add: view_db_def ok)
  then have "senders_dropped w" using stopped by (simp add: writer_ok_def)
  then have "sent as = rows" using w(4,5) by simp
  moreover obtain ts where ts: "produced (events_of v (moves_of es)) ts (ix g0) (ix g)"
      "\<forall>t \<in> set ts. \<forall>x. t = Some x \<longrightarrow> trade_error x = None"
    using pipeline_run_produced [OF g0(2)] by blast
  then obtain new where new: "outbox (ix g) = Some ([] @ new)" "map pw_event new = events_of v (moves_of es)"
      "map pw_trade new = ts"
    using start(3) unfolding produced_def by blast
  then have "rows = new" using w(2) by simp
  moreover have "\<forall>p \<in> set new. writable p"
    unfolding writable_def using ts(2) new(3) by (metis in_set_conv_nth length_map nth_map nth_mem)
  moreover have "event_ids (ix g) = (if collect then Some (map id_of_event (events_of v (moves_of es))) else None)"
    using ts(1) start(2) by (simp add: produced_def)
  ultimately show ?thesis using that w(1-3) stopped new(2) by blast
qed

lemma pipeline_stream:
  assumes "run_pipeline err_text c wsol v rpc collect (Some d) answers gaps m es = Inr (Some g)"
    and "tables_ok (writer_view (store d))" "set answers \<subseteq> {Done}"
  shows "\<exists>w. wr g = Some w
    \<and> events (store (db w)) = insert_do_nothing event_key (events (store d)) (events_of v (moves_of es))
    \<and> dead_letters (store (db w)) = dead_letters (store d) \<and> unparked w = []
    \<and> tables_ok (writer_view (store (db w)))"
proof -
  obtain w as rows where w: "wr g = Some w" "status w = Stopped"
    "writer_run err_text as (spawn_writer (view_db d\<lparr>script := answers\<rparr>) WRITE_QUEUE_SIZE m) = Some (viewed w)"
    "sent as = rows" "map pw_event rows = events_of v (moves_of es)" "\<forall>p \<in> set rows. writable p"
    by (rule ended_run [OF assms(1,2)])
  have st: "store (view_db d\<lparr>script := answers\<rparr>) = writer_view (store d)" by (simp add: view_db_def)
  have "healthy (view_db d\<lparr>script := answers\<rparr>)" using assms(3) by (auto simp: healthy_def)
  moreover have ok: "tables_ok (store (view_db d\<lparr>script := answers\<rparr>))" unfolding st by (rule assms(2))
  ultimately have "events (store (db (viewed w))) = insert_events (map pw_event rows) (events (store d))"
      "dead_letters (store (db (viewed w))) = dead_letters (store d)" "unparked (viewed w) = []"
    using batching [OF w(3)] w(2,4,6) st by simp_all
  moreover have "events (store (db (viewed w))) = events (store (db w))"
      "dead_letters (store (db (viewed w))) = dead_letters (store (db w))"
    by (simp_all add: viewed_def)
  moreover have "writer_ok (viewed w)" by (rule writer_run_ok [OF w(3) spawned_ok [OF ok]])
  then have "tables_ok (writer_view (store (db w)))" by (simp add: writer_ok_def viewed_def)
  ultimately show ?thesis using w(1,5) by (auto simp: insert_events_def)
qed

lemma pipeline_accounts:
  assumes "run_pipeline err_text c wsol v rpc collect (Some d) answers gaps m es = Inr (Some g)"
    and "tables_ok (writer_view (store d))"
  shows "\<exists>w. wr g = Some w
    \<and> event_key ` set (events_of v (moves_of es)) \<subseteq> event_key ` set (events (store (db w)))
        \<union> letter_key ` set (dead_letters (store (db w))) \<union> pending_key ` set (unparked w)
    \<and> tables_ok (writer_view (store (db w)))"
proof -
  obtain w as rows where w: "wr g = Some w" "status w = Stopped"
    "writer_run err_text as (spawn_writer (view_db d\<lparr>script := answers\<rparr>) WRITE_QUEUE_SIZE m) = Some (viewed w)"
    "sent as = rows" "map pw_event rows = events_of v (moves_of es)"
    by (rule ended_run [OF assms(1,2)])
  have ok: "tables_ok (store (view_db d\<lparr>script := answers\<rparr>))" by (simp add: view_db_def assms(2))
  have wok: "writer_ok (viewed w)" by (rule writer_run_ok [OF w(3) spawned_ok [OF ok]])
  have "in_flight (viewed w) = {}" by (rule stopped_in_flight [OF wok]) (simp add: w(2))
  then have "pending_key ` set rows \<subseteq> accounted (viewed w)"
    using writer_run_tracked [OF w(3) spawned_ok [OF ok]] w(4) by (simp add: tracked_in_flight)
  moreover have "pending_key ` set rows = event_key ` set (events_of v (moves_of es))"
    unfolding w(5) [symmetric] by (simp add: image_image pending_key_def)
  moreover have "accounted (viewed w) = accounted w" by (simp add: accounted_def viewed_def)
  moreover have "tables_ok (writer_view (store (db w)))" using wok by (simp add: writer_ok_def viewed_def)
  ultimately show ?thesis using w(1) by (auto simp: accounted_def)
qed

text \<open>A run without a database collects the events and touches nothing.\<close>

lemma collecting_run:
  assumes "run_pipeline err_text c wsol v False True None answers gaps m es = Inr (Some g)"
  shows "event_ids (ix g) = Some (map id_of_event (events_of v (moves_of es)))"
proof -
  obtain g0 where g0: "start_pipeline c False True None answers gaps m = Inr g0"
      "pipeline_run err_text c wsol v es g0 = Some g"
    using assms by (auto simp: run_pipeline_def split: sum.splits option.splits if_splits)
  then have "event_ids (ix g0) = Some []" by (auto simp: start_pipeline_def Let_def)
  with pipeline_run_produced [OF g0(2)] show ?thesis by (auto simp: produced_def)
qed

section \<open>A pipeline leaves the gaps alone\<close>

fun own_event :: "'x pl_event \<Rightarrow> bool" where
  "own_event (Elsewhere t) = False"
| "own_event e = True"

definition gaps_are :: "gap_row list \<Rightarrow> pipeline \<Rightarrow> bool" where
  "gaps_are gs g \<longleftrightarrow> (\<forall>w. wr g = Some w \<longrightarrow> stream_gaps (store (db w)) = gs)
     \<and> (\<forall>t. resolver_tables (ix g) = Some t \<longrightarrow> stream_gaps t = gs)"

lemma flush_gaps: "stream_gaps (store (db (flush err_text clock w))) = stream_gaps (store (db w))"
  using flush_store [of err_text clock w]
proof (elim disjE exE conjE)
  fix newest u
  assume "parked u (batch w) (store (db (flush err_text clock w)))"
    "commit_effect (batch w) (row_slot newest) (e_signature (pw_event newest)) (store (db w)) = Inr u"
  then show ?thesis using parked_same(5) commit_effect_Inr(6) by metis
qed (auto dest: parked_same(5))

lemma writer_step_gaps:
  "writer_step err_text a w = Some w' \<Longrightarrow> stream_gaps (store (db w')) = stream_gaps (store (db w))"
  by (cases a) (auto simp: flush_gaps Let_def split: option.splits if_splits)

lemma gaps_are_share: "stream_gaps t = gs \<Longrightarrow> gaps_are gs (share t g)"
  by (auto simp: gaps_are_def share_def resolver_tables_def bind_eq_Some_conv)

lemma pipeline_step_gaps:
  assumes "pipeline_step err_text c wsol v e g = Some g'" "gaps_are gs g" "own_event e"
  shows "gaps_are gs g'"
proof (cases e)
  case (Process m)
  with assms(1) obtain s where s: "indexer_step c wsol v m (ix g) = Some s"
      "g' = (case resolver_tables s of None \<Rightarrow> g\<lparr>ix := s\<rparr> | Some t \<Rightarrow> share t (g\<lparr>ix := s\<rparr>))"
    by (auto split: if_splits)
  show ?thesis
  proof (cases "resolver_tables s")
    case None
    with s(2) assms(2) show ?thesis by (simp add: gaps_are_def)
  next
    case (Some t)
    with indexer_step_tables [OF s(1)] obtain t0 where "resolver_tables (ix g) = Some t0" "but_pools t = but_pools t0"
      by (auto simp: same_tables_def option_rel_Some2)
    then have "stream_gaps t = gs" using assms(2) but_pools_gaps unfolding gaps_are_def by metis
    with Some s(2) show ?thesis by (simp add: gaps_are_share)
  qed
next
  case Hand_over
  with assms(1,2) show ?thesis
    by (auto simp: gaps_are_def split: option.splits if_splits)
next
  case (Write a)
  with assms(1) obtain w w' where "wr g = Some w" "writer_step err_text a w = Some w'"
      "g' = share (store (db w')) (g\<lparr>wr := Some w'\<rparr>)"
    by (cases "wr g"; cases a) (auto split: if_splits simp del: writer_step.simps)
  with writer_step_gaps [of err_text a w w'] assms(2) show ?thesis
    by (simp add: gaps_are_share gaps_are_def [of gs g])
next
  case (Elsewhere t)
  with assms(3) show ?thesis by simp
qed

lemma pipeline_run_gaps:
  "pipeline_run err_text c wsol v es g = Some g' \<Longrightarrow> list_all own_event es \<Longrightarrow> gaps_are gs g \<Longrightarrow> gaps_are gs g'"
  by (induction es arbitrary: g)
    (auto simp: bind_eq_Some_conv simp del: pipeline_step.simps dest: pipeline_step_gaps)

lemma run_pipeline_gaps:
  assumes "run_pipeline err_text c wsol v rpc collect (Some d) answers gaps m es = Inr (Some g)"
    "list_all own_event es" "wr g = Some w"
  shows "stream_gaps (store (db w)) = stream_gaps (store d)"
proof -
  obtain g0 where g0: "start_pipeline c rpc collect (Some d) answers gaps m = Inr g0"
      "pipeline_run err_text c wsol v es g0 = Some g"
    using assms(1) by (auto simp: run_pipeline_def split: sum.splits option.splits if_splits)
  have "joined g0" using start_pipeline_writing(1) [OF g0(1)] unfolding writing_def by blast
  moreover have "wr g0 = Some (spawn_writer (d\<lparr>script := answers\<rparr>) WRITE_QUEUE_SIZE m)"
    using g0(1) by (auto simp: start_pipeline_def Let_def split: prod.splits sum.splits if_splits)
  ultimately have "gaps_are (stream_gaps (store d)) g0"
    by (cases "resolver_tables (ix g0)") (auto simp: gaps_are_def joined_def spawn_writer_def)
  from pipeline_run_gaps [OF g0(2) assms(2) this] assms(3) show ?thesis by (simp add: gaps_are_def)
qed

section \<open>Properties\<close>

text \<open>A small run for the witnesses: a swap in an unknown pool and a bonding-curve trade.\<close>

definition sample_stream :: "unit move list" where
  "sample_stream =
     [Swap (sample_moments 10) (sample_meta ''b'' 101 False) (SwapCpiEvent (BuyEvent (sample_buy 3))),
      Curve (sample_moments 30) (sample_meta ''d'' 103 False) (CurveTrade sample_curve)]"

definition sample_schedule :: "unit pl_event list" where
  "sample_schedule = [Process (sample_stream ! 0), Hand_over, Process (sample_stream ! 1),
     Write (Receive id), Write (Tick id), Hand_over, Write Drop_senders, Write (Receive id),
     Write (Receive id)]"

definition sample_pipeline :: "(prime_error + pipeline option)" where
  "sample_pipeline = run_pipeline (\<lambda>_. ''refused'') byte_codec (sample_key 1) sample_serde False True
     (Some (sample_db [])) [] None new_metrics sample_schedule"

lemma sample_pipeline_ends: "\<exists>g. sample_pipeline = Inr (Some g)"
  by (simp add: sample_pipeline_def run_pipeline_def start_pipeline_def sample_schedule_def
      sample_stream_def share_def resolver_tables_def sending_def process_pumpswap_def
      process_pumpfun_def swap_arm_def resolve_def record_event_def send_row_def row_of_def
      sample_meta_def sample_buy_def sample_curve_def curve_row_def side_of_def sample_moments_def
      sample_serde_def check_slot_def ended_def sample_defs flush_eval WRITE_QUEUE_SIZE_def Let_def)

lemma sample_schedule_moves: "moves_of sample_schedule = sample_stream"
  by (simp add: sample_schedule_def sample_stream_def)

lemma sample_stream_events: "map e_signature (events_of sample_serde sample_stream) = [''b'', ''d'']"
  by (simp add: events_of_def events_for_def sample_stream_def sample_meta_def row_of_def)

text \<open>
  Claim C3. A pipeline run stores its stream. When the writer's connection executes every
  statement and the run has ended, the events table holds what it held before and then, in
  order and each key once, the trade events of the successful transactions that the source
  delivered; nothing was parked or lost. This holds for every interleaving of the processors,
  the resolver, the writer and other connections' gap and pool statements.
\<close>

theorem pipeline_stores_the_stream:
  assumes "run_pipeline err_text c wsol v rpc collect (Some d) answers gaps m es = Inr (Some g)"
    and "tables_ok (store d)" "set answers \<subseteq> {Done}"
  shows "\<exists>w. wr g = Some w
    \<and> events (store (db w)) = insert_do_nothing event_key (events (store d)) (events_of v (moves_of es))
    \<and> dead_letters (store (db w)) = dead_letters (store d) \<and> unparked w = []"
  using pipeline_stream [OF assms(1) view_ok [OF assms(2)] assms(3)] by blast

theorem pipeline_stores_the_stream_witness:
  "\<exists>g w. sample_pipeline = Inr (Some g) \<and> wr g = Some w
     \<and> events (store (db w)) = insert_do_nothing event_key [] (events_of sample_serde sample_stream)"
proof -
  obtain g where g: "sample_pipeline = Inr (Some g)" using sample_pipeline_ends by blast
  have ok: "tables_ok (store (sample_db []))" by (simp add: sample_db_def tables_ok_empty)
  have "events (store (sample_db [])) = []" by (simp add: sample_db_def empty_tables_def)
  with pipeline_stores_the_stream [OF g [unfolded sample_pipeline_def] ok] g show ?thesis
    by (auto simp: sample_schedule_moves)
qed



end
