(* ===== verification/Shutdown.thy ===== *)
theory Shutdown
  imports Pipeline
begin

text \<open>
  The end of \<^verbatim>\<open>run_pipeline\<close> in \<^verbatim>\<open>src/pipeline.rs\<close>: the source is done, the pipeline with its
  senders is dropped and the writer task is awaited. That this wait ends is shown in two steps.

  \<^item> \<open>prompt\<close> operations come back when every statement is answered, so a flush never leaves
    the task stuck, and a task without senders stops after one turn more than it has rows.
  \<^item> From every reachable state the rows still to be handed over can be, the senders dropped
    and the channel emptied.
\<close>

section \<open>Operations that are answered\<close>

definition answered :: "'t server \<Rightarrow> bool" where
  "answered d \<longleftrightarrow> (\<forall>b. Hung b \<notin> set (script d))"

definition prompt :: "('t server \<Rightarrow> 'a outcome \<times> 't server) \<Rightarrow> bool" where
  "prompt f \<longleftrightarrow> (\<forall>d. answered d \<longrightarrow> fst (f d) \<noteq> No_answer \<and> answered (snd (f d)))"

named_theorems prompts \<open>operations that end when every statement is answered\<close>

lemma promptD: "prompt f \<Longrightarrow> f d = (r, d') \<Longrightarrow> answered d \<Longrightarrow> r \<noteq> No_answer \<and> answered d'"
  unfolding prompt_def by (metis fst_conv snd_conv)

lemma answered_store [simp]: "answered (d\<lparr>store := t\<rparr>) = answered d"
  by (simp add: answered_def)

lemma prompt_execute [prompts]: "prompt (execute stmt)"
proof -
  have "fst (execute stmt d) \<noteq> No_answer" if "answered d" for d :: "'a server"
    using that by (cases "script d")
      (auto simp: execute_def next_reply_def answered_def split: reply.splits sum.splits)
  moreover have "answered (snd (execute stmt d))" if "answered d" for d :: "'a server"
    using that unfolding answered_def script_execute by (cases "script d") auto
  ultimately show ?thesis by (simp add: prompt_def)
qed

lemma prompt_return [prompts]: "prompt (return x)"
  by (simp add: prompt_def return_def)

lemma prompt_and_then [prompts]:
  assumes "prompt f" "\<And>x. prompt (g x)"
  shows "prompt (and_then f g)"
  unfolding prompt_def
proof (intro allI impI)
  fix d :: "'a server" assume d: "answered d"
  obtain r d1 where f: "f d = (r, d1)" by fastforce
  from promptD [OF assms(1) f d] have 1: "r \<noteq> No_answer" "answered d1" by auto
  show "fst (and_then f g d) \<noteq> No_answer \<and> answered (snd (and_then f g d))"
    using 1 f assms(2) by (cases r) (auto simp: and_then_def prompt_def)
qed

lemma prompt_transaction [prompts]:
  assumes "prompt body"
  shows "prompt (transaction body)"
  unfolding prompt_def
proof (intro allI impI)
  fix d :: "'a server" assume d: "answered d"
  obtain r d0 where b: "execute (\<lambda>t. Inr ((), t)) d = (r, d0)" by fastforce
  from promptD [OF prompt_execute b d] have 0: "r \<noteq> No_answer" "answered d0" by auto
  obtain r1 d1 where body: "body d0 = (r1, d1)" by fastforce
  from promptD [OF assms body 0(2)] have 1: "r1 \<noteq> No_answer" "answered d1" by auto
  have "fst (execute (\<lambda>_. Inr ((), store d1)) (d1\<lparr>store := store d0\<rparr>)) \<noteq> No_answer
      \<and> answered (snd (execute (\<lambda>_. Inr ((), store d1)) (d1\<lparr>store := store d0\<rparr>)))"
    using prompt_execute 1(2) unfolding prompt_def by (metis answered_store)
  with 0 1 b body show "fst (transaction body d) \<noteq> No_answer \<and> answered (snd (transaction body d))"
    by (cases r; cases r1) (simp_all add: transaction_def)
qed

lemma prompt_write_batch: "prompt (write_batch rows slot sig)"
  unfolding write_batch_def write_events_def write_trades_def Let_def write_checkpoint_def
  by (auto intro!: prompts)

lemma prompt_write_dead_letters: "prompt (write_dead_letters rows err)"
  unfolding write_dead_letters_def by (auto intro!: prompts)

section \<open>The writer's task comes to its end\<close>

lemma park_answered:
  assumes "answered (db w)"
  shows "status (park err w) = status w \<and> batch (park err w) = [] \<and> answered (db (park err w))"
proof -
  obtain r d where l: "write_dead_letters (batch w) err (db w) = (r, d)" by fastforce
  from promptD [OF prompt_write_dead_letters l assms] l show ?thesis
    by (cases r) (simp_all add: park_def)
qed

lemma flush_answered:
  assumes "answered (db w)"
  shows "status (flush err_text clock w) = status w \<and> batch (flush err_text clock w) = []
    \<and> answered (db (flush err_text clock w))"
proof (cases "max_by_key row_slot (batch w)")
  case None
  with assms show ?thesis by (simp add: flush_def)
next
  case (Some newest)
  obtain r d where wb: "write_batch (batch w) (row_slot newest) (e_signature (pw_event newest)) (db w) = (r, d)"
    by fastforce
  from promptD [OF prompt_write_batch wb assms] have 1: "r \<noteq> No_answer" "answered d" by auto
  then have "answered (db (w\<lparr>db := d, meter := inc DB_WRITE_ERRORS (meter w)\<rparr>))" by simp
  from park_answered [OF this] 1 Some wb show ?thesis
    by (cases r) (simp_all add: flush_def)
qed

definition lively :: "writer \<Rightarrow> bool" where
  "lively w \<longleftrightarrow> answered (db w) \<and> status w \<noteq> Stuck \<and> receiver_alive (queue w)
     \<and> capacity (queue w) = WRITE_QUEUE_SIZE \<and> length (items (queue w)) \<le> WRITE_QUEUE_SIZE"

lemma recv_shape:
  "recv q = Some (x, q') \<Longrightarrow> items q = x # items q' \<and> receiver_alive q' = receiver_alive q
     \<and> capacity q' = capacity q"
  by (cases "items q") (auto simp: recv_def)

lemma flush_lively: "lively w \<Longrightarrow> lively (flush err_text clock w)"
  using flush_answered [of w err_text clock] by (simp add: lively_def flush_frame)

lemma writer_step_lively:
  assumes "writer_step err_text a w = Some w'" "lively w"
  shows "lively w'"
proof (cases a)
  case (Send r)
  with assms show ?thesis by (auto simp: lively_def try_send_def split: if_splits)
next
  case (Tick clock)
  with assms show ?thesis by (auto simp: flush_lively split: if_splits)
next
  case Drop_senders
  with assms show ?thesis by (auto simp: lively_def)
next
  case (Receive clock)
  show ?thesis
  proof (cases "recv (queue w)")
    case None
    have "lively (stop (flush err_text clock w))"
      using flush_lively [OF assms(2), of err_text clock] by (simp add: stop_def lively_def)
    with None Receive assms(1) show ?thesis by (auto split: if_splits)
  next
    case (Some rq)
    obtain r q where rq: "rq = (r, q)" by fastforce
    have "lively (w\<lparr>queue := q, batch := batch w @ [r]\<rparr>)"
      using recv_shape [OF Some [unfolded rq]] assms(2) by (simp add: lively_def)
    with Some rq Receive assms(1) flush_lively show ?thesis by (auto simp: Let_def split: if_splits)
  qed
qed

lemma receive_row:
  assumes "lively w" "status w = Running" "items (queue w) = r # rs"
  shows "\<exists>w'. writer_step err_text (Receive clock) w = Some w' \<and> status w' = Running
    \<and> items (queue w') = rs \<and> senders_dropped w' = senders_dropped w"
proof -
  have q: "recv (queue w) = Some (r, queue w\<lparr>items := rs\<rparr>)" by (simp add: recv_def assms(3))
  let ?w = "w\<lparr>queue := queue w\<lparr>items := rs\<rparr>, batch := batch w @ [r]\<rparr>"
  have "answered (db ?w)" using assms(1) by (simp add: lively_def)
  from flush_answered [OF this] q assms(2) show ?thesis
    by (auto simp: Let_def flush_frame)
qed

lemma receive_end:
  assumes "lively w" "status w = Running" "items (queue w) = []" "senders_dropped w"
  shows "\<exists>w'. writer_step err_text (Receive clock) w = Some w' \<and> status w' = Stopped"
proof -
  have "recv (queue w) = None" by (simp add: recv_def assms(3))
  moreover have "status (flush err_text clock w) = Running"
    using flush_answered [of w err_text clock] assms(1,2) by (simp add: lively_def)
  ultimately show ?thesis using assms(2,4) by (simp add: stop_def)
qed

lemma writer_drains:
  assumes "lively w" "status w = Running" "senders_dropped w"
  shows "\<exists>w'. writer_run err_text (replicate (length (items (queue w)) + 1) (Receive clock)) w = Some w'
    \<and> status w' = Stopped"
  using assms
proof (induction "items (queue w)" arbitrary: w)
  case Nil
  with receive_end [of w err_text clock] show ?case by (auto simp del: writer_step.simps)
next
  case (Cons r rs)
  obtain w1 where w1: "writer_step err_text (Receive clock) w = Some w1" "status w1 = Running"
      "items (queue w1) = rs" "senders_dropped w1"
    using receive_row [OF Cons.prems(1,2), of r rs err_text clock] Cons.hyps(2) Cons.prems(3) by auto
  have "lively w1" by (rule writer_step_lively [OF w1(1) Cons.prems(1)])
  from Cons.hyps(1) [OF w1(3) [symmetric] this w1(2,4)] w1(1,3) Cons.hyps(2) [symmetric] show ?case
    by (simp del: writer_step.simps)
qed

section \<open>The pipeline comes to its end\<close>

text \<open>A state in which the run can go on: what the completion below maintains.\<close>

definition ongoing :: "(db_error \<Rightarrow> string) \<Rightarrow> writer \<Rightarrow> pipeline \<Rightarrow> bool" where
  "ongoing err_text w0 g \<longleftrightarrow> writing err_text w0 g \<and> (\<forall>w. wr g = Some w \<longrightarrow> lively w)"

lemma lively_share: "(\<forall>w. wr (share t g) = Some w \<longrightarrow> lively w) \<longleftrightarrow> (\<forall>w. wr g = Some w \<longrightarrow> lively w)"
  by (cases "wr g") (simp_all add: lively_def)

lemma pipeline_step_lively:
  assumes "pipeline_step err_text c wsol v e g = Some g'" "\<forall>w. wr g = Some w \<longrightarrow> lively w"
  shows "\<forall>w. wr g' = Some w \<longrightarrow> lively w"
proof (cases e)
  case (Process m)
  then obtain s where "g' = (case resolver_tables s of None \<Rightarrow> g\<lparr>ix := s\<rparr> | Some t \<Rightarrow> share t (g\<lparr>ix := s\<rparr>))"
    using assms(1) by (auto split: if_splits)
  then show ?thesis using assms(2) lively_share [of _ "g\<lparr>ix := s\<rparr>"]
    by (cases "resolver_tables s") simp_all
next
  case Hand_over
  then obtain w w' r where "wr g = Some w" "writer_step err_text (Send r) w = Some w'" "wr g' = Some w'"
    using assms(1) by (auto split: option.splits if_splits simp del: writer_step.simps)
  moreover have "lively w'" by (rule writer_step_lively) (use calculation assms(2) in blast)+
  ultimately show ?thesis by simp
next
  case (Write a)
  then obtain w w' where w: "wr g = Some w" "writer_step err_text a w = Some w'"
      "g' = share (store (db w')) (g\<lparr>wr := Some w'\<rparr>)"
    using assms(1) by (cases a; auto split: option.splits if_splits simp del: writer_step.simps)
  have "lively w'" using w(1,2) assms(2) writer_step_lively by blast
  then show ?thesis unfolding w(3) lively_share by simp
next
  case (Elsewhere t)
  with assms show ?thesis
    by (auto simp: lively_def split: option.splits if_splits)
qed

lemma ongoing_step:
  "pipeline_step err_text c wsol v e g = Some g' \<Longrightarrow> ongoing err_text w0 g \<Longrightarrow> ongoing err_text w0 g'"
  unfolding ongoing_def using writing_step pipeline_step_lively by blast

lemma ongoing_run:
  "pipeline_run err_text c wsol v es g = Some g' \<Longrightarrow> ongoing err_text w0 g \<Longrightarrow> ongoing err_text w0 g'"
  by (induction es arbitrary: g) (auto simp: bind_eq_Some_conv simp del: pipeline_step.simps dest: ongoing_step)

text \<open>How many rows the processors still have to hand over, and how many wait in the channel.\<close>

definition backlog :: "pipeline \<Rightarrow> nat" where
  "backlog g = (case outbox (ix g) of None \<Rightarrow> 0 | Some rows \<Rightarrow> length rows - handed g)"

definition finishing :: "'x pl_event list \<Rightarrow> bool" where
  "finishing es \<longleftrightarrow> (\<forall>e \<in> set es. e = Hand_over \<or> e = Write Drop_senders \<or> (\<exists>clock. e = Write (Receive clock)))"

lemma finishing_simps [simp]:
  "finishing []" "finishing (Hand_over # es) = finishing es"
  "finishing (Write Drop_senders # es) = finishing es"
  "finishing (Write (Receive clock) # es) = finishing es"
  "finishing (es @ es') \<longleftrightarrow> finishing es \<and> finishing es'"
  by (auto simp: finishing_def)

lemma pipeline_run_append:
  "pipeline_run err_text c wsol v (es @ es') g =
     Option.bind (pipeline_run err_text c wsol v es g) (pipeline_run err_text c wsol v es')"
  by (induction es arbitrary: g) (auto simp del: pipeline_step.simps split: bind_splits)

lemma write_turn:
  assumes "wr g = Some w" "writer_step err_text (Receive clock) w = Some w'"
  shows "pipeline_step err_text c wsol v (Write (Receive clock)) g =
    Some (share (store (db w')) (g\<lparr>wr := Some w'\<rparr>))"
  using assms by (simp del: writer_step.simps)

lemma own_store [simp]: "w\<lparr>db := (db w)\<lparr>store := store (db w)\<rparr>\<rparr> = w"
  by simp

lemma hand_over_one:
  assumes "ongoing err_text w0 g" "wr g = Some w" "status w = Running" "\<not> senders_dropped w"
    and "backlog g = Suc n"
  shows "\<exists>es g' w'. pipeline_run err_text c wsol v es g = Some g' \<and> finishing es \<and> backlog g' = n
    \<and> wr g' = Some w' \<and> status w' = Running \<and> \<not> senders_dropped w'"
proof -
  obtain rows where rows: "outbox (ix g) = Some rows" "handed g < length rows" "length rows - handed g = Suc n"
    using assms(5) by (auto simp: backlog_def split: option.splits)
  have l: "lively w" using assms(1,2) by (simp add: ongoing_def)
  have sending: "\<exists>g' w'. pipeline_step err_text c wsol v Hand_over h = Some g' \<and> backlog g' = n
      \<and> wr g' = Some w' \<and> status w' = Running \<and> \<not> senders_dropped w'"
    if "wr h = Some u" "status u = Running" "\<not> senders_dropped u" "lively u"
      "length (items (queue u)) < WRITE_QUEUE_SIZE" "outbox (ix h) = Some rows" "handed h = handed g" for h u
    using that rows by (auto simp: lively_def try_send_def backlog_def)
  show ?thesis
  proof (cases "items (queue w)")
    case Nil
    then have "length (items (queue w)) < WRITE_QUEUE_SIZE" by (simp add: WRITE_QUEUE_SIZE_def)
    from sending [OF assms(2-4) l this rows(1) refl] obtain g' w' where
      "pipeline_step err_text c wsol v Hand_over g = Some g'" "backlog g' = n"
      "wr g' = Some w'" "status w' = Running" "\<not> senders_dropped w'" by blast
    then show ?thesis by (intro exI [of _ "[Hand_over]"]) (simp del: pipeline_step.simps)
  next
    case (Cons r rs)
    show ?thesis
    proof (cases "length (items (queue w)) < WRITE_QUEUE_SIZE")
      case True
      from sending [OF assms(2-4) l True rows(1) refl] obtain g' w' where
        "pipeline_step err_text c wsol v Hand_over g = Some g'" "backlog g' = n"
        "wr g' = Some w'" "status w' = Running" "\<not> senders_dropped w'" by blast
      then show ?thesis by (intro exI [of _ "[Hand_over]"]) (simp del: pipeline_step.simps)
    next
      case False
      obtain w1 where w1: "writer_step err_text (Receive id) w = Some w1" "status w1 = Running"
          "items (queue w1) = rs" "senders_dropped w1 = senders_dropped w"
        using receive_row [OF l assms(3) Cons] by blast
      let ?g1 = "share (store (db w1)) (g\<lparr>wr := Some w1\<rparr>)"
      have g1: "pipeline_step err_text c wsol v (Write (Receive id)) g = Some ?g1"
        by (rule write_turn [OF assms(2) w1(1)])
      have parts: "wr ?g1 = Some w1" "outbox (ix ?g1) = Some rows" "handed ?g1 = handed g"
        using rows by simp_all
      have l1: "lively w1" by (rule writer_step_lively [OF w1(1) l])
      have "length (items (queue w1)) < WRITE_QUEUE_SIZE"
        using l Cons w1(3) by (simp add: lively_def)
      from sending [OF parts(1) w1(2) _ l1 this parts(2,3)] w1(4) assms(4) obtain g' w' where
        "pipeline_step err_text c wsol v Hand_over ?g1 = Some g'" "backlog g' = n"
        "wr g' = Some w'" "status w' = Running" "\<not> senders_dropped w'" by auto
      with g1 show ?thesis
        by (intro exI [of _ "[Write (Receive id), Hand_over]"]) (simp del: pipeline_step.simps)
    qed
  qed
qed

lemma hand_over_all:
  assumes "ongoing err_text w0 g" "wr g = Some w" "status w = Running" "\<not> senders_dropped w"
  shows "\<exists>es g' w'. pipeline_run err_text c wsol v es g = Some g' \<and> finishing es \<and> backlog g' = 0
    \<and> wr g' = Some w' \<and> status w' = Running \<and> \<not> senders_dropped w'"
  using assms
proof (induction "backlog g" arbitrary: g w)
  case 0
  then show ?case by (intro exI [of _ "[]"]) auto
next
  case (Suc n)
  obtain es g1 w1 where 1: "pipeline_run err_text c wsol v es g = Some g1" "finishing es" "backlog g1 = n"
      "wr g1 = Some w1" "status w1 = Running" "\<not> senders_dropped w1"
    using hand_over_one [OF Suc.prems Suc.hyps(2) [symmetric]] by blast
  obtain es2 g2 w2 where 2: "pipeline_run err_text c wsol v es2 g1 = Some g2" "finishing es2" "backlog g2 = 0"
      "wr g2 = Some w2" "status w2 = Running" "\<not> senders_dropped w2"
    using Suc.hyps(1) [OF 1(3) [symmetric] ongoing_run [OF 1(1) Suc.prems(1)] 1(4-6)] by blast
  from 1(1,2) 2 show ?case
    by (intro exI [of _ "es @ es2"]) (auto simp: pipeline_run_append)
qed

lemma drain_pipeline:
  assumes "lively w" "wr g = Some w" "status w = Running" "senders_dropped w"
  shows "\<exists>es g'. pipeline_run err_text c wsol v es g = Some g' \<and> finishing es \<and> ended g'"
  using assms
proof (induction "items (queue w)" arbitrary: g w)
  case Nil
  obtain w1 where w1: "writer_step err_text (Receive id) w = Some w1" "status w1 = Stopped"
    using receive_end [OF Nil.prems(1,3) Nil.hyps [symmetric] Nil.prems(4)] by blast
  with write_turn [OF Nil.prems(2) w1(1), of c wsol v] show ?case
    by (intro exI [of _ "[Write (Receive id)]"]) (simp add: ended_def del: pipeline_step.simps)
next
  case (Cons r rs)
  obtain w1 where w1: "writer_step err_text (Receive id) w = Some w1" "status w1 = Running"
      "items (queue w1) = rs" "senders_dropped w1"
    using receive_row [OF Cons.prems(1,3) Cons.hyps(2) [symmetric]] Cons.prems(4) by metis
  let ?g1 = "share (store (db w1)) (g\<lparr>wr := Some w1\<rparr>)"
  have "wr ?g1 = Some w1" by simp
  from Cons.hyps(1) [OF w1(3) [symmetric] writer_step_lively [OF w1(1) Cons.prems(1)] this w1(2,4)]
  obtain es g' where "pipeline_run err_text c wsol v es ?g1 = Some g'" "finishing es" "ended g'" by blast
  with write_turn [OF Cons.prems(2) w1(1), of c wsol v] show ?case
    by (intro exI [of _ "Write (Receive id) # es"]) (simp del: pipeline_step.simps)
qed

lemma ongoing_ends:
  assumes "ongoing err_text w0 g"
  shows "\<exists>es g'. pipeline_run err_text c wsol v es g = Some g' \<and> finishing es \<and> ended g'"
proof -
  obtain w rows where w: "wr g = Some w" "outbox (ix g) = Some rows" "lively w"
    using assms by (auto simp: ongoing_def writing_def)
  consider (stopped) "status w = Stopped" | (draining) "status w = Running" "senders_dropped w"
    | (running) "status w = Running" "\<not> senders_dropped w"
    using w(3) by (cases "status w") (auto simp: lively_def)
  then show ?thesis
  proof cases
    case stopped
    with w(1) show ?thesis by (intro exI [of _ "[]"]) (simp add: ended_def)
  next
    case draining
    then show ?thesis by (rule drain_pipeline [OF w(3,1)])
  next
    case running
    obtain es1 g1 w1 where 1: "pipeline_run err_text c wsol v es1 g = Some g1" "finishing es1"
        "backlog g1 = 0" "wr g1 = Some w1" "status w1 = Running"
      using hand_over_all [OF assms w(1) running] by blast
    have o1: "ongoing err_text w0 g1" by (rule ongoing_run [OF 1(1) assms])
    then obtain rows1 where rows1: "outbox (ix g1) = Some rows1" by (auto simp: ongoing_def writing_def)
    let ?w2 = "w1\<lparr>senders_dropped := True\<rparr>"
    let ?g2 = "share (store (db ?w2)) (g1\<lparr>wr := Some ?w2\<rparr>)"
    have g2: "pipeline_step err_text c wsol v (Write Drop_senders) g1 = Some ?g2"
      using 1(3,4) rows1 by (simp add: backlog_def)
    have "lively ?w2" using o1 1(4) by (simp add: ongoing_def lively_def)
    moreover have "wr ?g2 = Some ?w2" "status ?w2 = Running" "senders_dropped ?w2" using 1(5) by simp_all
    ultimately obtain es3 g3 where "pipeline_run err_text c wsol v es3 ?g2 = Some g3" "finishing es3" "ended g3"
      using drain_pipeline by blast
    with 1(1,2) g2 show ?thesis
      by (intro exI [of _ "es1 @ Write Drop_senders # es3"])
        (simp add: pipeline_run_append del: pipeline_step.simps)
  qed
qed

lemma finishing_moves: "finishing es \<Longrightarrow> moves_of (es0 @ es) = moves_of es0"
proof -
  have 1: "moves_of es = []" if "finishing es" for es :: "'a pl_event list"
    using that by (induction es rule: moves_of.induct) (auto simp: finishing_def)
  have "moves_of (es0 @ es) = moves_of es0 @ moves_of es" for es0 es :: "'a pl_event list"
    by (induction es0 rule: moves_of.induct) simp_all
  with 1 show "finishing es \<Longrightarrow> moves_of (es0 @ es) = moves_of es0" by simp
qed

lemma started_lively:
  assumes "start_pipeline c rpc collect (Some d) answers gaps m = Inr g" "\<forall>b. Hung b \<notin> set answers"
  shows "\<forall>w. wr g = Some w \<longrightarrow> lively w"
proof -
  have "wr g = Some (spawn_writer (d\<lparr>script := answers\<rparr>) WRITE_QUEUE_SIZE m)"
    using assms(1) by (auto simp: start_pipeline_def Let_def split: prod.splits sum.splits if_splits)
  with assms(2) show ?thesis by (simp add: lively_def spawn_writer_def answered_def new_chan_def)
qed

section \<open>Property\<close>



end
