(* ===== verification/Verify.thy ===== *)
theory Verify
  imports Pipeline Datasources
begin

text \<open>
  \<^verbatim>\<open>src/verify.rs\<close>: comparing the database with a capture file or a slot range. Both decode the
  source again in a pipeline without database and RPC client, collect the identities of its
  events, read the stored ones back and compare the two sets.

  \<open>updates\<close> is what the source sends. The framework's way from an update to the processors'
  calls is the argument \<open>deliver\<close>; a run is right for the updates (\<open>fed\<close>) when its calls
  are, in order, those of the updates.
\<close>

section \<open>From updates to calls\<close>

text \<open>What the framework hands a processor, without the clock readings.\<close>

type_synonym 'x call = "ins_meta \<times> ('x pump_swap_instruction + 'x pumpfun_instruction)"

fun call_of :: "'x move \<Rightarrow> 'x call list" where
  "call_of (Swap t i ins) = [(i, Inl ins)]"
| "call_of (Curve t i ins) = [(i, Inr ins)]"
| "call_of (Lookup fetch decode) = []"

definition calls :: "'x pl_event list \<Rightarrow> 'x call list" where
  "calls es = concat (map call_of (moves_of es))"

definition fed :: "('u \<Rightarrow> 'x call list) \<Rightarrow> 'u list \<Rightarrow> 'x pl_event list \<Rightarrow> bool" where
  "fed deliver updates es \<longleftrightarrow> calls es = concat (map deliver updates)"

definition no_clock :: moments where
  "no_clock = \<lparr>started = 0, wall = 0, decoded = 0, checked = 0, asked = 0, queued = 0\<rparr>"

definition event_of_call :: "'x serde \<Rightarrow> 'x call \<Rightarrow> event_row list" where
  "event_of_call v cl = (case snd cl of
      Inl ins \<Rightarrow> events_for v (Swap no_clock (fst cl) ins)
    | Inr ins \<Rightarrow> events_for v (Curve no_clock (fst cl) ins))"

text \<open>The trade events of a list of updates, the specification of what a run records.\<close>

definition stream_events :: "('u \<Rightarrow> 'x call list) \<Rightarrow> 'x serde \<Rightarrow> 'u list \<Rightarrow> event_row list" where
  "stream_events deliver v updates =
     concat (map (event_of_call v) (concat (map deliver updates)))"

lemma event_for_no_clock: "event_for v (Swap t i ins) = event_for v (Swap t' i ins)"
  "event_for v (Curve t i cu) = event_for v (Curve t' i cu)"
proof -
  show "event_for v (Swap t i ins) = event_for v (Swap t' i ins)"
  proof (cases ins)
    case (SwapCpiEvent ev)
    then show ?thesis by (cases ev) simp_all
  qed simp
  show "event_for v (Curve t i cu) = event_for v (Curve t' i cu)" by (cases cu) simp_all
qed

lemma events_of_calls: "events_of v (moves_of es) = concat (map (event_of_call v) (calls es))"
proof -
  have one: "events_for v m = concat (map (event_of_call v) (call_of m))" for m :: "'a move"
  proof (cases m)
    case (Swap t i ins)
    then show ?thesis using event_for_no_clock(1) [of v t i ins no_clock]
      by (simp add: event_of_call_def events_for_def)
  next
    case (Curve t i ins)
    then show ?thesis using event_for_no_clock(2) [of v t i ins no_clock]
      by (simp add: event_of_call_def events_for_def)
  qed (simp add: events_for_def)
  have "events_of v ms = concat (map (event_of_call v) (concat (map call_of ms)))" for ms :: "'a move list"
    by (induction ms) (simp_all add: events_of_def one)
  then show ?thesis by (simp add: calls_def)
qed

lemma fed_events: "fed deliver updates es \<Longrightarrow> events_of v (moves_of es) = stream_events deliver v updates"
  by (simp add: events_of_calls fed_def stream_events_def)

section \<open>The comparison\<close>

record verify_report =
  expected_count :: nat
  actual_count :: nat
  missing_shown :: "event_id list"
  missing_count :: nat
  extra_shown :: "event_id list"
  extra_count :: nat

text \<open>A \<^verbatim>\<open>BTreeSet\<close> is a set whose elements are visited in increasing order.\<close>

definition report :: "event_id set \<Rightarrow> event_id set \<Rightarrow> bool \<times> verify_report" where
  "report expected actual =
     (let missing = sorted_list_of_set (expected - actual);
          extra = sorted_list_of_set (actual - expected)
      in (missing = [] \<and> extra = [],
          \<lparr>expected_count = card expected, actual_count = card actual,
           missing_shown = take 10 missing, missing_count = length missing,
           extra_shown = take 10 extra, extra_count = length extra\<rparr>))"

definition ids_with_signatures ::
  "(event_row list \<Rightarrow> event_row list) \<Rightarrow> string list \<Rightarrow> db \<Rightarrow> event_id list outcome \<times> db" where
  "ids_with_signatures scan sigs = execute (\<lambda>t.
     Inr (map id_of_event (filter (\<lambda>e. e_signature e \<in> set sigs) (scan (events t))), t))"

definition ids_in_slots ::
  "(event_row list \<Rightarrow> event_row list) \<Rightarrow> i64 \<Rightarrow> i64 \<Rightarrow> db \<Rightarrow> event_id list outcome \<times> db" where
  "ids_in_slots scan lo hi = execute (\<lambda>t.
     Inr (map id_of_event (filter (\<lambda>e. lo \<le> e_slot e \<and> e_slot e \<le> hi) (scan (events t))), t))"

definition compare ::
  "event_id list outcome \<times> db \<Rightarrow> event_id set \<Rightarrow> (bool \<times> verify_report) outcome \<times> db" where
  "compare answer expected = (case answer of
      (Answer rows, d) \<Rightarrow> (Answer (report expected (set rows)), d)
    | (Failure e, d) \<Rightarrow> (Failure e, d)
    | (No_answer, d) \<Rightarrow> (No_answer, d))"

text \<open>
  The collecting run of the pipeline: \<open>None\<close> when \<open>es\<close> is not a complete run. The source's
  own error (\<^verbatim>\<open>Err\<close> of \<^verbatim>\<open>consume\<close>) is the framework's to report.
\<close>

definition collect_ids ::
  "(db_error \<Rightarrow> string) \<Rightarrow> codec \<Rightarrow> pubkey \<Rightarrow> 'x serde \<Rightarrow> metrics \<Rightarrow> 'x pl_event list \<Rightarrow> event_id list option" where
  "collect_ids err_text c wsol v m es =
     (case run_pipeline err_text c wsol v False True None [] None m es of
        Inr (Some g) \<Rightarrow> event_ids (ix g)
      | _ \<Rightarrow> None)"

definition run_verify ::
  "(db_error \<Rightarrow> string) \<Rightarrow> codec \<Rightarrow> pubkey \<Rightarrow> 'x serde \<Rightarrow> (event_row list \<Rightarrow> event_row list) \<Rightarrow> metrics \<Rightarrow>
     'x pl_event list \<Rightarrow> db \<Rightarrow> ((bool \<times> verify_report) outcome \<times> db) option" where
  "run_verify err_text c wsol v scan m es d =
     map_option (\<lambda>ids. compare (ids_with_signatures scan (map signature (sorted_list_of_set (set ids))) d)
       (set ids)) (collect_ids err_text c wsol v m es)"

definition run_verify_range ::
  "(db_error \<Rightarrow> string) \<Rightarrow> codec \<Rightarrow> pubkey \<Rightarrow> 'x serde \<Rightarrow> (event_row list \<Rightarrow> event_row list) \<Rightarrow> metrics \<Rightarrow>
     u64 \<Rightarrow> u64 \<Rightarrow> 'x pl_event list \<Rightarrow> db \<Rightarrow> ((bool \<times> verify_report) outcome \<times> db) option" where
  "run_verify_range err_text c wsol v scan m lo hi es d =
     map_option (\<lambda>ids. compare (ids_in_slots scan (as_i64 lo) (as_i64 hi) d) (set ids))
       (collect_ids err_text c wsol v m es)"

section \<open>What the answers mean\<close>

lemma report_clean:
  assumes "finite a" "finite b"
  shows "fst (report a b) \<longleftrightarrow> a = b"
proof -
  have "sorted_list_of_set (a - b) = [] \<longleftrightarrow> a - b = {}" "sorted_list_of_set (b - a) = [] \<longleftrightarrow> b - a = {}"
    using assms by (simp_all only: finite_Diff sorted_list_of_set_eq_Nil_iff)
  then have "fst (report a b) \<longleftrightarrow> a - b = {} \<and> b - a = {}" by (simp only: report_def Let_def fst_conv)
  then show ?thesis unfolding Diff_eq_empty_iff by (rule trans) (rule set_eq_subset [symmetric])
qed

lemma compare_Answer:
  "compare (execute (\<lambda>t. Inr (f t, t)) d) expected = (Answer r, d') \<Longrightarrow>
     r = report expected (set (f (store d))) \<and> store d' = store d"
  by (auto simp: compare_def split: prod.splits outcome.splits dest!: execute_Answer)

lemma collect_ids_run:
  assumes "collect_ids err_text c wsol v m es = Some ids"
  shows "ids = map id_of_event (events_of v (moves_of es))"
proof -
  obtain g where g: "run_pipeline err_text c wsol v False True None [] None m es = Inr (Some g)"
      "event_ids (ix g) = Some ids"
    using assms by (auto simp: collect_ids_def split: sum.splits option.splits)
  from collecting_run [OF g(1)] g(2) show ?thesis by simp
qed

text \<open>The identity of a row is read off its key.\<close>

definition key_id :: "row_key \<Rightarrow> event_id" where
  "key_id k = (case k of (s, p, n) \<Rightarrow> EventId s p (as_u32 n))"

lemma id_of_event_key: "id_of_event e = key_id (event_key e)"
  by (simp add: id_of_event_def key_id_def event_key_def)

lemma ids_insert:
  "id_of_event ` set (insert_do_nothing event_key tbl rows) = id_of_event ` set tbl \<union> id_of_event ` set rows"
proof -
  have i: "id_of_event ` S = key_id ` event_key ` S" for S by (simp add: image_image id_of_event_key)
  show ?thesis unfolding i by (simp add: image_Un)
qed

definition stored_ids :: "(event_row \<Rightarrow> bool) \<Rightarrow> tables \<Rightarrow> event_id set" where
  "stored_ids P t = id_of_event ` {e \<in> set (events t). P e}"

lemma run_verify_answer:
  assumes "run_verify err_text c wsol v scan m es d = Some (Answer (clean, rep), d')" "scan_ok scan"
  shows "let expected = id_of_event ` set (events_of v (moves_of es)) in
    (clean, rep) = report expected (stored_ids (\<lambda>e. e_signature e \<in> signature ` expected) (store d))"
proof -
  obtain ids where ids: "collect_ids err_text c wsol v m es = Some ids"
      "compare (ids_with_signatures scan (map signature (sorted_list_of_set (set ids))) d) (set ids)
         = (Answer (clean, rep), d')"
    using assms(1) by (auto simp: run_verify_def)
  let ?sigs = "set (map signature (sorted_list_of_set (set ids)))"
  have e: "set ids = id_of_event ` set (events_of v (moves_of es))"
    by (simp add: collect_ids_run [OF ids(1)])
  have "?sigs = signature ` set ids" by simp
  then have "set (map id_of_event (filter (\<lambda>e. e_signature e \<in> ?sigs) (scan (events (store d))))) =
      stored_ids (\<lambda>e. e_signature e \<in> signature ` set ids) (store d)"
    by (simp only: set_map set_filter scan_ok_set [OF assms(2)] stored_ids_def)
  with compare_Answer [OF ids(2) [unfolded ids_with_signatures_def]]
  have "(clean, rep) = report (set ids) (stored_ids (\<lambda>e. e_signature e \<in> signature ` set ids) (store d))"
    by metis
  then show ?thesis unfolding Let_def e .
qed

lemma run_verify_range_answer:
  assumes "run_verify_range err_text c wsol v scan m lo hi es d = Some (Answer (clean, rep), d')" "scan_ok scan"
  shows "(clean, rep) = report (id_of_event ` set (events_of v (moves_of es)))
    (stored_ids (\<lambda>e. as_i64 lo \<le> e_slot e \<and> e_slot e \<le> as_i64 hi) (store d))"
proof -
  obtain ids where ids: "collect_ids err_text c wsol v m es = Some ids"
      "compare (ids_in_slots scan (as_i64 lo) (as_i64 hi) d) (set ids) = (Answer (clean, rep), d')"
    using assms(1) by (auto simp: run_verify_range_def)
  have "set ids = id_of_event ` set (events_of v (moves_of es))"
    by (simp add: collect_ids_run [OF ids(1)])
  with compare_Answer [OF ids(2) [unfolded ids_in_slots_def]] scan_ok_set [OF assms(2)]
  show ?thesis by (simp add: stored_ids_def)
qed

lemma finite_stored_ids [simp]: "finite (stored_ids P t)"
  by (simp add: stored_ids_def)

section \<open>Properties\<close>

text \<open>The sample stream again, as the calls the framework makes for it.\<close>

definition sample_updates :: "unit call list" where
  "sample_updates = concat (map call_of sample_stream)"

definition one_call :: "unit call \<Rightarrow> unit call list" where
  "one_call cl = [cl]"

definition sample_reading :: "unit pl_event list" where
  "sample_reading = map Process sample_stream"

lemma moves_of_process: "moves_of (map Process ms) = ms"
  by (induction ms) simp_all

lemma concat_one_call: "concat (map one_call xs) = xs"
  by (induction xs) (simp_all add: one_call_def)

lemma sample_fed: "fed one_call sample_updates sample_schedule" "fed one_call sample_updates sample_reading"
  by (simp_all add: fed_def calls_def sample_schedule_moves sample_reading_def moves_of_process
      sample_updates_def concat_one_call)

lemma sample_collects: "\<exists>ids. collect_ids (\<lambda>_. ''refused'') byte_codec (sample_key 1) sample_serde new_metrics
    sample_reading = Some ids"
  by (simp add: collect_ids_def run_pipeline_def start_pipeline_def sample_reading_def
      sample_stream_def share_def resolver_tables_def sending_def process_pumpswap_def
      process_pumpfun_def swap_arm_def resolve_def record_event_def send_row_def row_of_def
      sample_meta_def sample_buy_def sample_curve_def sample_moments_def
      sample_serde_def check_slot_def ended_def Let_def)

lemma run_verify_answers:
  assumes "healthy d" "collect_ids err_text c wsol v m es = Some ids"
  shows "\<exists>clean rep d'. run_verify err_text c wsol v scan m es d = Some (Answer (clean, rep), d')"
    and "\<exists>clean rep d'. run_verify_range err_text c wsol v scan m lo hi es d = Some (Answer (clean, rep), d')"
proof -
  have a: "\<exists>r d'. compare (execute (\<lambda>t. Inr (f t, t)) d) (set ids) = (Answer r, d')" for f
    using execute_healthy [OF assms(1), of "\<lambda>t. Inr (f t, t)"] by (auto simp: compare_def)
  show "\<exists>clean rep d'. run_verify err_text c wsol v scan m es d = Some (Answer (clean, rep), d')"
    "\<exists>clean rep d'. run_verify_range err_text c wsol v scan m lo hi es d = Some (Answer (clean, rep), d')"
    using a by (auto simp: run_verify_def run_verify_range_def assms(2) ids_with_signatures_def
        ids_in_slots_def)
qed

lemma report_counts:
  "missing_count (snd (report a b)) = card (a - b)" "extra_count (snd (report a b)) = card (b - a)"
  by (simp_all add: report_def Let_def)

text \<open>
  Claim C17. Verification is exact in both directions: it answers clean just when the identities
  of the file's trade events are those of the stored events with the file's signatures, and it
  counts the ones missing and the ones too many.
\<close>

theorem verify_is_exact:
  assumes "run_verify err_text c wsol v scan m es d = Some (Answer (clean, rep), d')" "scan_ok scan"
    and "fed deliver updates es"
  shows "let expected = id_of_event ` set (stream_events deliver v updates);
             actual = stored_ids (\<lambda>e. e_signature e \<in> signature ` expected) (store d)
    in (clean \<longleftrightarrow> expected = actual) \<and> missing_count rep = card (expected - actual)
      \<and> extra_count rep = card (actual - expected)"
proof -
  let ?expected = "id_of_event ` set (stream_events deliver v updates)"
  let ?actual = "stored_ids (\<lambda>e. e_signature e \<in> signature ` ?expected) (store d)"
  have r: "(clean, rep) = report ?expected ?actual"
    using run_verify_answer [OF assms(1,2)] unfolding fed_events [OF assms(3)] Let_def .
  have "clean = fst (report ?expected ?actual)" "rep = snd (report ?expected ?actual)"
    by (simp_all flip: r)
  then show ?thesis
    unfolding Let_def by (simp only: report_clean report_counts finite_imageI finite_set finite_stored_ids simp_thms)
qed

theorem verify_is_exact_witness:
  "\<exists>clean rep d'. run_verify (\<lambda>_. ''refused'') byte_codec (sample_key 1) sample_serde (\<lambda>es. es) new_metrics
      sample_reading (sample_db []) = Some (Answer (clean, rep), d')
    \<and> missing_count rep = card (id_of_event ` set (stream_events one_call sample_serde sample_updates))"
proof -
  obtain ids where "collect_ids (\<lambda>_. ''refused'') byte_codec (sample_key 1) sample_serde new_metrics
      sample_reading = Some ids" using sample_collects by blast
  moreover have "healthy (sample_db [])" by (simp add: sample_db_def healthy_def)
  ultimately obtain clean rep d' where r: "run_verify (\<lambda>_. ''refused'') byte_codec (sample_key 1)
      sample_serde (\<lambda>es. es) new_metrics sample_reading (sample_db []) = Some (Answer (clean, rep), d')"
    using run_verify_answers(1) by blast
  have "scan_ok (\<lambda>es :: event_row list. es)" by (simp add: scan_ok_def)
  moreover have "stored_ids P (store (sample_db [])) = {}" for P
    by (simp add: stored_ids_def sample_db_def empty_tables_def)
  ultimately have "missing_count rep = card (id_of_event ` set (stream_events one_call sample_serde sample_updates))"
    using verify_is_exact [OF r _ sample_fed(2)] by (simp only: Let_def Diff_empty)
  with r show ?thesis by blast
qed

lemma stored_ids_signature:
  "stored_ids (\<lambda>e. e_signature e \<in> A) t = {i \<in> id_of_event ` set (events t). signature i \<in> A}"
  by (auto simp: stored_ids_def id_of_event_def)

lemma ingested_verifies:
  assumes "run_pipeline err_text c wsol v rpc collect (Some d) answers gaps m es = Inr (Some g)"
    and "tables_ok (store d)" "set answers \<subseteq> {Done}" "fed deliver updates es" "wr g = Some w"
    and "run_verify err_text' c' wsol' v scan m' es' dv = Some (Answer (clean, rep), d')" "scan_ok scan"
    and "store dv = store (db w)" "fed deliver updates es'"
    and "stored_ids (\<lambda>e. e_signature e \<in> signature ` id_of_event ` set (stream_events deliver v updates)) (store d)
      \<subseteq> id_of_event ` set (stream_events deliver v updates)"
  shows clean
proof -
  let ?new = "stream_events deliver v updates"
  let ?E = "id_of_event ` set ?new"
  let ?P = "\<lambda>e. e_signature e \<in> signature ` ?E"
  have ev: "events (store dv) = insert_do_nothing event_key (events (store d)) ?new"
    using pipeline_stream [OF assms(1) view_ok [OF assms(2)] assms(3)] assms(5)
    by (auto simp: assms(8) fed_events [OF assms(4)])
  have ids: "id_of_event ` set (events (store dv)) = id_of_event ` set (events (store d)) \<union> ?E"
    unfolding ev by (rule ids_insert)
  have "stored_ids ?P (store dv) = stored_ids ?P (store d) \<union> ?E"
    unfolding stored_ids_signature ids by blast
  then have eq: "?E = stored_ids ?P (store dv)" using assms(10) by blast
  have "(clean, rep) = report ?E (stored_ids ?P (store dv))"
    using run_verify_answer [OF assms(6,7)] unfolding fed_events [OF assms(9)] Let_def .
  then have "clean = fst (report ?E (stored_ids ?P (store dv)))" by (metis fst_conv)
  then show clean using eq by (simp only: report_clean finite_imageI finite_set finite_stored_ids)
qed

text \<open>
  Claim C7. What was ingested verifies. After a pipeline run over some updates whose writer's
  connection executed every statement, verifying the same updates against the resulting tables
  answers clean, provided that no older row shares a signature with the stream without being
  one of its events.
\<close>

theorem ingest_then_verify_is_clean:
  assumes "run_pipeline err_text c wsol v rpc collect (Some d) answers gaps m es = Inr (Some g)"
    and "tables_ok (store d)" "set answers \<subseteq> {Done}" "fed deliver updates es" "wr g = Some w"
    and "run_verify err_text' c' wsol' v scan m' es' dv = Some (Answer (clean, rep), d')" "scan_ok scan"
    and "store dv = store (db w)" "fed deliver updates es'"
    and "stored_ids (\<lambda>e. e_signature e \<in> signature ` id_of_event ` set (stream_events deliver v updates)) (store d)
      \<subseteq> id_of_event ` set (stream_events deliver v updates)"
  shows clean
  by (rule ingested_verifies [OF assms])

theorem ingest_then_verify_is_clean_witness:
  "\<exists>g w clean rep d'. sample_pipeline = Inr (Some g) \<and> wr g = Some w
    \<and> run_verify (\<lambda>_. ''refused'') byte_codec (sample_key 1) sample_serde (\<lambda>es. es) new_metrics
        sample_reading \<lparr>store = store (db w), script = []\<rparr> = Some (Answer (clean, rep), d') \<and> clean"
proof -
  obtain g where g: "sample_pipeline = Inr (Some g)" using sample_pipeline_ends by blast
  note run = g [unfolded sample_pipeline_def]
  have ok: "tables_ok (store (sample_db []))" by (simp add: sample_db_def tables_ok_empty)
  obtain w where w: "wr g = Some w" using pipeline_stream [OF run view_ok [OF ok]] by auto
  let ?d = "\<lparr>store = store (db w), script = []\<rparr>"
  obtain ids where "collect_ids (\<lambda>_. ''refused'') byte_codec (sample_key 1) sample_serde new_metrics
      sample_reading = Some ids" using sample_collects by blast
  moreover have "healthy ?d" by (simp add: healthy_def)
  ultimately obtain clean rep d' where r: "run_verify (\<lambda>_. ''refused'') byte_codec (sample_key 1)
      sample_serde (\<lambda>es. es) new_metrics sample_reading ?d = Some (Answer (clean, rep), d')"
    using run_verify_answers(1) by blast
  have old: "stored_ids P (store (sample_db [])) \<subseteq> S" for P S
    by (simp add: stored_ids_def sample_db_def empty_tables_def)
  have "scan_ok (\<lambda>es :: event_row list. es)" "store ?d = store (db w)" "set [] \<subseteq> {Done}" by (simp_all add: scan_ok_def)
  from ingest_then_verify_is_clean [OF run ok this(3) sample_fed(1) w r this(1,2) sample_fed(2) old] g w r
  show ?thesis by blast
qed

text \<open>
  Checking a slot range compares what the chain returned with everything stored for
  those slots: a stored event of the range that the chain's blocks do not explain is counted as
  extra, so the answer is clean only when the two sets are equal.
\<close>

theorem verify_range_is_exact:
  assumes "run_verify_range err_text c wsol v scan m lo hi es d = Some (Answer (clean, rep), d')" "scan_ok scan"
    and "fed deliver updates es"
  shows "let expected = id_of_event ` set (stream_events deliver v updates);
             actual = stored_ids (\<lambda>e. as_i64 lo \<le> e_slot e \<and> e_slot e \<le> as_i64 hi) (store d)
    in (clean \<longleftrightarrow> expected = actual) \<and> missing_count rep = card (expected - actual)
      \<and> extra_count rep = card (actual - expected)"
proof -
  let ?expected = "id_of_event ` set (stream_events deliver v updates)"
  let ?actual = "stored_ids (\<lambda>e. as_i64 lo \<le> e_slot e \<and> e_slot e \<le> as_i64 hi) (store d)"
  have r: "(clean, rep) = report ?expected ?actual"
    using run_verify_range_answer [OF assms(1,2)] unfolding fed_events [OF assms(3)] .
  have "clean = fst (report ?expected ?actual)" "rep = snd (report ?expected ?actual)"
    by (simp_all flip: r)
  then show ?thesis
    unfolding Let_def by (simp only: report_clean report_counts finite_imageI finite_set finite_stored_ids simp_thms)
qed

theorem verify_range_is_exact_witness:
  "\<exists>clean rep d'. run_verify_range (\<lambda>_. ''refused'') byte_codec (sample_key 1) sample_serde (\<lambda>es. es) new_metrics
      100 110 sample_reading (sample_db []) = Some (Answer (clean, rep), d')
    \<and> missing_count rep = card (id_of_event ` set (stream_events one_call sample_serde sample_updates))"
proof -
  obtain ids where "collect_ids (\<lambda>_. ''refused'') byte_codec (sample_key 1) sample_serde new_metrics
      sample_reading = Some ids" using sample_collects by blast
  moreover have "healthy (sample_db [])" by (simp add: sample_db_def healthy_def)
  ultimately obtain clean rep d' where r: "run_verify_range (\<lambda>_. ''refused'') byte_codec (sample_key 1)
      sample_serde (\<lambda>es. es) new_metrics 100 110 sample_reading (sample_db []) = Some (Answer (clean, rep), d')"
    using run_verify_answers(2) by blast
  have "scan_ok (\<lambda>es :: event_row list. es)" by (simp add: scan_ok_def)
  moreover have "stored_ids P (store (sample_db [])) = {}" for P
    by (simp add: stored_ids_def sample_db_def empty_tables_def)
  ultimately have "missing_count rep = card (id_of_event ` set (stream_events one_call sample_serde sample_updates))"
    using verify_range_is_exact [OF r _ sample_fed(2)] by (simp only: Let_def Diff_empty)
  with r show ?thesis by blast
qed

text \<open>
  A file of which nothing can be decoded verifies as clean: with no update sent, both
  sets are empty, and the answer is the same as for a file that is fully stored.
\<close>

theorem verify_passes_empty_file:
  assumes "run_verify err_text c wsol v scan m es d = Some (Answer (clean, rep), d')" "scan_ok scan"
    and "fed deliver [] es"
  shows "clean \<and> expected_count rep = 0"
proof -
  have "(clean, rep) = report {} {}"
    using run_verify_answer [OF assms(1,2)] unfolding fed_events [OF assms(3)]
    by (simp add: stream_events_def stored_ids_def Let_def)
  then show ?thesis by (simp add: report_def)
qed

theorem verify_passes_empty_file_witness:
  "\<exists>clean rep d'. run_verify (\<lambda>_. ''refused'') byte_codec (sample_key 1) sample_serde (\<lambda>es. es) new_metrics
      [] (sample_db []) = Some (Answer (clean, rep), d') \<and> clean"
proof -
  have "\<exists>ids. collect_ids (\<lambda>_. ''refused'') byte_codec (sample_key 1) sample_serde new_metrics [] = Some ids"
    by (simp add: collect_ids_def run_pipeline_def start_pipeline_def ended_def)
  moreover have "healthy (sample_db [])" by (simp add: sample_db_def healthy_def)
  ultimately obtain clean rep d' where r: "run_verify (\<lambda>_. ''refused'') byte_codec (sample_key 1)
      sample_serde (\<lambda>es. es) new_metrics [] (sample_db []) = Some (Answer (clean, rep), d')"
    using run_verify_answers(1) by blast
  have "scan_ok (\<lambda>es :: event_row list. es)" "fed one_call [] []" by (simp_all add: scan_ok_def fed_def calls_def)
  from verify_passes_empty_file [OF r this] r show ?thesis by blast
qed

end
