(* ===== verification/Recover.thy ===== *)
theory Recover
  imports Verify
begin

text \<open>
  \<^verbatim>\<open>src/recover.rs\<close>: fetching the slots of the recorded gaps again. For each open gap, in the
  order of their identifiers, the range is widened by 64 slots on both sides; a range that a
  range of this run already covers is only marked, any other goes through a pipeline over the
  backfill source between the marks \<^verbatim>\<open>recovering\<close> and \<^verbatim>\<open>closed\<close>.

  The run of the pipeline for a range is an argument, a \<open>stage\<close>: its events, and the replies its
  two connections get. The clock of the database is an argument too.
\<close>

definition GAP_OVERLAP_SLOTS :: u64 where "GAP_OVERLAP_SLOTS = 64"

record 'x stage =
  st_run :: "'x pl_event list"
  st_writer :: "reply list"
  st_resolver :: "reply list"

datatype recover_end =
    Recovered
  | Db_error db_error
  | Pipeline_error prime_error
  | Waiting

definition gap_from :: "open_gap \<Rightarrow> u64" where
  "gap_from g = saturating_sub (as_u64 (og_start g)) GAP_OVERLAP_SLOTS"

definition gap_to :: "open_gap \<Rightarrow> u64" where
  "gap_to g = as_u64 (og_end g) + GAP_OVERLAP_SLOTS"

definition covers :: "(u64 \<times> u64) list \<Rightarrow> u64 \<Rightarrow> u64 \<Rightarrow> bool" where
  "covers covered from_slot to_slot \<longleftrightarrow> list_ex (\<lambda>(a, b). a \<le> from_slot \<and> to_slot \<le> b) covered"

definition after_mark ::
  "unit outcome \<times> db \<Rightarrow> (db \<Rightarrow> (recover_end \<times> db) option) \<Rightarrow> (recover_end \<times> db) option" where
  "after_mark x k = (case x of
      (Answer _, d) \<Rightarrow> k d
    | (Failure e, d) \<Rightarrow> Some (Db_error e, d)
    | (No_answer, d) \<Rightarrow> Some (Waiting, d))"

text \<open>
  The pipeline of one range: what it leaves in the database. \<open>None\<close> when the stage is not a
  complete run.
\<close>

definition run_stage ::
  "(db_error \<Rightarrow> string) \<Rightarrow> codec \<Rightarrow> pubkey \<Rightarrow> 'x serde \<Rightarrow> metrics \<Rightarrow> 'x stage \<Rightarrow> db \<Rightarrow>
     (prime_error + db) option" where
  "run_stage err_text c wsol v m st d =
     (case run_pipeline err_text c wsol v True False (Some (d\<lparr>script := st_resolver st\<rparr>)) (st_writer st)
             None m (st_run st) of
        Inl e \<Rightarrow> Some (Inl e)
      | Inr None \<Rightarrow> None
      | Inr (Some g) \<Rightarrow> map_option (\<lambda>w. Inr (d\<lparr>store := store (db w)\<rparr>)) (wr g))"

fun recover_loop ::
  "(nat \<Rightarrow> db \<Rightarrow> i64 \<Rightarrow> string \<Rightarrow> unit outcome \<times> db) \<Rightarrow> (u64 \<Rightarrow> u64 \<Rightarrow> db \<Rightarrow> (prime_error + db) option) \<Rightarrow>
     nat \<Rightarrow> open_gap list \<Rightarrow> (u64 \<times> u64) list \<Rightarrow> db \<Rightarrow> (recover_end \<times> db) option" where
  "recover_loop mark fetch i [] covered d = Some (Recovered, d)"
| "recover_loop mark fetch i (g # gs) covered d =
     (if covers covered (gap_from g) (gap_to g)
      then after_mark (mark i d (og_id g) ''closed'') (recover_loop mark fetch (i + 1) gs covered)
      else after_mark (mark i d (og_id g) ''recovering'') (\<lambda>d1.
        case fetch (gap_from g) (gap_to g) d1 of
          None \<Rightarrow> None
        | Some (Inl e) \<Rightarrow> Some (Pipeline_error e, d1)
        | Some (Inr d2) \<Rightarrow>
            after_mark (mark (i + 1) d2 (og_id g) ''closed'')
              (recover_loop mark fetch (i + 2) gs (covered @ [(gap_from g, gap_to g)]))))"

definition run_recover ::
  "(db_error \<Rightarrow> string) \<Rightarrow> codec \<Rightarrow> pubkey \<Rightarrow> 'x serde \<Rightarrow> metrics \<Rightarrow> (nat \<Rightarrow> nat) \<Rightarrow>
     (u64 \<Rightarrow> u64 \<Rightarrow> 'x stage) \<Rightarrow> db \<Rightarrow> (recover_end \<times> db) option" where
  "run_recover err_text c wsol v m clock stages d =
     (case open_gaps d of
        (Answer gs, d1) \<Rightarrow>
          recover_loop (\<lambda>i d gap status. mark_gap (clock i) gap status d)
            (\<lambda>a b. run_stage err_text c wsol v m (stages a b)) 0 gs [] d1
      | (Failure e, d1) \<Rightarrow> Some (Db_error e, d1)
      | (No_answer, d1) \<Rightarrow> Some (Waiting, d1))"

section \<open>What recovery relies on\<close>

text \<open>
  The contract between recovery and the fetching of a range: a fetch that succeeds leaves the
  gaps as they are, what the range holds is then stored, and nothing stored is lost. The marks
  touch none of this.
\<close>

locale refetching =
  fixes fetch :: "u64 \<Rightarrow> u64 \<Rightarrow> db \<Rightarrow> (prime_error + db) option"
    and good :: "u64 \<Rightarrow> u64 \<Rightarrow> bool"
    and inv :: "tables \<Rightarrow> bool"
    and got :: "u64 \<Rightarrow> u64 \<Rightarrow> tables \<Rightarrow> bool"
  assumes fetched: "good a b \<Longrightarrow> healthy d \<Longrightarrow> inv (store d) \<Longrightarrow> fetch a b d = Some (Inr d') \<Longrightarrow>
      healthy d' \<and> inv (store d') \<and> stream_gaps (store d') = stream_gaps (store d) \<and> got a b (store d')"
    and kept: "good a b \<Longrightarrow> healthy d \<Longrightarrow> inv (store d) \<Longrightarrow> fetch a b d = Some (Inr d') \<Longrightarrow>
      got p q (store d) \<Longrightarrow> got p q (store d')"
    and marked: "inv (t\<lparr>stream_gaps := gs\<rparr>) = inv t" "got a b (t\<lparr>stream_gaps := gs\<rparr>) = got a b t"
begin

lemma mark_effect:
  assumes "healthy d" "gap_status_ok label"
  obtains d' where "mark_gap now i label d = (Answer (), d')" "healthy d'"
    "store d' = (store d)\<lparr>stream_gaps :=
       map (\<lambda>g. if g_id g = i then mark_row now label g else g) (stream_gaps (store d))\<rparr>"
proof -
  have "mark_stmt now i label (store d) = Inr ((), (store d)\<lparr>stream_gaps :=
       map (\<lambda>g. if g_id g = i then mark_row now label g else g) (stream_gaps (store d))\<rparr>)"
    using assms(2) by (simp add: mark_stmt_def)
  from execute_healthy [of d "mark_stmt now i label", OF assms(1) this] that show ?thesis
    by (auto simp: mark_gap_def)
qed

text \<open>How the rows of a table relate before and after the gaps \<open>ids\<close> were closed.\<close>

definition closing :: "i64 set \<Rightarrow> gap_row list \<Rightarrow> gap_row list \<Rightarrow> bool" where
  "closing ids old new \<longleftrightarrow> list_all2 (\<lambda>g h. g_id h = g_id g \<and> gap_range h = gap_range g
     \<and> (if g_id g \<in> ids then g_status h = ''closed'' else h = g)) old new"

lemma closing_mark:
  "closing ids (map (\<lambda>g. if g_id g = i then mark_row now ''closed'' g else g) old) new \<Longrightarrow>
     closing (insert i ids) old new"
  unfolding closing_def list_all2_map1
  by (erule list_all2_mono) (auto split: if_splits)

lemma closing_twice:
  "closing ids (map (\<lambda>g. if g_id g = i then mark_row now ''closed'' g else g)
      (map (\<lambda>g. if g_id g = i then mark_row now' ''recovering'' g else g) old)) new \<Longrightarrow>
     closing (insert i ids) old new"
  unfolding closing_def list_all2_map1
  by (erule list_all2_mono) (auto split: if_splits)

lemma recover_loop_closes:
  "recover_loop (\<lambda>i d gap status. mark_gap (clock i) gap status d) fetch i gs covered d = Some (Recovered, d') \<Longrightarrow>
   healthy d \<Longrightarrow> inv (store d) \<Longrightarrow> \<forall>g \<in> set gs. good (gap_from g) (gap_to g) \<Longrightarrow>
   \<forall>(a, b) \<in> set covered. got a b (store d) \<Longrightarrow>
   closing (og_id ` set gs) (stream_gaps (store d)) (stream_gaps (store d'))
   \<and> (\<forall>g \<in> set gs. \<exists>a b. a \<le> gap_from g \<and> gap_to g \<le> b \<and> got a b (store d'))
   \<and> (\<forall>(a, b) \<in> set covered. got a b (store d')) \<and> inv (store d')"
proof (induction gs arbitrary: i covered d)
  case Nil
  then show ?case by (auto simp: closing_def intro: list_all2_refl)
next
  case (Cons g gs)
  let ?close = "\<lambda>k. map (\<lambda>h. if g_id h = og_id g then mark_row k ''closed'' h else h)"
  have st: "gap_status_ok ''closed''" "gap_status_ok ''recovering''" by (simp_all add: gap_status_ok_def)
  show ?case
  proof (cases "covers covered (gap_from g) (gap_to g)")
    case True
    obtain d1 where d1: "mark_gap (clock i) (og_id g) ''closed'' d = (Answer (), d1)" "healthy d1"
        "store d1 = (store d)\<lparr>stream_gaps := ?close (clock i) (stream_gaps (store d))\<rparr>"
      by (rule mark_effect [OF Cons.prems(2) st(1)])
    have run: "recover_loop (\<lambda>i d gap status. mark_gap (clock i) gap status d) fetch (i + 1) gs covered d1 = Some (Recovered, d')"
      using Cons.prems(1) True d1(1) by (simp add: after_mark_def)
    have ok1: "inv (store d1)" "\<forall>(a, b) \<in> set covered. got a b (store d1)"
      using Cons.prems(3,5) by (simp_all only: d1(3) marked)
    have good: "\<forall>g \<in> set gs. good (gap_from g) (gap_to g)" using Cons.prems(4) by simp
    have IH: "closing (og_id ` set gs) (stream_gaps (store d1)) (stream_gaps (store d'))"
      "\<forall>g \<in> set gs. \<exists>a b. a \<le> gap_from g \<and> gap_to g \<le> b \<and> got a b (store d')"
      "\<forall>(a, b) \<in> set covered. got a b (store d')" "inv (store d')"
      using Cons.IH [OF run d1(2) ok1(1) good ok1(2)] by blast+
    have "closing (insert (og_id g) (og_id ` set gs)) (stream_gaps (store d)) (stream_gaps (store d'))"
      by (rule closing_mark) (use IH(1) d1(3) in simp)
    moreover obtain a b where ab: "(a, b) \<in> set covered" "a \<le> gap_from g" "gap_to g \<le> b"
      using True by (auto simp: covers_def list_ex_iff)
    moreover have "got a b (store d')" using IH(3) ab(1) by blast
    ultimately have "\<exists>a b. a \<le> gap_from g \<and> gap_to g \<le> b \<and> got a b (store d')" by blast
    with \<open>closing (insert (og_id g) (og_id ` set gs)) (stream_gaps (store d)) (stream_gaps (store d'))\<close>
      IH(2-4) show ?thesis by simp
  next
    case False
    obtain d1 where d1: "mark_gap (clock i) (og_id g) ''recovering'' d = (Answer (), d1)" "healthy d1"
        "store d1 = (store d)\<lparr>stream_gaps := map (\<lambda>h. if g_id h = og_id g
           then mark_row (clock i) ''recovering'' h else h) (stream_gaps (store d))\<rparr>"
      by (rule mark_effect [OF Cons.prems(2) st(2)])
    obtain d2 where f: "fetch (gap_from g) (gap_to g) d1 = Some (Inr d2)"
      using Cons.prems(1) False d1(1) by (auto simp: after_mark_def split: option.splits sum.splits)
    have g: "good (gap_from g) (gap_to g)" and inv1: "inv (store d1)"
      using Cons.prems(3,4) by (simp_all add: d1(3) marked)
    note f2 = fetched [OF g d1(2) inv1 f]
    then have h2: "healthy d2" by blast
    obtain d3 where d3: "mark_gap (clock (i + 1)) (og_id g) ''closed'' d2 = (Answer (), d3)" "healthy d3"
        "store d3 = (store d2)\<lparr>stream_gaps := ?close (clock (i + 1)) (stream_gaps (store d2))\<rparr>"
      by (rule mark_effect [OF h2 st(1)])
    let ?cov = "covered @ [(gap_from g, gap_to g)]"
    have run: "recover_loop (\<lambda>i d gap status. mark_gap (clock i) gap status d) fetch (i + 2) gs ?cov d3 = Some (Recovered, d')"
      using Cons.prems(1) False d1(1) f d3(1) by (simp add: after_mark_def)
    have inv3: "inv (store d3)" using f2 unfolding d3(3) marked by blast
    have "\<forall>(a, b) \<in> set covered. got a b (store d1)" using Cons.prems(5) unfolding d1(3) marked .
    then have cov3: "\<forall>(a, b) \<in> set ?cov. got a b (store d3)"
      using f2 kept [OF g d1(2) inv1 f] unfolding d3(3) marked by simp blast
    have good: "\<forall>g \<in> set gs. good (gap_from g) (gap_to g)" using Cons.prems(4) by simp
    have IH: "closing (og_id ` set gs) (stream_gaps (store d3)) (stream_gaps (store d'))"
      "\<forall>g \<in> set gs. \<exists>a b. a \<le> gap_from g \<and> gap_to g \<le> b \<and> got a b (store d')"
      "\<forall>(a, b) \<in> set ?cov. got a b (store d')" "inv (store d')"
      using Cons.IH [OF run d3(2) inv3 good cov3] by blast+
    have "stream_gaps (store d2) = stream_gaps (store d1)" using f2 by blast
    then have "closing (insert (og_id g) (og_id ` set gs)) (stream_gaps (store d)) (stream_gaps (store d'))"
      by (intro closing_twice [of _ _ "clock (i + 1)" "clock i"]) (use IH(1) d1(3) d3(3) in simp)
    moreover have "got (gap_from g) (gap_to g) (store d')" using IH(3) by simp
    then have "\<exists>a b. a \<le> gap_from g \<and> gap_to g \<le> b \<and> got a b (store d')" by blast
    ultimately show ?thesis using IH(2-4) by simp
  qed
qed

end

section \<open>Fetching through a pipeline\<close>

text \<open>A stage on a database that executes every statement, nothing else writing meanwhile.\<close>

definition quiet_stage :: "'x stage \<Rightarrow> bool" where
  "quiet_stage st \<longleftrightarrow> set (st_writer st) \<subseteq> {Done} \<and> list_all own_event (st_run st)"

definition range_stored :: "'x serde \<Rightarrow> 'x stage \<Rightarrow> tables \<Rightarrow> bool" where
  "range_stored v st t \<longleftrightarrow>
     event_key ` set (events_of v (moves_of (st_run st))) \<subseteq> event_key ` set (events t)"

lemma run_stage_effect:
  assumes "quiet_stage st" "healthy d" "tables_ok (writer_view (store d))"
    and "run_stage err_text c wsol v m st d = Some (Inr d')"
  shows "healthy d' \<and> tables_ok (writer_view (store d')) \<and> stream_gaps (store d') = stream_gaps (store d)
    \<and> events (store d') = insert_do_nothing event_key (events (store d)) (events_of v (moves_of (st_run st)))"
proof -
  let ?d = "d\<lparr>script := st_resolver st\<rparr>"
  obtain g w where g: "run_pipeline err_text c wsol v True False (Some ?d) (st_writer st) None m (st_run st)
      = Inr (Some g)" "wr g = Some w" "d' = d\<lparr>store := store (db w)\<rparr>"
    using assms(4) by (auto simp: run_stage_def split: sum.splits option.splits)
  have "tables_ok (writer_view (store ?d))" "set (st_writer st) \<subseteq> {Done}" "list_all own_event (st_run st)"
    using assms(1,3) by (simp_all add: quiet_stage_def)
  with pipeline_stream [OF g(1)] run_pipeline_gaps [OF g(1) _ g(2)] g(2,3) assms(2)
  show ?thesis by (auto simp: healthy_def)
qed

interpretation stage_fetch: refetching
  "\<lambda>a b. run_stage err_text c wsol v m (stages a b)" "\<lambda>a b. quiet_stage (stages a b)"
  "\<lambda>t. tables_ok (writer_view t)" "\<lambda>a b. range_stored v (stages a b)"
  for err_text c wsol v m stages
proof
  fix a b d d'
  assume h: "quiet_stage (stages a b)" "healthy d" "tables_ok (writer_view (store d))"
    "run_stage err_text c wsol v m (stages a b) d = Some (Inr d')"
  from run_stage_effect [OF h] show "healthy d' \<and> tables_ok (writer_view (store d'))
      \<and> stream_gaps (store d') = stream_gaps (store d) \<and> range_stored v (stages a b) (store d')"
    by (simp add: range_stored_def)
  fix p q assume "range_stored v (stages p q) (store d)"
  with run_stage_effect [OF h] show "range_stored v (stages p q) (store d')"
    by (auto simp: range_stored_def)
next
  fix t gs a b
  show "tables_ok (writer_view (t\<lparr>stream_gaps := gs\<rparr>)) = tables_ok (writer_view t)"
    by (simp add: writer_view_def)
  show "range_stored v (stages a b) (t\<lparr>stream_gaps := gs\<rparr>) = range_stored v (stages a b) t"
    by (simp add: range_stored_def)
qed

text \<open>A stage that finds nothing leaves the events alone.\<close>

interpretation empty_fetch: refetching
  "\<lambda>a b. run_stage err_text c wsol v m (stages a b)"
  "\<lambda>a b. quiet_stage (stages a b) \<and> events_of v (moves_of (st_run (stages a b))) = []"
  "\<lambda>t. tables_ok (writer_view t) \<and> events t = kept_events" "\<lambda>a b t. True"
  for err_text c wsol v m stages kept_events
proof
  fix a b d d'
  assume h: "quiet_stage (stages a b) \<and> events_of v (moves_of (st_run (stages a b))) = []" "healthy d"
    "tables_ok (writer_view (store d)) \<and> events (store d) = kept_events"
    "run_stage err_text c wsol v m (stages a b) d = Some (Inr d')"
  show "healthy d' \<and> (tables_ok (writer_view (store d')) \<and> events (store d') = kept_events)
      \<and> stream_gaps (store d') = stream_gaps (store d) \<and> True"
    using run_stage_effect [of "stages a b" d] h by auto
qed (simp_all add: writer_view_def)

section \<open>Properties\<close>

lemma run_recover_loop:
  assumes "run_recover err_text c wsol v m clock stages d = Some (Recovered, d')" "healthy d"
  obtains d1 where "store d1 = store d" "healthy d1"
    "recover_loop (\<lambda>i d gap status. mark_gap (clock i) gap status d)
       (\<lambda>a b. run_stage err_text c wsol v m (stages a b)) 0 (open_gaps_of (stream_gaps (store d))) [] d1
       = Some (Recovered, d')"
proof -
  obtain d1 where d1: "open_gaps d = (Answer (open_gaps_of (stream_gaps (store d))), d1)"
      "store d1 = store d" "healthy d1"
    using execute_healthy [OF assms(2), of "\<lambda>t. Inr (open_gaps_of (stream_gaps t), t)"]
    by (auto simp: open_gaps_def)
  with assms(1) that show ?thesis by (simp add: run_recover_def)
qed

lemma open_ids:
  assumes "tables_ok t" "g \<in> set (stream_gaps t)"
  shows "g_id g \<in> og_id ` set (open_gaps_of (stream_gaps t)) \<longleftrightarrow> g_status g = ''open''"
proof -
  have "inj_on g_id (set (stream_gaps t))"
    using assms(1) by (simp add: tables_ok_def gaps_ok_def distinct_map)
  with assms(2) show ?thesis
    by (auto simp: open_gaps_of_def image_image dest: inj_onD)
qed

lemma list_all2_mem: "list_all2 P xs xs' \<Longrightarrow> list_all2 (\<lambda>x y. x \<in> set xs \<and> P x y) xs xs'"
  by (auto simp: list_all2_conv_all_nth)

lemma closing_rows:
  assumes "tables_ok t"
    and "stage_fetch.closing (og_id ` set (open_gaps_of (stream_gaps t))) (stream_gaps t) new"
  shows "list_all2 (\<lambda>g h. g_id h = g_id g \<and> gap_range h = gap_range g
    \<and> (if g_status g = ''open'' then g_status h = ''closed'' else h = g)) (stream_gaps t) new"
  using list_all2_mem [OF assms(2) [unfolded stage_fetch.closing_def]]
  by (rule list_all2_mono) (use open_ids [OF assms(1)] in auto)

definition gap_key :: "gap_row \<Rightarrow> open_gap" where
  "gap_key g = \<lparr>og_id = g_id g, og_start = g_start g, og_end = g_end g\<rparr>"

lemma open_gaps_of_mem: "g \<in> set gs \<Longrightarrow> g_status g = ''open'' \<Longrightarrow> gap_key g \<in> set (open_gaps_of gs)"
  by (auto simp: open_gaps_of_def gap_key_def)

lemma recovered_gaps:
  assumes "run_recover err_text c wsol v m clock stages d = Some (Recovered, d')"
    and "healthy d" "tables_ok (store d)" "\<forall>a b. quiet_stage (stages a b)"
  shows "list_all2 (\<lambda>g h. g_id h = g_id g \<and> gap_range h = gap_range g
      \<and> (if g_status g = ''open'' then g_status h = ''closed'' else h = g))
      (stream_gaps (store d)) (stream_gaps (store d'))
    \<and> (\<forall>g \<in> set (stream_gaps (store d)). g_status g = ''open'' \<longrightarrow>
        (\<exists>a b. a \<le> gap_from (gap_key g) \<and> gap_to (gap_key g) \<le> b
           \<and> event_key ` set (events_of v (moves_of (st_run (stages a b)))) \<subseteq> event_key ` set (events (store d'))))"
proof -
  obtain d1 where d1: "store d1 = store d" "healthy d1"
    "recover_loop (\<lambda>i d gap status. mark_gap (clock i) gap status d)
       (\<lambda>a b. run_stage err_text c wsol v m (stages a b)) 0 (open_gaps_of (stream_gaps (store d))) [] d1
       = Some (Recovered, d')"
    by (rule run_recover_loop [OF assms(1,2)])
  have ok: "tables_ok (writer_view (store d1))" unfolding d1(1) by (rule view_ok [OF assms(3)])
  have "\<forall>g \<in> set (open_gaps_of (stream_gaps (store d))). quiet_stage (stages (gap_from g) (gap_to g))"
    using assms(4) by blast
  note r = stage_fetch.recover_loop_closes [OF d1(3,2) ok this]
  have closed: "stage_fetch.closing (og_id ` set (open_gaps_of (stream_gaps (store d)))) (stream_gaps (store d))
      (stream_gaps (store d'))"
    using r by (simp add: d1(1))
  have stored: "\<forall>g \<in> set (open_gaps_of (stream_gaps (store d))). \<exists>a b. a \<le> gap_from g \<and> gap_to g \<le> b
      \<and> range_stored v (stages a b) (store d')"
    using r by simp
  show ?thesis
    using closing_rows [OF assms(3) closed] stored open_gaps_of_mem
    unfolding range_stored_def by blast
qed


definition sample_gap :: gap_row where
  "sample_gap = \<lparr>g_id = 1, g_start = 437993119, g_end = 437993182, g_missed = 63, g_detected_at = 7,
     g_detected_by = ''watermark'', g_recovered_at = None, g_method = None, g_status = ''open''\<rparr>"

definition gap_db :: db where
  "gap_db = \<lparr>store = empty_tables\<lparr>stream_gaps := [sample_gap], next_gap_id := 2\<rparr>, script = []\<rparr>"

definition empty_stage :: "unit stage" where
  "empty_stage = \<lparr>st_run = [Write Drop_senders, Write (Receive id)], st_writer = [], st_resolver = []\<rparr>"

definition recover_sample :: "(recover_end \<times> db) option" where
  "recover_sample = run_recover (\<lambda>_. ''refused'') byte_codec (sample_key 1) sample_serde new_metrics id
     (\<lambda>a b. empty_stage) gap_db"

lemma gap_db_ok: "healthy gap_db" "tables_ok (store gap_db)" "stream_gaps (store gap_db) = [sample_gap]"
  by (simp_all add: gap_db_def healthy_def tables_ok_def trades_ok_def gaps_ok_def gap_status_ok_def
      sample_gap_def empty_tables_def)

lemma recover_sample_ends: "\<exists>d. recover_sample = Some (Recovered, d)"
  by (simp add: recover_sample_def run_recover_def open_gaps_def gap_db_def empty_tables_def
      open_gaps_of_def sample_gap_def execute_def next_reply_def covers_def after_mark_def mark_gap_def
      mark_stmt_def gap_status_ok_def mark_row_def run_stage_def run_pipeline_def start_pipeline_def
      prime_def new_resolver_def load_pools_def empty_stage_def share_def spawn_writer_def new_chan_def
      recv_def stop_def flush_def ended_def Let_def)

lemma empty_stage_quiet: "quiet_stage empty_stage"
  by (simp add: quiet_stage_def empty_stage_def)


text \<open>
  Closing a gap needs no block: when the RPC client lists the slots of the range but
  every attempt to get a block of it fails, the source ends without an error, the gap is closed
  all the same, and not one event was added.
\<close>

theorem recovery_closes_without_blocks:
  assumes "run_recover err_text c wsol v m clock stages d = Some (Recovered, d')"
    and "healthy d" "tables_ok (store d)" "\<forall>a b. quiet_stage (stages a b)"
    and "\<forall>a b. fed deliver (the (backfill_consume lib (\<lambda>_. False) (\<lambda>_. True) (\<lambda>s i. None) (Some (listed a b))))
      (st_run (stages a b))"
  shows "events (store d') = events (store d)
    \<and> list_all2 (\<lambda>g h. g_id h = g_id g \<and> gap_range h = gap_range g
      \<and> (if g_status g = ''open'' then g_status h = ''closed'' else h = g))
      (stream_gaps (store d)) (stream_gaps (store d'))"
proof -
  obtain d1 where d1: "store d1 = store d" "healthy d1"
    "recover_loop (\<lambda>i d gap status. mark_gap (clock i) gap status d)
       (\<lambda>a b. run_stage err_text c wsol v m (stages a b)) 0 (open_gaps_of (stream_gaps (store d))) [] d1
       = Some (Recovered, d')"
    by (rule run_recover_loop [OF assms(1,2)])
  have none: "events_of v (moves_of (st_run (stages a b))) = []" for a b
  proof -
    have "updates_of_slot lib (\<lambda>s i. None) s = []" for s
      by (simp add: updates_of_slot_def fetch_block_eq)
    then have "concat (map (updates_of_slot lib (\<lambda>s i. None)) ss) = []" for ss by (induction ss) simp_all
    then show ?thesis
      using fed_events [OF assms(5) [rule_format, of a b]]
      by (simp add: backfill_consume_def backfill_slots_all stream_events_def)
  qed
  have "\<forall>g \<in> set (open_gaps_of (stream_gaps (store d))). quiet_stage (stages (gap_from g) (gap_to g))
      \<and> events_of v (moves_of (st_run (stages (gap_from g) (gap_to g)))) = []"
    using assms(4) none by blast
  moreover have "tables_ok (writer_view (store d1)) \<and> events (store d1) = events (store d)"
    unfolding d1(1) using view_ok [OF assms(3)] by blast
  ultimately have r: "empty_fetch.closing (og_id ` set (open_gaps_of (stream_gaps (store d)))) (stream_gaps (store d1))
      (stream_gaps (store d'))" "events (store d') = events (store d)"
    using empty_fetch.recover_loop_closes [OF d1(3,2)] by auto
  show ?thesis using closing_rows [OF assms(3)] r unfolding d1(1) by blast
qed

theorem recovery_closes_without_blocks_witness:
  "\<exists>d h. recover_sample = Some (Recovered, d) \<and> stream_gaps (store d) = [h] \<and> g_status h = ''closed''
     \<and> events (store d) = []"
proof -
  obtain d where d: "recover_sample = Some (Recovered, d)" using recover_sample_ends by blast
  have q: "\<forall>a b :: u64. quiet_stage empty_stage" using empty_stage_quiet by blast
  let ?lib = "\<lparr>decode_tx = Some, raw_meta = Some, convert_meta = Some, tx_signatures = (\<lambda>_. [])\<rparr>
    :: (unit, unit, unit, unit) backfill_lib"
  have "updates_of_slot ?lib (\<lambda>s i. None) s = []" for s
    by (simp add: updates_of_slot_def fetch_block_eq)
  then have f: "\<forall>a b :: u64. fed (\<lambda>u. []) (the (backfill_consume ?lib (\<lambda>_. False) (\<lambda>_. True) (\<lambda>s i. None) (Some [a, b])))
      (st_run empty_stage)"
    by (simp add: backfill_consume_def backfill_slots_all fed_def calls_def empty_stage_def)
  have "events (store gap_db) = []" by (simp add: gap_db_def empty_tables_def)
  with recovery_closes_without_blocks [OF d [unfolded recover_sample_def] gap_db_ok(1,2) q f] d
  show ?thesis by (auto simp: gap_db_ok(3) list_all2_Cons1 sample_gap_def)
qed

lemma prime_rows_bad: "\<exists>p \<in> set ps. info_of_stored c p = None \<Longrightarrow> fst (prime_rows c ps r) = False"
  by (induction ps arbitrary: r) (auto split: option.splits)

lemma start_bad_row:
  assumes "q \<in> set (pools (store d))" "info_of_stored c q = None" "healthy d"
  shows "start_pipeline c True collect (Some d) answers gaps m = Inl Prime_key"
proof -
  obtain d' where d': "load_pools d = (Answer (pools (store d)), d')"
    using execute_healthy [OF assms(3), of "\<lambda>t. Inr (pools t, t)"] by (auto simp: load_pools_def)
  let ?r = "(new_resolver POOL_LOOKUP_QUEUE_SIZE (Some d) m)\<lparr>pool_db := Some d'\<rparr>"
  obtain r where r: "prime_rows c (pools (store d)) ?r = (False, r)"
    using prime_rows_bad [of "pools (store d)" c ?r] assms(1,2) by (metis prod.collapse)
  have "prime c (new_resolver POOL_LOOKUP_QUEUE_SIZE (Some d) m) = (Inl Prime_key, r)"
    using d' r by (simp add: prime_def new_resolver_def)
  then show ?thesis by (simp add: start_pipeline_def Let_def)
qed

text \<open>
  A recovery that fails on a range leaves its gap marked as recovering, and no later
  recovery takes it up again. One row of the pools table with an unreadable key is enough: it
  fails every pipeline with an RPC client before anything is fetched.
\<close>

theorem failed_recovery_is_not_retried:
  assumes "healthy d" "tables_ok (store d)" "q \<in> set (pools (store d))" "info_of_stored c q = None"
    and "open_gaps_of (stream_gaps (store d)) = g # gs" "\<forall>a b. st_resolver (stages a b) = []"
  shows "\<exists>d'. run_recover err_text c wsol v m clock stages d = Some (Pipeline_error Prime_key, d')
    \<and> og_id g \<notin> og_id ` set (open_gaps_of (stream_gaps (store d')))
    \<and> (\<exists>h \<in> set (stream_gaps (store d')). g_id h = og_id g \<and> g_status h = ''recovering'')
    \<and> events (store d') = events (store d)"
proof -
  obtain d1 where d1: "open_gaps d = (Answer (g # gs), d1)" "store d1 = store d" "healthy d1"
    using execute_healthy [OF assms(1), of "\<lambda>t. Inr (open_gaps_of (stream_gaps t), t)"] assms(5)
    by (auto simp: open_gaps_def)
  let ?rows = "map (\<lambda>h. if g_id h = og_id g then mark_row (clock 0) ''recovering'' h else h) (stream_gaps (store d))"
  have "gap_status_ok ''recovering''" by (simp add: gap_status_ok_def)
  then obtain d2 where d2: "mark_gap (clock 0) (og_id g) ''recovering'' d1 = (Answer (), d2)" "healthy d2"
      "store d2 = (store d1)\<lparr>stream_gaps := map (\<lambda>h. if g_id h = og_id g then mark_row (clock 0) ''recovering'' h else h) (stream_gaps (store d1))\<rparr>"
    by (rule stage_fetch.mark_effect [OF d1(3)])
  have s2: "store d2 = (store d)\<lparr>stream_gaps := ?rows\<rparr>" by (simp add: d2(3) d1(2))
  let ?st = "stages (gap_from g) (gap_to g)"
  have "start_pipeline c True False (Some (d2\<lparr>script := st_resolver ?st\<rparr>)) (st_writer ?st) None m = Inl Prime_key"
    using assms(3,4,6) by (intro start_bad_row [of q]) (simp_all add: s2 healthy_def)
  then have "run_stage err_text c wsol v m ?st d2 = Some (Inl Prime_key)"
    by (simp add: run_stage_def run_pipeline_def)
  then have run: "run_recover err_text c wsol v m clock stages d = Some (Pipeline_error Prime_key, d2)"
    using d1(1) d2(1) by (simp add: run_recover_def covers_def after_mark_def)
  have "g \<in> set (open_gaps_of (stream_gaps (store d)))" using assms(5) by simp
  then obtain h where h: "h \<in> set (stream_gaps (store d))" "g_id h = og_id g"
    by (auto simp: open_gaps_of_def)
  have "mark_row (clock 0) ''recovering'' h \<in> set (stream_gaps (store d2))" using h by (force simp: s2)
  moreover have "og_id g \<notin> og_id ` set (open_gaps_of (stream_gaps (store d2)))"
    by (auto simp: s2 open_gaps_of_def)
  moreover have "events (store d2) = events (store d)" by (simp add: s2)
  moreover have "g_id (mark_row (clock 0) ''recovering'' h) = og_id g"
    "g_status (mark_row (clock 0) ''recovering'' h) = ''recovering''" using h(2) by simp_all
  ultimately show ?thesis using run by blast
qed

definition bad_pool :: stored_pool where
  "bad_pool = \<lparr>sp_pool = ''?'', sp_base_mint = ''?'', sp_quote_mint = ''?'', sp_base_decimals = None,
     sp_quote_decimals = None\<rparr>"

theorem failed_recovery_is_not_retried_witness:
  "\<exists>d'. run_recover (\<lambda>_. ''refused'') byte_codec (sample_key 1) sample_serde new_metrics id (\<lambda>a b. empty_stage)
      (gap_db\<lparr>store := (store gap_db)\<lparr>pools := [bad_pool]\<rparr>\<rparr>) = Some (Pipeline_error Prime_key, d')
    \<and> 1 \<notin> og_id ` set (open_gaps_of (stream_gaps (store d')))"
proof -
  let ?d = "gap_db\<lparr>store := (store gap_db)\<lparr>pools := [bad_pool]\<rparr>\<rparr>"
  have d: "healthy ?d" "tables_ok (store ?d)" "bad_pool \<in> set (pools (store ?d))"
    using gap_db_ok by (simp_all add: healthy_def tables_ok_def)
  have b: "info_of_stored byte_codec bad_pool = None"
    by (simp add: info_of_stored_def bad_pool_def byte_codec_def)
  have o: "open_gaps_of (stream_gaps (store ?d)) = [gap_key sample_gap]"
    using gap_db_ok(3) by (simp add: open_gaps_of_def gap_key_def sample_gap_def)
  have st: "\<forall>a b :: u64. st_resolver empty_stage = []" by (simp add: empty_stage_def)
  from failed_recovery_is_not_retried [OF d b o st, of "\<lambda>_. ''refused''" "sample_key 1" sample_serde
      new_metrics id]
  show ?thesis by (auto simp: gap_key_def sample_gap_def)
qed

end
