(* ===== verification/Healing.thy ===== *)
theory Healing
  imports Recover Gaps
begin

text \<open>
  From a hole in the stream to the stored events: the watermark of \<^verbatim>\<open>src/gaps.rs\<close>, its recorder,
  the recovery of \<^verbatim>\<open>src/recover.rs\<close> and the backfill of \<^verbatim>\<open>src/datasources/backfill.rs\<close>, composed.
\<close>

section \<open>From a hole to its fetched range\<close>

lemma fold_max_small: "\<forall>s \<in> set ss. s < (n :: nat) \<Longrightarrow> p < n \<Longrightarrow> fold max ss p < n"
  by (induction ss arbitrary: p) auto

definition open_rows :: "recorder \<Rightarrow> bool" where
  "open_rows r \<longleftrightarrow> (\<forall>g \<in> set (stream_gaps (store (rec_db r))). g_status g = ''open'')"

lemma record_gap_open:
  assumes "healthy (rec_db r)" "\<not> rec_stuck r" "open_rows r"
  shows "open_rows (record_gap g r)"
proof -
  let ?stmt = "gap_stmt (as_i64 (last_slot_before_disconnect g))
    (as_i64 (first_slot_after_reconnect g)) (as_i64 (missed_slots g)) (disconnect_time g) (source g)"
  obtain x t where st: "?stmt (store (rec_db r)) = Inr (x, t)" using gap_stmt_total by blast
  obtain d where d: "execute ?stmt (rec_db r) = (Answer x, d)" "store d = t"
    using execute_healthy [OF assms(1), of ?stmt x t] st by blast
  from st show ?thesis
    by (cases rule: gap_stmt_cases)
      (use d assms(2,3) in \<open>auto simp: record_gap_def write_gap_def open_rows_def\<close>)
qed

lemma record_gaps_open:
  "healthy (rec_db r) \<Longrightarrow> \<not> rec_stuck r \<Longrightarrow> open_rows r \<Longrightarrow> open_rows (record_gaps gs r)"
proof (induction gs arbitrary: r)
  case (Cons g gs)
  with record_gap_healthy [of r g] record_gap_open [of r g] show ?case
    by (simp add: record_gaps_Cons)
qed (simp add: record_gaps_def)

lemma hole_reported:
  assumes "watermark w = 0" "reported w = []" "room (length (s0 # ss)) w" "\<forall>s \<in> set (s0 # ss). small s"
    and "s0 \<noteq> 0" "unat s0 \<le> a" "a + 50 < b"
    and "\<forall>s \<in> set ss. unat s \<le> a \<or> b \<le> unat s" "\<exists>s \<in> set ss. b \<le> unat s"
    and "gaps_tx (fold (check_slot now) (s0 # ss) w) = Some q"
  shows "\<exists>g \<in> set (items q). unat (last_slot_before_disconnect g) \<le> a
    \<and> b \<le> unat (first_slot_after_reconnect g) \<and> small (first_slot_after_reconnect g)"
proof -
  have j: "map gap_pair (items q) = jumps (unat s0) (map unat ss)"
    using check_slots_report [of w "s0 # ss" now] assms(1-4,10) by (simp add: small_def reported_def)
  have "unat s0 \<noteq> 0" using assms(5) by (simp add: unat_eq_0)
  then obtain l f where lf: "(l, f) \<in> set (jumps (unat s0) (map unat ss))" "l \<le> a" "b \<le> f"
    using jumps_complete [of "unat s0" a b "map unat ss"] assms(6-9) by auto
  then obtain g where g: "g \<in> set (items q)" "gap_pair g = (l, f)"
    unfolding j [symmetric] by auto
  have "f \<le> fold max (map unat ss) (unat s0)" using jumps_bounds [OF lf(1)] by simp
  also have "\<dots> < 2 ^ 63" using assms(4) by (intro fold_max_small) (simp_all add: small_def)
  finally show ?thesis using g lf by (intro bexI [of _ g]) (auto simp: gap_pair_def small_def)
qed

lemma fetched_around:
  assumes "gap_range h = range_of g" "small (first_slot_after_reconnect g)"
    and "unat (last_slot_before_disconnect g) \<le> a" "b \<le> unat (first_slot_after_reconnect g)"
  shows "unat (gap_from (gap_key h)) \<le> a - 64 \<and> b + 64 \<le> unat (gap_to (gap_key h))"
proof -
  have h: "as_u64 (g_start h) = last_slot_before_disconnect g" "as_u64 (g_end h) = first_slot_after_reconnect g"
    using assms(1) by (auto simp: gap_range_def range_of_def)
  have "unat (gap_from (gap_key h)) = unat (last_slot_before_disconnect g) - 64"
    by (simp add: gap_from_def gap_key_def h unat_saturating_sub GAP_OVERLAP_SLOTS_def)
  moreover have "unat (gap_to (gap_key h)) = unat (first_slot_after_reconnect g) + 64"
    using assms(2) by (simp add: gap_to_def gap_key_def h GAP_OVERLAP_SLOTS_def small_def unat_word_ariths)
  ultimately show ?thesis using assms(3,4) by simp
qed

lemma stage_has_slot:
  assumes "fed deliver (the (backfill_consume lib (\<lambda>_. False) (\<lambda>_. True) get_block (Some ss))) es" "s \<in> set ss"
  shows "set (stream_events deliver v (updates_of_slot lib get_block s)) \<subseteq> set (events_of v (moves_of es))"
proof -
  have "events_of v (moves_of es) = stream_events deliver v (concat (map (updates_of_slot lib get_block) ss))"
    using fed_events [OF assms(1)] by (simp add: backfill_consume_def backfill_slots_all)
  with assms(2) show ?thesis by (auto simp: stream_events_def)
qed

section \<open>Property\<close>


text \<open>
  A sample: slots 104 to 199 are missed, and slot 150 holds one trade. The stage that fetches a
  range delivers that trade when the range has the slot.
\<close>

definition lost_call :: "unit call" where
  "lost_call = (sample_meta ''x'' 150 False, Inr (CurveTrade sample_curve))"

definition heal_lib :: "(unit, unit, unit, unit) backfill_lib" where
  "heal_lib = \<lparr>decode_tx = Some, raw_meta = Some, convert_meta = Some, tx_signatures = (\<lambda>_. [[1]])\<rparr>"

definition sample_listed :: "u64 \<Rightarrow> u64 \<Rightarrow> u64 list" where
  "sample_listed x y = filter (\<lambda>s. x \<le> s \<and> s \<le> y) [150]"

definition sample_block :: "u64 \<Rightarrow> nat \<Rightarrow> unit confirmed_block option" where
  "sample_block s i = Some \<lparr>b_time = None, b_transactions = Some [()]\<rparr>"

definition sample_stage :: "u64 \<Rightarrow> u64 \<Rightarrow> unit stage" where
  "sample_stage x y = (if x \<le> 150 \<and> 150 \<le> y
     then \<lparr>st_run = [Process (Curve (sample_moments 1) (sample_meta ''x'' 150 False) (CurveTrade sample_curve)),
            Hand_over, Write Drop_senders, Write (Receive id), Write (Receive id)],
          st_writer = [], st_resolver = []\<rparr>
     else empty_stage)"

definition heal_recorder :: recorder where
  "heal_recorder = \<lparr>rec_db = sample_db [], rec_meter = new_metrics, rec_stuck = False\<rparr>"

definition heal_db :: db where
  "heal_db = rec_db (record_gaps [watermark_gap 7 103 200] heal_recorder)"

definition heal_run :: "(recover_end \<times> db) option" where
  "heal_run = run_recover (\<lambda>_. ''refused'') byte_codec (sample_key 1) sample_serde new_metrics id sample_stage heal_db"

lemma sample_hole:
  "gaps_tx (fold (check_slot 7) [100, 103, 102, 200] sample_watch) =
     Some (new_chan GAP_QUEUE_SIZE\<lparr>items := [watermark_gap 7 103 200]\<rparr>)"
  by (simp add: check_slot_def sample_watch_def Let_def SLOT_GAP_TOLERANCE_def try_send_def new_chan_def
      GAP_QUEUE_SIZE_def)

lemma heal_db_eq:
  "heal_db = \<lparr>store = empty_tables\<lparr>next_gap_id := 2, stream_gaps := [\<lparr>g_id = 1, g_start = 103, g_end = 200,
     g_missed = 97, g_detected_at = 7, g_detected_by = ''watermark'', g_recovered_at = None, g_method = None,
     g_status = ''open''\<rparr>]\<rparr>, script = []\<rparr>"
  by (simp add: heal_db_def heal_recorder_def record_gaps_def record_gap_def write_gap_def gap_stmt_def
      sample_db_def execute_def next_reply_def empty_tables_def watermark_gap_def as_i64_def Let_def)

lemma heal_range: "gap_from \<lparr>og_id = 1, og_start = 103, og_end = 200\<rparr> = 39"
  "gap_to \<lparr>og_id = 1, og_start = 103, og_end = 200\<rparr> = 264"
  by (simp_all add: gap_from_def gap_to_def as_u64_def saturating_sub_def GAP_OVERLAP_SLOTS_def)

lemma heal_run_ends: "\<exists>d. heal_run = Some (Recovered, d)"
  by (simp add: heal_run_def run_recover_def open_gaps_def heal_db_eq empty_tables_def heal_range
      open_gaps_of_def execute_def next_reply_def covers_def after_mark_def mark_gap_def
      mark_stmt_def gap_status_ok_def mark_row_def run_stage_def run_pipeline_def start_pipeline_def
      prime_def new_resolver_def load_pools_def sample_stage_def share_def resolver_tables_def sending_def
      process_pumpfun_def record_event_def send_row_def row_of_def sample_meta_def sample_curve_def curve_row_def
      side_of_def sample_moments_def sample_serde_def check_slot_def sample_defs flush_eval WRITE_QUEUE_SIZE_def
      ended_def Let_def)

lemma sample_stage_quiet: "quiet_stage (sample_stage x y)"
  by (simp add: sample_stage_def quiet_stage_def empty_stage_def)

lemma sample_update: "\<exists>u. updates_of_slot heal_lib sample_block 150 = [u]"
  by (simp add: updates_of_slot_def fetch_block_eq sample_block_def updates_of_block_def block_update_def
      heal_lib_def List.map_filter_simps)

lemma sample_stage_fed:
  "fed (\<lambda>u. [lost_call]) (the (backfill_consume heal_lib (\<lambda>_. False) (\<lambda>_. True) sample_block
     (Some (sample_listed x y)))) (st_run (sample_stage x y))"
  using sample_update
  by (auto simp: backfill_consume_def backfill_slots_all sample_listed_def fed_def calls_def
      sample_stage_def empty_stage_def lost_call_def)


end
