(* ===== verification/Render.thy ===== *)
theory Render
  imports Metrics "HOL-Library.Char_ord"
begin

text \<open>
  The Prometheus text of \<^verbatim>\<open>src/metrics.rs\<close>: \<^verbatim>\<open>render\<close> and \<^verbatim>\<open>histogram\<close>, character by character,
  and a scraper that reads it back.

  \<^verbatim>\<open>Display\<close> of an \<^verbatim>\<open>f64\<close> is the argument \<open>show_f64\<close>; of it only the alphabet is relied on
  (\<open>plain_f64\<close>). \<open>histogram_text\<close> takes the text so far and returns it extended, as the code
  pushes onto its \<^verbatim>\<open>String\<close>.
\<close>

section \<open>Decimal numbers\<close>

text \<open>\<^verbatim>\<open>Display\<close> of \<^verbatim>\<open>u64\<close>, and the reading of such a text.\<close>

definition digit :: "nat \<Rightarrow> char" where
  "digit d = ''0123456789'' ! d"

fun show_nat :: "nat \<Rightarrow> string" where
  "show_nat n = (if n < 10 then [digit n] else show_nat (n div 10) @ [digit (n mod 10)])"

declare show_nat.simps [simp del]

definition show_u64 :: "u64 \<Rightarrow> string" where
  "show_u64 n = show_nat (unat n)"

definition read_nat :: "string \<Rightarrow> nat" where
  "read_nat s = foldl (\<lambda>n c. 10 * n + (of_char c - 48)) 0 s"

definition digits :: "char set" where
  "digits = set ''0123456789''"

lemma digit_in: "d < 10 \<Longrightarrow> digit d \<in> digits"
  unfolding digit_def digits_def by (rule nth_mem) simp

lemma of_char_digit: "d < 10 \<Longrightarrow> of_char (digit d) = 48 + d"
proof -
  assume "d < 10"
  then have "d \<in> {0, 1, 2, 3, 4, 5, 6, 7, 8, 9}" by auto
  then show ?thesis by (auto simp: digit_def)
qed

lemma read_show_nat [simp]: "read_nat (show_nat n) = n"
proof (induction n rule: show_nat.induct)
  case (1 n)
  show ?case
  proof (cases "n < 10")
    case True
    then show ?thesis by (simp add: show_nat.simps [of n] read_nat_def of_char_digit)
  next
    case False
    then have "read_nat (show_nat n) = 10 * read_nat (show_nat (n div 10)) + n mod 10"
      by (simp add: show_nat.simps [of n] read_nat_def of_char_digit)
    also have "\<dots> = n" using "1.IH" False by simp
    finally show ?thesis .
  qed
qed

lemma show_nat_digits: "set (show_nat n) \<subseteq> digits"
proof (induction n rule: show_nat.induct)
  case (1 n)
  have "digit (n mod 10) \<in> digits" "n < 10 \<Longrightarrow> digit n \<in> digits"
    by (auto intro: digit_in)
  with 1 show ?case by (auto simp: show_nat.simps [of n])
qed

section \<open>The text\<close>

definition nl :: string where "nl = [CHR 0x0A]"

text \<open>The table of counters with their names and help texts.\<close>

definition COUNTERS :: "(string \<times> string \<times> counter) list" where
  "COUNTERS =
     [(''indexer_events_decoded_total'', ''events decoded from the stream'', EVENTS_DECODED),
      (''indexer_skipped_failed_total'',
       ''transactions skipped because they failed on chain'', SKIPPED_FAILED),
      (''indexer_pool_cache_hits_total'', ''pool lookups answered from memory'', POOL_CACHE_HITS),
      (''indexer_pool_cache_misses_total'', ''pool lookups not in memory'', POOL_CACHE_MISSES),
      (''indexer_pool_lookups_total'', ''pool lookups sent to RPC'', POOL_LOOKUPS),
      (''indexer_pool_lookup_errors_total'',
       ''pool lookups RPC could not answer'', POOL_LOOKUP_ERRORS),
      (''indexer_lookups_dropped_total'',
       ''pool lookups discarded because the queue was full'', LOOKUPS_DROPPED),
      (''indexer_replay_skipped_total'', ''fixture lines replay could not use'', REPLAY_SKIPPED),
      (''indexer_db_write_errors_total'', ''batches the database refused'', DB_WRITE_ERRORS),
      (''indexer_dead_letters_total'', ''rows parked after a failed batch'', DEAD_LETTERS),
      (''indexer_gaps_detected_total'', ''stream gaps recorded'', GAP_DETECTED),
      (''indexer_trades_written_total'', ''events that produced a trade row'', TRADES_WRITTEN),
      (''indexer_unoriented_total'',
       ''events stored with no trade row, pool could not be oriented'', UNORIENTED),
      (''indexer_oriented_normal_total'',
       ''trades from pools where the quote side is wrapped SOL'', ORIENTED_NORMAL),
      (''indexer_oriented_inverted_total'',
       ''trades from pools where the base side is wrapped SOL'', ORIENTED_INVERTED)]"

definition counter_text :: "string \<Rightarrow> string \<Rightarrow> u64 \<Rightarrow> string" where
  "counter_text name help n =
     ''# HELP '' @ name @ '' '' @ help @ nl @ ''# TYPE '' @ name @ '' counter'' @ nl
       @ name @ '' '' @ show_u64 n @ nl"

definition lag_text :: "u64 \<Rightarrow> string" where
  "lag_text n =
     ''# HELP indexer_commit_lag_slots slots between the newest slot seen and the newest committed''
       @ nl @ ''# TYPE indexer_commit_lag_slots gauge'' @ nl
       @ ''indexer_commit_lag_slots '' @ show_u64 n @ nl"

text \<open>\<^verbatim>\<open>histogram\<close>: one cumulative line per edge, then infinity, sum and count.\<close>

definition bucket_step ::
  "(f64 \<Rightarrow> string) \<Rightarrow> string \<Rightarrow> histogram \<Rightarrow> nat \<times> u64 \<Rightarrow> u64 \<times> string \<Rightarrow> u64 \<times> string" where
  "bucket_step show_f64 name h slot_edge acc = (case (slot_edge, acc) of
      ((slot, edge), (running, out)) \<Rightarrow>
        let r = running + buckets h ! slot;
            seconds = f64_div (f64_of_u64 edge) 1000000
        in (r, out @ name @ ''_bucket{le=\"'' @ show_f64 seconds @ ''\"} '' @ show_u64 r @ nl))"

definition histogram_text ::
  "(f64 \<Rightarrow> string) \<Rightarrow> string \<Rightarrow> string \<Rightarrow> histogram \<Rightarrow> string \<Rightarrow> string" where
  "histogram_text show_f64 name help h out =
     (let out1 = out @ ''# HELP '' @ name @ '' '' @ help @ nl @ ''# TYPE '' @ name @ '' histogram'' @ nl;
          (running, out2) = fold (bucket_step show_f64 name h) (enumerate 0 BUCKET_EDGES_US) (0, out1);
          total = running + buckets h ! (BUCKETS - 1)
      in out2 @ name @ ''_bucket{le=\"+Inf\"} '' @ show_u64 total @ nl
           @ name @ ''_sum '' @ show_f64 (f64_div (f64_of_u64 (sum_us h)) 1000000) @ nl
           @ name @ ''_count '' @ show_u64 total @ nl)"

definition render :: "(f64 \<Rightarrow> string) \<Rightarrow> metrics \<Rightarrow> string" where
  "render show_f64 m =
     (let out = fold (\<lambda>(name, help, c) out. out @ counter_text name help (get c m)) COUNTERS [];
          out1 = out @ lag_text (commit_lag_slots m);
          out2 = histogram_text show_f64 ''indexer_decode_seconds''
            ''time from an instruction arriving to it being counted as decoded'' (decode_time m) out1;
          out3 = histogram_text show_f64 ''indexer_flush_seconds'' ''time to commit one batch''
            (flush_time m) out2
      in histogram_text show_f64 ''indexer_receive_to_committed_seconds''
           ''time from a row reaching the writer to its batch committing'' (receive_to_committed m) out3)"

text \<open>
  The line \<^verbatim>\<open>spawn_reporter\<close> prints every ten seconds; its state is the number of events decoded
  at the last one. \<open>show_rate\<close> is the format \<^verbatim>\<open>{:.1}\<close>.
\<close>

definition reporter_tick :: "(f64 \<Rightarrow> string) \<Rightarrow> metrics \<Rightarrow> u64 \<Rightarrow> string \<times> u64" where
  "reporter_tick show_rate m last_decoded =
     (let decoded = get EVENTS_DECODED m;
          rate = f64_div (f64_of_u64 (decoded - last_decoded)) 10
      in (''[stats] decoded='' @ show_u64 decoded @ '' ('' @ show_rate rate @ ''/s) cache_hits=''
            @ show_u64 (get POOL_CACHE_HITS m) @ '' cache_misses='' @ show_u64 (get POOL_CACHE_MISSES m)
            @ '' lookups='' @ show_u64 (get POOL_LOOKUPS m)
            @ '' lookup_errors='' @ show_u64 (get POOL_LOOKUP_ERRORS m)
            @ '' lookups_dropped='' @ show_u64 (get LOOKUPS_DROPPED m)
            @ '' skipped_failed='' @ show_u64 (get SKIPPED_FAILED m)
            @ '' replay_skipped='' @ show_u64 (get REPLAY_SKIPPED m)
            @ '' db_errors='' @ show_u64 (get DB_WRITE_ERRORS m)
            @ '' dead_letters='' @ show_u64 (get DEAD_LETTERS m) @ '', gaps='' @ show_u64 (get GAP_DETECTED m)
            @ '' lag='' @ show_u64 (commit_lag_slots m) @ '' slots trades='' @ show_u64 (get TRADES_WRITTEN m)
            @ '' unoriented='' @ show_u64 (get UNORIENTED m) @ nl, decoded))"

section \<open>Reading the text\<close>

text \<open>
  A scraper: it splits the text into lines, passes over comments, and takes each other line as
  a name and a value separated by the first space.
\<close>

fun text_lines :: "string \<Rightarrow> string list" where
  "text_lines [] = []"
| "text_lines (c # cs) =
     (if c = CHR 0x0A then [] # text_lines cs
      else case text_lines cs of [] \<Rightarrow> [[c]] | l # ls \<Rightarrow> (c # l) # ls)"

definition sample_of :: "string \<Rightarrow> string \<times> string" where
  "sample_of l = (takeWhile (\<lambda>c. c \<noteq> CHR '' '') l, drop 1 (dropWhile (\<lambda>c. c \<noteq> CHR '' '') l))"

definition scrape :: "string \<Rightarrow> (string \<times> string) list" where
  "scrape text = map sample_of (filter (\<lambda>l. take 1 l \<noteq> ''#'') (text_lines text))"

text \<open>
  What is relied on of \<^verbatim>\<open>Display\<close> of a finite non-negative \<^verbatim>\<open>f64\<close>: digits and a point.
\<close>

definition plain_f64 :: "(f64 \<Rightarrow> string) \<Rightarrow> bool" where
  "plain_f64 show_f64 \<longleftrightarrow> (\<forall>x. set (show_f64 x) \<subseteq> insert CHR ''.'' digits)"

definition histogram_samples :: "(f64 \<Rightarrow> string) \<Rightarrow> string \<Rightarrow> histogram \<Rightarrow> (string \<times> string) list" where
  "histogram_samples show_f64 name h =
     map (\<lambda>i. (name @ ''_bucket{le=\"'' @ show_f64 (f64_div (f64_of_u64 (BUCKET_EDGES_US ! i)) 1000000) @ ''\"}'',
            show_u64 (rendered_buckets h ! i))) [0..<9]
     @ [(name @ ''_bucket{le=\"+Inf\"}'', show_u64 (rendered_count h)),
        (name @ ''_sum'', show_f64 (f64_div (f64_of_u64 (sum_us h)) 1000000)),
        (name @ ''_count'', show_u64 (rendered_count h))]"

lemma text_lines_line: "CHR 0x0A \<notin> set l \<Longrightarrow> text_lines (l @ nl @ t) = l # text_lines t"
  by (induction l) (auto simp: nl_def)

lemma scrape_comment: "CHR 0x0A \<notin> set l \<Longrightarrow> scrape (''#'' @ l @ nl @ t) = scrape t"
  using text_lines_line [of "''#'' @ l" t] by (simp add: scrape_def)

lemma scrape_sample:
  assumes "CHR 0x0A \<notin> set (n @ v)" "CHR '' '' \<notin> set n" "take 1 n \<noteq> ''#''" "n \<noteq> []"
  shows "scrape (n @ '' '' @ v @ nl @ t) = (n, v) # scrape t"
proof -
  have "text_lines (n @ '' '' @ v @ nl @ t) = (n @ '' '' @ v) # text_lines t"
    using assms(1) text_lines_line [of "n @ '' '' @ v" t] by simp
  moreover have "sample_of (n @ '' '' @ v) = (n, v)"
    using assms(2) by (simp add: sample_of_def takeWhile_append dropWhile_append takeWhile_eq_all_conv)
  moreover have "take 1 (n @ '' '' @ v) = take 1 n" using assms(4) by (cases n) simp_all
  ultimately show ?thesis using assms(3) by (simp add: scrape_def)
qed
definition sample_name :: "string \<Rightarrow> bool" where
  "sample_name n \<longleftrightarrow> n \<noteq> [] \<and> take 1 n \<noteq> ''#'' \<and> CHR '' '' \<notin> set n \<and> CHR 0x0A \<notin> set n"

definition one_line :: "string \<Rightarrow> bool" where
  "one_line v \<longleftrightarrow> CHR 0x0A \<notin> set v"

lemma scrape_named:
  "sample_name n \<Longrightarrow> one_line v \<Longrightarrow> scrape (n @ '' '' @ v @ nl @ t) = (n, v) # scrape t"
  by (rule scrape_sample) (auto simp: sample_name_def one_line_def)

lemma not_digit: "CHR 0x0A \<notin> digits" "CHR '' '' \<notin> digits"
  by (simp_all add: digits_def)

lemma one_line_u64 [simp]: "one_line (show_u64 n)"
  using show_nat_digits [of "unat n"] not_digit by (auto simp: one_line_def show_u64_def)

lemma plain_chars:
  assumes "plain_f64 show_f64"
  shows "CHR 0x0A \<notin> set (show_f64 x)" "CHR '' '' \<notin> set (show_f64 x)"
proof -
  have sub: "set (show_f64 x) \<subseteq> insert CHR ''.'' digits" using assms by (simp add: plain_f64_def)
  have "CHR 0x0A \<notin> insert CHR ''.'' digits" "CHR '' '' \<notin> insert CHR ''.'' digits"
    using not_digit by simp_all
  with sub show "CHR 0x0A \<notin> set (show_f64 x)" "CHR '' '' \<notin> set (show_f64 x)" by blast+
qed

lemma scrape_comments:
  assumes "CHR 0x0A \<notin> set a" "CHR 0x0A \<notin> set b"
  shows "scrape (''#'' @ a @ nl @ ''#'' @ b @ nl @ t) = scrape t"
  by (simp only: scrape_comment [OF assms(1)] scrape_comment [OF assms(2)])

lemma scrape_counter:
  assumes "sample_name name" "one_line help"
  shows "scrape (counter_text name help n @ t) = (name, show_u64 n) # scrape t"
proof -
  have "counter_text name help n @ t = ''#'' @ ('' HELP '' @ name @ '' '' @ help) @ nl
      @ ''#'' @ ('' TYPE '' @ name @ '' counter'') @ nl @ name @ '' '' @ show_u64 n @ nl @ t"
    by (simp add: counter_text_def)
  moreover have clean: "CHR 0x0A \<notin> set ('' HELP '' @ name @ '' '' @ help)"
      "CHR 0x0A \<notin> set ('' TYPE '' @ name @ '' counter'')"
    using assms by (auto simp: sample_name_def one_line_def)
  ultimately show ?thesis
    by (simp only: scrape_comments [OF clean] scrape_named [OF assms(1) one_line_u64])
qed

lemma scrape_counters:
  assumes "\<forall>(name, help, c) \<in> set cs. sample_name name \<and> one_line help"
  shows "\<exists>text. fold (\<lambda>(name, help, c) out. out @ counter_text name help (get c m)) cs out = out @ text
    \<and> (\<forall>t. scrape (text @ t) = map (\<lambda>(name, help, c). (name, show_u64 (get c m))) cs @ scrape t)"
  using assms
proof (induction cs arbitrary: out)
  case (Cons nhc cs)
  obtain name doc c where nhc: "nhc = (name, doc, c)" by (cases nhc)
  have "\<forall>(name, help, c) \<in> set cs. sample_name name \<and> one_line help" using Cons.prems by simp
  from Cons.IH [OF this, of "out @ counter_text name doc (get c m)"]
  obtain rest where "fold (\<lambda>(name, help, c) out. out @ counter_text name help (get c m)) cs
        (out @ counter_text name doc (get c m)) = (out @ counter_text name doc (get c m)) @ rest"
      "\<forall>t. scrape (rest @ t) = map (\<lambda>(name, help, c). (name, show_u64 (get c m))) cs @ scrape t"
    by blast
  then show ?case
    using Cons.prems by (intro exI [of _ "counter_text name doc (get c m) @ rest"]) (simp add: nhc scrape_counter)
qed simp

lemma scrape_buckets:
  assumes "plain_f64 show_f64" "sample_name name"
  shows "\<exists>text. fold (bucket_step show_f64 name h) (enumerate k edges) (r, out) =
      (r + sum_list (map (\<lambda>i. buckets h ! i) [k..<k + length edges]), out @ text)
    \<and> (\<forall>t. scrape (text @ t) = map (\<lambda>i. (name @ ''_bucket{le=\"'' @ show_f64 (f64_div (f64_of_u64 (edges ! i)) 1000000) @ ''\"}'',
          show_u64 (r + sum_list (map (\<lambda>i. buckets h ! i) [k..<Suc (k + i)])))) [0..<length edges] @ scrape t)"
proof (induction edges arbitrary: k r out)
  case (Cons e edges)
  let ?r = "r + buckets h ! k"
  let ?n = "name @ ''_bucket{le=\"'' @ show_f64 (f64_div (f64_of_u64 e) 1000000) @ ''\"}''"
  let ?line = "?n @ '' '' @ show_u64 ?r @ nl"
  have n: "sample_name ?n"
    using assms(2) plain_chars [OF assms(1)] by (cases name) (auto simp: sample_name_def)
  have step: "bucket_step show_f64 name h (k, e) (r, out) = (?r, out @ ?line)"
    by (simp add: bucket_step_def Let_def)
  obtain rest where rest: "fold (bucket_step show_f64 name h) (enumerate (Suc k) edges) (?r, out @ ?line) =
      (?r + sum_list (map (\<lambda>i. buckets h ! i) [Suc k..<Suc k + length edges]), (out @ ?line) @ rest)"
    "\<And>t. scrape (rest @ t) = map (\<lambda>i. (name @ ''_bucket{le=\"'' @ show_f64 (f64_div (f64_of_u64 (edges ! i)) 1000000) @ ''\"}'',
          show_u64 (?r + sum_list (map (\<lambda>i. buckets h ! i) [Suc k..<Suc (Suc k + i)])))) [0..<length edges] @ scrape t"
    using Cons.IH [of "Suc k" ?r "out @ ?line"] by blast
  have up: "[k..<Suc (k + i)] = k # [Suc k..<Suc (k + i)]" for i by (simp add: upt_conv_Cons)
  have up0: "[0..<Suc n] = 0 # map Suc [0..<n]" for n by (simp only: upt_conv_Cons zero_less_Suc map_Suc_upt)
  have "scrape ((?line @ rest) @ t) = (?n, show_u64 ?r) # scrape (rest @ t)" for t
    using scrape_named [OF n one_line_u64, of "?r" "rest @ t"] by simp
  then show ?case
    unfolding enumerate_simps fold_simps step rest(1) length_Cons up0
    by (intro exI [of _ "?line @ rest"]) (simp add: rest(2) up add.assoc del: upt_Suc)
qed simp
lemma sum_nth_prefix:
  "n \<le> length xs \<Longrightarrow> sum_list (map (\<lambda>i. xs ! i) [0..<n]) = sum_list (take n xs)"
proof -
  assume "n \<le> length xs"
  then have "map (\<lambda>i. xs ! i) [0..<n] = take n xs" by (intro nth_equalityI) auto
  then show ?thesis by simp
qed

lemma rendered_prefix:
  "well_formed h \<Longrightarrow> i < 10 \<Longrightarrow> rendered_buckets h ! i = sum_list (map (\<lambda>j. buckets h ! j) [0..<Suc i])"
  by (simp add: rendered_buckets_def well_formed_def BUCKETS_def nth_running_totals sum_nth_prefix del: upt_Suc)

lemma rendered_count_total: "well_formed h \<Longrightarrow> rendered_count h = sum_list (buckets h)"
  using last_running_totals [of 0 "buckets h"]
  by (cases "buckets h") (auto simp: rendered_count_def rendered_buckets_def well_formed_def BUCKETS_def)

lemma scrape_histogram:
  assumes "plain_f64 show_f64" "sample_name name" "one_line help" "well_formed h"
  shows "\<exists>new. histogram_text show_f64 name help h out = out @ new
    \<and> (\<forall>t. scrape (new @ t) = histogram_samples show_f64 name h @ scrape t)"
proof -
  let ?head = "''#'' @ ('' HELP '' @ name @ '' '' @ help) @ nl @ ''#'' @ ('' TYPE '' @ name @ '' histogram'') @ nl"
  let ?total = "rendered_count h"
  let ?tail = "(name @ ''_bucket{le=\"+Inf\"}'') @ '' '' @ show_u64 ?total @ nl
      @ (name @ ''_sum'') @ '' '' @ show_f64 (f64_div (f64_of_u64 (sum_us h)) 1000000) @ nl
      @ (name @ ''_count'') @ '' '' @ show_u64 ?total @ nl"
  have clean: "CHR 0x0A \<notin> set ('' HELP '' @ name @ '' '' @ help)"
      "CHR 0x0A \<notin> set ('' TYPE '' @ name @ '' histogram'')"
    using assms(2,3) by (auto simp: sample_name_def one_line_def)
  have names: "sample_name (name @ ''_bucket{le=\"+Inf\"}'')" "sample_name (name @ ''_sum'')"
      "sample_name (name @ ''_count'')"
    using assms(2) by (cases name; auto simp: sample_name_def)+
  have one: "one_line (show_f64 x)" for x using plain_chars [OF assms(1)] by (simp add: one_line_def)
  obtain mid where mid: "fold (bucket_step show_f64 name h) (enumerate 0 BUCKET_EDGES_US) (0, out @ ?head) =
      (sum_list (map (\<lambda>i. buckets h ! i) [0..<9]), (out @ ?head) @ mid)"
    and lines: "\<And>t. scrape (mid @ t) = map (\<lambda>i. (name @ ''_bucket{le=\"'' @
          show_f64 (f64_div (f64_of_u64 (BUCKET_EDGES_US ! i)) 1000000) @ ''\"}'',
        show_u64 (sum_list (map (\<lambda>i. buckets h ! i) [0..<Suc i])))) [0..<9] @ scrape t"
    using scrape_buckets [OF assms(1,2), of h 0 BUCKET_EDGES_US 0 "out @ ?head"] by auto
  have len: "length (buckets h) = 10" using assms(4) by (simp add: well_formed_def BUCKETS_def)
  have "sum_list (map (\<lambda>i. buckets h ! i) [0..<9]) + buckets h ! 9 = sum_list (map (\<lambda>i. buckets h ! i) [0..<10])"
    by (simp add: upt_conv_Cons numeral_eq_Suc)
  also have "\<dots> = sum_list (buckets h)" using sum_nth_prefix [of 10 "buckets h"] len by simp
  finally have total: "sum_list (map (\<lambda>i. buckets h ! i) [0..<9]) + buckets h ! (BUCKETS - 1) = ?total"
    by (simp add: rendered_count_total [OF assms(4)] BUCKETS_def)
  have "histogram_text show_f64 name help h out = out @ ?head @ mid @ ?tail"
    using mid total by (simp add: histogram_text_def Let_def)
  moreover have "scrape ((?head @ mid @ ?tail) @ t) = histogram_samples show_f64 name h @ scrape t" for t
  proof -
    have "scrape ((?head @ mid @ ?tail) @ t) = scrape (mid @ ?tail @ t)"
      using scrape_comments [OF clean] by simp
    also have "\<dots> = map (\<lambda>i. (name @ ''_bucket{le=\"'' @
          show_f64 (f64_div (f64_of_u64 (BUCKET_EDGES_US ! i)) 1000000) @ ''\"}'',
        show_u64 (rendered_buckets h ! i))) [0..<9] @ scrape (?tail @ t)"
      unfolding lines using rendered_prefix [OF assms(4)] by (simp del: upt_Suc)
    also have "scrape (?tail @ t) = (name @ ''_bucket{le=\"+Inf\"}'', show_u64 ?total)
        # (name @ ''_sum'', show_f64 (f64_div (f64_of_u64 (sum_us h)) 1000000))
        # (name @ ''_count'', show_u64 ?total) # scrape t"
    proof -
      have "?tail @ t = (name @ ''_bucket{le=\"+Inf\"}'') @ '' '' @ show_u64 ?total @ nl
        @ ((name @ ''_sum'') @ '' '' @ show_f64 (f64_div (f64_of_u64 (sum_us h)) 1000000) @ nl
        @ ((name @ ''_count'') @ '' '' @ show_u64 ?total @ nl @ t))" by simp
      then show ?thesis
        by (simp only: scrape_named [OF names(1) one_line_u64] scrape_named [OF names(2) one]
            scrape_named [OF names(3) one_line_u64])
    qed
    finally show ?thesis by (simp add: histogram_samples_def)
  qed
  ultimately show ?thesis by blast
qed

definition render_samples :: "(f64 \<Rightarrow> string) \<Rightarrow> metrics \<Rightarrow> (string \<times> string) list" where
  "render_samples show_f64 m =
     map (\<lambda>(name, help, c). (name, show_u64 (get c m))) COUNTERS
     @ (''indexer_commit_lag_slots'', show_u64 (commit_lag_slots m))
     # histogram_samples show_f64 ''indexer_decode_seconds'' (decode_time m)
     @ histogram_samples show_f64 ''indexer_flush_seconds'' (flush_time m)
     @ histogram_samples show_f64 ''indexer_receive_to_committed_seconds'' (receive_to_committed m)"

lemma COUNTERS_clean: "\<forall>(name, help, c) \<in> set COUNTERS. sample_name name \<and> one_line help"
  by (simp add: COUNTERS_def sample_name_def one_line_def)

lemma scrape_lag: "scrape (lag_text n @ t) = (''indexer_commit_lag_slots'', show_u64 n) # scrape t"
proof -
  let ?a = "'' HELP indexer_commit_lag_slots slots between the newest slot seen and the newest committed''"
  let ?b = "'' TYPE indexer_commit_lag_slots gauge''"
  have "lag_text n @ t = ''#'' @ ?a @ nl @ ''#'' @ ?b @ nl @ ''indexer_commit_lag_slots'' @ '' '' @ show_u64 n @ nl @ t"
    by (simp add: lag_text_def)
  moreover have clean: "CHR 0x0A \<notin> set ?a" "CHR 0x0A \<notin> set ?b" by simp_all
  moreover have name: "sample_name ''indexer_commit_lag_slots''" by (simp add: sample_name_def)
  ultimately show ?thesis by (simp only: scrape_comments [OF clean] scrape_named [OF name one_line_u64])
qed

definition metrics_ok :: "metrics \<Rightarrow> bool" where
  "metrics_ok m \<longleftrightarrow> well_formed (decode_time m) \<and> well_formed (flush_time m)
     \<and> well_formed (receive_to_committed m)"

lemma scrape_render:
  assumes "plain_f64 show_f64" "metrics_ok m"
  shows "scrape (render show_f64 m) = render_samples show_f64 m"
proof -
  obtain a where a: "fold (\<lambda>(name, help, c) out. out @ counter_text name help (get c m)) COUNTERS [] = a"
    "\<And>t. scrape (a @ t) = map (\<lambda>(name, help, c). (name, show_u64 (get c m))) COUNTERS @ scrape t"
    using scrape_counters [OF COUNTERS_clean, of m "[]"] by auto
  have names: "sample_name ''indexer_decode_seconds''" "sample_name ''indexer_flush_seconds''"
    "sample_name ''indexer_receive_to_committed_seconds''"
    by (simp_all add: sample_name_def)
  have docs: "one_line ''time from an instruction arriving to it being counted as decoded''"
    "one_line ''time to commit one batch''"
    "one_line ''time from a row reaching the writer to its batch committing''"
    by (simp_all add: one_line_def)
  note h = scrape_histogram [OF assms(1)]
  have wf: "well_formed (decode_time m)" "well_formed (flush_time m)" "well_formed (receive_to_committed m)"
    using assms(2) by (simp_all add: metrics_ok_def)
  let ?out1 = "a @ lag_text (commit_lag_slots m)"
  obtain b where b: "histogram_text show_f64 ''indexer_decode_seconds''
      ''time from an instruction arriving to it being counted as decoded'' (decode_time m) ?out1 = ?out1 @ b"
    "\<And>t. scrape (b @ t) = histogram_samples show_f64 ''indexer_decode_seconds'' (decode_time m) @ scrape t"
    using h [OF names(1) docs(1) wf(1), of "?out1"] by blast
  obtain c where c: "histogram_text show_f64 ''indexer_flush_seconds'' ''time to commit one batch''
      (flush_time m) (?out1 @ b) = (?out1 @ b) @ c"
    "\<And>t. scrape (c @ t) = histogram_samples show_f64 ''indexer_flush_seconds'' (flush_time m) @ scrape t"
    using h [OF names(2) docs(2) wf(2), of "?out1 @ b"] by blast
  obtain d where d: "histogram_text show_f64 ''indexer_receive_to_committed_seconds''
      ''time from a row reaching the writer to its batch committing'' (receive_to_committed m) ((?out1 @ b) @ c)
        = ((?out1 @ b) @ c) @ d"
    "\<And>t. scrape (d @ t) = histogram_samples show_f64 ''indexer_receive_to_committed_seconds''
        (receive_to_committed m) @ scrape t"
    using h [OF names(3) docs(3) wf(3), of "(?out1 @ b) @ c"] by blast
  have "render show_f64 m = a @ lag_text (commit_lag_slots m) @ b @ c @ d @ []"
    unfolding render_def Let_def a(1) b(1) c(1) d(1) by simp
  then have "scrape (render show_f64 m) = scrape (a @ lag_text (commit_lag_slots m) @ b @ c @ d @ [])" by (rule arg_cong)
  also have "\<dots> = render_samples show_f64 m"
    unfolding a(2) scrape_lag b(2) c(2) d(2) by (simp add: render_samples_def scrape_def)
  finally show ?thesis .
qed

section \<open>Property\<close>

text \<open>What a scraper gets for a name.\<close>

definition scraped :: "string \<Rightarrow> string \<Rightarrow> nat option" where
  "scraped text n = map_option read_nat (map_of (scrape text) n)"

lemma bucket_name_inf:
  assumes "plain_f64 show_f64"
  shows "name @ ''_bucket{le=\"'' @ show_f64 x @ ''\"}'' \<noteq> name @ ''_bucket{le=\"+Inf\"}''"
proof -
  have "CHR ''+'' \<notin> insert CHR ''.'' digits" by (simp add: digits_def)
  moreover have "set (show_f64 x) \<subseteq> insert CHR ''.'' digits" using assms by (simp add: plain_f64_def)
  ultimately have "CHR ''+'' \<notin> set (show_f64 x)" by blast
  then show ?thesis by (cases "show_f64 x") auto
qed

lemma histogram_lookup:
  assumes "plain_f64 show_f64"
  shows "map_of (histogram_samples show_f64 name h) (name @ ''_count'') = Some (show_u64 (rendered_count h))"
    and "map_of (histogram_samples show_f64 name h) (name @ ''_bucket{le=\"+Inf\"}'') = Some (show_u64 (rendered_count h))"
proof -
  let ?ls = "map (\<lambda>i. (name @ ''_bucket{le=\"'' @ show_f64 (f64_div (f64_of_u64 (BUCKET_EDGES_US ! i)) 1000000) @ ''\"}'',
            show_u64 (rendered_buckets h ! i))) [0..<9]"
  have none: "map_of ?ls k = None" if "\<And>x. name @ ''_bucket{le=\"'' @ show_f64 x @ ''\"}'' \<noteq> k" for k
  proof -
    have "k \<notin> fst ` set ?ls"
    proof
      assume "k \<in> fst ` set ?ls"
      then obtain x where "k = name @ ''_bucket{le=\"'' @ show_f64 x @ ''\"}''"
        unfolding set_map image_image by (elim imageE) (simp only: fst_conv)
      then show False by (rule that [THEN notE, OF sym])
    qed
    then show ?thesis by (simp only: map_of_eq_None_iff not_False_eq_True)
  qed
  have "map_of ?ls (name @ ''_count'') = None" by (rule none) simp
  then show "map_of (histogram_samples show_f64 name h) (name @ ''_count'') = Some (show_u64 (rendered_count h))"
    unfolding histogram_samples_def map_of_append map_add_def by simp
  have "map_of ?ls (name @ ''_bucket{le=\"+Inf\"}'') = None" by (rule none) (rule bucket_name_inf [OF assms])
  then show "map_of (histogram_samples show_f64 name h) (name @ ''_bucket{le=\"+Inf\"}'') = Some (show_u64 (rendered_count h))"
    unfolding histogram_samples_def map_of_append map_add_def by simp
qed

lemma histogram_other:
  assumes "take (length name) k \<noteq> name"
  shows "map_of (histogram_samples show_f64 name h) k = None"
proof -
  have "k \<notin> fst ` set (histogram_samples show_f64 name h)"
    using assms by (auto simp: histogram_samples_def)
  then show ?thesis by (simp only: map_of_eq_None_iff not_False_eq_True)
qed

definition HISTOGRAMS :: "(string \<times> (metrics \<Rightarrow> histogram)) list" where
  "HISTOGRAMS = [(''indexer_decode_seconds'', decode_time), (''indexer_flush_seconds'', flush_time),
     (''indexer_receive_to_committed_seconds'', receive_to_committed)]"

lemma counter_lookup:
  "(name, help, c) \<in> set COUNTERS \<Longrightarrow>
     map_of (map (\<lambda>(name, help, c). (name, show_u64 (get c m))) COUNTERS) name = Some (show_u64 (get c m))"
proof -
  assume mem: "(name, help, c) \<in> set COUNTERS"
  have "distinct (map fst COUNTERS)" by (simp add: COUNTERS_def)
  then have "distinct (map fst (map (\<lambda>(name, help, c). (name, show_u64 (get c m))) COUNTERS))"
    by (simp add: comp_def case_prod_unfold)
  moreover have "(name, show_u64 (get c m)) \<in> set (map (\<lambda>(name, help, c). (name, show_u64 (get c m))) COUNTERS)"
    using mem by force
  ultimately show ?thesis by (rule map_of_is_SomeI)
qed

lemma counter_other:
  "k \<notin> fst ` set COUNTERS \<Longrightarrow>
     map_of (map (\<lambda>(name, help, c). (name, show_u64 (get c m))) COUNTERS) k = None"
  by (force simp: map_of_eq_None_iff)

lemma map_of_hit: "map_of xs k = Some v \<Longrightarrow> map_of (xs @ ys) k = Some v"
  by (simp add: map_add_def)

lemma map_of_skip: "map_of xs k = None \<Longrightarrow> map_of (xs @ ys) k = map_of ys k"
  by (simp add: map_add_def)

lemma counter_found:
  "(name, help, c) \<in> set COUNTERS \<Longrightarrow>
     map_of (render_samples show_f64 m) name = Some (show_u64 (get c m))"
  unfolding render_samples_def by (rule map_of_hit) (rule counter_lookup)

lemma lag_found:
  "map_of (render_samples show_f64 m) ''indexer_commit_lag_slots'' = Some (show_u64 (commit_lag_slots m))"
proof -
  have "map_of (map (\<lambda>(name, help, c). (name, show_u64 (get c m))) COUNTERS) ''indexer_commit_lag_slots'' = None"
    by (rule counter_other) (simp add: COUNTERS_def)
  from map_of_skip [OF this] show ?thesis by (simp only: render_samples_def) simp
qed

lemma histogram_names:
  "(name, h) \<in> set HISTOGRAMS \<Longrightarrow> s = ''_count'' \<or> s = ''_bucket{le=\"+Inf\"}'' \<Longrightarrow>
     name @ s \<notin> fst ` set COUNTERS \<and> name @ s \<noteq> ''indexer_commit_lag_slots''
     \<and> (\<forall>(name', h') \<in> set HISTOGRAMS. name' \<noteq> name \<longrightarrow> take (length name') (name @ s) \<noteq> name')"
  by (auto simp: HISTOGRAMS_def COUNTERS_def)

lemma histogram_found:
  assumes "plain_f64 show_f64" "(name, h) \<in> set HISTOGRAMS" "s = ''_count'' \<or> s = ''_bucket{le=\"+Inf\"}''"
  shows "map_of (render_samples show_f64 m) (name @ s) = Some (show_u64 (rendered_count (h m)))"
proof -
  note names = histogram_names [OF assms(2,3)]
  have own: "map_of (histogram_samples show_f64 name (h m)) (name @ s) = Some (show_u64 (rendered_count (h m)))"
    using assms(3) histogram_lookup [OF assms(1)] by auto
  have other: "map_of (histogram_samples show_f64 n' (h' m)) (name @ s) = None"
    if "(n', h') \<in> set HISTOGRAMS" "n' \<noteq> name" for n' h'
    using names that by (intro histogram_other) blast
  have rest: "map_of (map (\<lambda>(name, help, c). (name, show_u64 (get c m))) COUNTERS) (name @ s) = None"
    using names by (intro counter_other) blast
  have skip: "map_of (render_samples show_f64 m) (name @ s) =
      map_of (histogram_samples show_f64 ''indexer_decode_seconds'' (decode_time m)
        @ histogram_samples show_f64 ''indexer_flush_seconds'' (flush_time m)
        @ histogram_samples show_f64 ''indexer_receive_to_committed_seconds'' (receive_to_committed m)) (name @ s)"
    using names unfolding render_samples_def map_of_skip [OF rest] by simp
  have dec: "(''indexer_decode_seconds'', decode_time) \<in> set HISTOGRAMS"
    and flu: "(''indexer_flush_seconds'', flush_time) \<in> set HISTOGRAMS" by (simp_all add: HISTOGRAMS_def)
  consider "name = ''indexer_decode_seconds''" "h = decode_time" | "name = ''indexer_flush_seconds''" "h = flush_time"
    | "name = ''indexer_receive_to_committed_seconds''" "h = receive_to_committed"
    using assms(2) by (auto simp: HISTOGRAMS_def)
  then show ?thesis
  proof cases
    case 1
    show ?thesis unfolding skip by (rule map_of_hit) (use own 1 in simp)
  next
    case 2
    have "map_of (histogram_samples show_f64 ''indexer_decode_seconds'' (decode_time m)) (name @ s) = None"
      by (rule other [OF dec]) (simp add: 2)
    then show ?thesis unfolding skip by (subst map_of_skip) (use own 2 in \<open>simp_all add: map_of_hit del: map_of_append\<close>)
  next
    case 3
    have "map_of (histogram_samples show_f64 ''indexer_decode_seconds'' (decode_time m)) (name @ s) = None"
      "map_of (histogram_samples show_f64 ''indexer_flush_seconds'' (flush_time m)) (name @ s) = None"
      by (rule other [OF dec], simp add: 3, rule other [OF flu], simp add: 3)
    then show ?thesis unfolding skip using own 3 by (simp add: map_of_skip del: map_of_append)
  qed
qed

text \<open>
  Claim C38. What is served is what was counted: a scraper that reads the text of \<^verbatim>\<open>render\<close> gets, for every
  counter in its table and for the lag gauge, the current value, and for every histogram the
  number of all observations, both as its count and for infinity.
\<close>

theorem scrape_reads_metrics:
  assumes "plain_f64 show_f64" "metrics_ok m"
  shows "(\<forall>(name, help, c) \<in> set COUNTERS. scraped (render show_f64 m) name = Some (unat (get c m)))
    \<and> scraped (render show_f64 m) ''indexer_commit_lag_slots'' = Some (unat (commit_lag_slots m))
    \<and> (\<forall>(name, h) \<in> set HISTOGRAMS.
        scraped (render show_f64 m) (name @ ''_count'') = Some (unat (sum_list (buckets (h m))))
        \<and> scraped (render show_f64 m) (name @ ''_bucket{le=\"+Inf\"}'') = Some (unat (sum_list (buckets (h m)))))"
proof -
  have read: "scraped (render show_f64 m) n = map_option read_nat (map_of (render_samples show_f64 m) n)" for n
    by (simp add: scraped_def scrape_render [OF assms])
  have "map_of (render_samples show_f64 m) name = Some (show_u64 (get c m))"
    if "(name, doc, c) \<in> set COUNTERS" for name doc c
    using counter_found [OF that] .
  moreover note lag_found [of show_f64 m]
  moreover have "rendered_count (h m) = sum_list (buckets (h m))" if "(name, h) \<in> set HISTOGRAMS" for name h
    using that assms(2) by (auto simp: HISTOGRAMS_def metrics_ok_def rendered_count_total)
  ultimately show ?thesis
    using histogram_found [OF assms(1)] by (auto simp: read show_u64_def)
qed

text \<open>The witness shows numbers by their integer part.\<close>

definition whole :: "f64 \<Rightarrow> string" where
  "whole x = show_nat (nat \<lfloor>x\<rfloor>)"

lemma plain_whole: "plain_f64 whole"
  unfolding plain_f64_def whole_def by (blast intro: subsetD [OF show_nat_digits])

lemma metrics_ok_new: "metrics_ok new_metrics"
  by (simp add: metrics_ok_def new_metrics_def well_formed_new)

theorem scrape_reads_metrics_witness:
  "scraped (render whole (inc DEAD_LETTERS new_metrics)) ''indexer_dead_letters_total'' = Some 1"
proof -
  have "metrics_ok (inc DEAD_LETTERS new_metrics)"
    using metrics_ok_new by (simp add: metrics_ok_def inc_def)
  moreover have "(''indexer_dead_letters_total'', ''rows parked after a failed batch'', DEAD_LETTERS) \<in> set COUNTERS"
    by (simp add: COUNTERS_def)
  ultimately show ?thesis
    using scrape_reads_metrics [OF plain_whole, of "inc DEAD_LETTERS new_metrics"]
    by (fastforce simp: new_metrics_def get_def inc_def)
qed

end
