(* ===== verification/Bench.thy ===== *)
theory Bench
  imports Datasources Db Render
begin

text \<open>
  \<^verbatim>\<open>src/bench.rs\<close>: the benchmark. Its source replays a capture at a fixed rate, giving each
  update a signature of its own; when the pipeline has ended, the counters are compared with
  what was expected and the run is judged.

  \<^item> \<open>forward\<close> is the loop between the inner replay (\<^verbatim>\<open>Datasources.replay_consume\<close>) and the
    pipeline; time is explicit.
  \<^item> \<open>result_of\<close> computes the result from what the run left; floating point is that of
    the theory \<^verbatim>\<open>F64\<close>.
  \<^item> \<open>publish\<close> writes it as JSON, whose text is library code, and prints the line.
\<close>

unbundle bit_operations_syntax

section \<open>Durations\<close>

text \<open>A \<^verbatim>\<open>Duration\<close>, and an instant, is a number of nanoseconds.\<close>

definition duration_us :: "nat \<Rightarrow> u64" where
  "duration_us d = (let us = d div 1000 in if us < 2 ^ 64 then of_nat us else - 1)"

definition from_micros :: "u64 \<Rightarrow> nat" where
  "from_micros us = unat us * 1000"

definition as_secs_f64 :: "nat \<Rightarrow> f64" where
  "as_secs_f64 d = f64_add (f64_of_u64 (of_nat (d div 1000000000)))
     (f64_div (f64_of_u64 (of_nat (d mod 1000000000))) 1000000000)"

text \<open>\<^verbatim>\<open>Duration::from_secs_f64\<close> rounds to nanoseconds; \<open>None\<close> is its panic on overflow.\<close>

definition from_secs_f64 :: "f64 \<Rightarrow> nat option" where
  "from_secs_f64 x = (let n = round_half_even (x * 1000000000) in
     if n < 2 ^ 64 * 1000000000 then Some (nat n) else None)"

section \<open>The statistics of the source\<close>

record bench_stats =
  bs_sent :: u64
  elapsed_us :: u64
  max_schedule_lag_us :: u64
  max_channel_send_wait_us :: u64

definition new_stats :: bench_stats where
  "new_stats = \<lparr>bs_sent = 0, elapsed_us = 0, max_schedule_lag_us = 0,
     max_channel_send_wait_us = 0\<rparr>"

definition stats_elapsed :: "bench_stats \<Rightarrow> nat" where
  "stats_elapsed b = from_micros (elapsed_us b)"

definition max_schedule_lag :: "bench_stats \<Rightarrow> nat" where
  "max_schedule_lag b = from_micros (max_schedule_lag_us b)"

definition max_channel_send_wait :: "bench_stats \<Rightarrow> nat" where
  "max_channel_send_wait b = from_micros (max_channel_send_wait_us b)"

definition finish :: "u64 \<Rightarrow> nat \<Rightarrow> bench_stats \<Rightarrow> bench_stats" where
  "finish n elapsed b = b\<lparr>bs_sent := n, elapsed_us := duration_us elapsed\<rparr>"

definition record_schedule_lag :: "nat \<Rightarrow> bench_stats \<Rightarrow> bench_stats" where
  "record_schedule_lag elapsed b =
     b\<lparr>max_schedule_lag_us := max (max_schedule_lag_us b) (duration_us elapsed)\<rparr>"

definition record_channel_send_wait :: "nat \<Rightarrow> bench_stats \<Rightarrow> bench_stats" where
  "record_channel_send_wait elapsed b =
     b\<lparr>max_channel_send_wait_us := max (max_channel_send_wait_us b) (duration_us elapsed)\<rparr>"

section \<open>Unique signatures\<close>

text \<open>\<^verbatim>\<open>u64::to_le_bytes\<close>.\<close>

definition le_bytes :: "u64 \<Rightarrow> u8 list" where
  "le_bytes w = map (\<lambda>i. ucast (drop_bit (8 * i) w)) [0..<8]"

fun xor_bytes :: "u8 list \<Rightarrow> u8 list \<Rightarrow> u8 list" where
  "xor_bytes (b # bs) (m # ms) = (b XOR m) # xor_bytes bs ms"
| "xor_bytes bs _ = bs"

text \<open>
  \<^verbatim>\<open>Signature::try_from\<close> answers for 64 bytes. Every update of a replay is a transaction.
\<close>

definition unique_signature :: "u64 \<Rightarrow> u64 \<Rightarrow> u8 list \<Rightarrow> u8 list" where
  "unique_signature salt index sig =
     (let bytes = xor_bytes sig (le_bytes (salt + index)) in
      if length bytes = 64 then bytes else sig)"

definition make_signature_unique ::
  "u64 \<Rightarrow> u64 \<Rightarrow> ('t, 'm) tx_update \<Rightarrow> ('t, 'm) tx_update" where
  "make_signature_unique salt index u = u\<lparr>up_signature := unique_signature salt index (up_signature u)\<rparr>"

section \<open>The paced source\<close>

text \<open>
  The forwarder, one turn per update the inner replay delivers. A \<open>hop\<close> is what the surroundings
  decide: whether the token is cancelled, how long the update, the timer, the channel and the
  two clock readings make it wait, and whether the channel takes it. Sleeping until an instant ends at that instant or
  later. \<open>left_loop\<close> says that the loop was left; \<open>panicked\<close> that the schedule overflowed.
\<close>

record 'u hop =
  update :: 'u
  recv_delay :: nat
  is_cancelled :: bool
  oversleep :: nat
  send_delay :: nat
  log_delay :: nat
  taken :: bool

record 'u forwarder =
  now :: nat
  fw_sent :: u64
  fw_stats :: bench_stats
  sent_out :: "(nat \<times> 'u) list"
  left_loop :: bool
  panicked :: bool

definition scheduled_at :: "nat \<Rightarrow> u64 \<Rightarrow> u64 \<Rightarrow> nat option" where
  "scheduled_at started rate n =
     map_option (\<lambda>d. started + d) (from_secs_f64 (f64_div (f64_of_u64 n) (f64_of_u64 rate)))"

definition forward_one ::
  "u64 \<Rightarrow> u64 \<Rightarrow> nat \<Rightarrow> ('t, 'm) tx_update hop \<Rightarrow> ('t, 'm) tx_update forwarder \<Rightarrow>
     ('t, 'm) tx_update forwarder" where
  "forward_one rate salt started hop f =
     (let received = now f + recv_delay hop in
      if is_cancelled hop then f\<lparr>now := received, left_loop := True\<rparr>
      else case scheduled_at started rate (fw_sent f) of
        None \<Rightarrow> f\<lparr>now := received, left_loop := True, panicked := True\<rparr>
      | Some due \<Rightarrow>
          (let send_started = max received due + oversleep hop;
               u = make_signature_unique salt (fw_sent f) (update hop);
               sent_at = send_started + send_delay hop
           in if \<not> taken hop then f\<lparr>now := sent_at, left_loop := True\<rparr>
              else f\<lparr>now := sent_at + log_delay hop, sent_out := sent_out f @ [(send_started, u)],
                     fw_stats := record_schedule_lag (sent_at + log_delay hop - due)
                       (record_channel_send_wait (sent_at - send_started) (fw_stats f)),
                     fw_sent := fw_sent f + 1\<rparr>))"

fun forward ::
  "u64 \<Rightarrow> u64 \<Rightarrow> nat \<Rightarrow> ('t, 'm) tx_update hop list \<Rightarrow> ('t, 'm) tx_update forwarder \<Rightarrow>
     ('t, 'm) tx_update forwarder" where
  "forward rate salt started [] f = f"
| "forward rate salt started (h # hs) f =
     (let f' = forward_one rate salt started h f in
      if left_loop f' then f' else forward rate salt started hs f')"

definition new_forwarder :: "nat \<Rightarrow> bench_stats \<Rightarrow> 'u forwarder" where
  "new_forwarder started b = \<lparr>now = started, fw_sent = 0, fw_stats = b, sent_out = [],
     left_loop = False, panicked = False\<rparr>"

text \<open>
  \<^verbatim>\<open>PacedReplayDatasource::consume\<close>: the forwarder over the hops, then \<^verbatim>\<open>finish\<close> with the
  elapsed time. \<open>last_wait\<close> is the wait for the end of the inner replay.
\<close>

definition paced_consume ::
  "u64 \<Rightarrow> u64 \<Rightarrow> nat \<Rightarrow> nat \<Rightarrow> ('t, 'm) tx_update hop list \<Rightarrow> bench_stats \<Rightarrow>
     (nat \<times> ('t, 'm) tx_update) list \<times> bench_stats" where
  "paced_consume rate salt started last_wait hops b =
     (let f = forward rate salt started hops (new_forwarder started b);
          ended_at = (if left_loop f then now f else now f + last_wait)
      in
      (sent_out f, if panicked f then fw_stats f
                   else finish (fw_sent f) (ended_at - started) (fw_stats f)))"

section \<open>The result and its verdict\<close>

record benchmark_result =
  schema_version :: u32
  generated_at_utc :: string
  fixture :: string
  requested_tps :: u64
  repeats :: u32
  input_transactions :: u64
  expected_events :: u64
  decoded_events :: u64
  missing_events :: u64
  unexpected_events :: u64
  uncommitted_rows :: u64
  pipeline_elapsed_seconds :: f64
  source_elapsed_seconds :: f64
  source_achieved_tps :: f64
  decoded_events_per_second :: f64
  max_schedule_lag_ms :: f64
  max_channel_send_wait_ms :: f64
  writer_to_commit :: histogram_summary
  replay_skipped :: u64
  pool_cache_misses :: u64
  pool_lookups :: u64
  pool_lookup_errors :: u64
  lookups_dropped :: u64
  database_write_errors :: u64
  res_dead_letters :: u64
  falling_behind :: bool

definition per_second :: "u64 \<Rightarrow> nat \<Rightarrow> f64" where
  "per_second n elapsed = (if elapsed = 0 then 0 else f64_div (f64_of_u64 n) (as_secs_f64 elapsed))"

definition result_of ::
  "string \<Rightarrow> string \<Rightarrow> u64 \<Rightarrow> u32 \<Rightarrow> u64 \<Rightarrow> nat \<Rightarrow> bench_stats \<Rightarrow> metrics \<Rightarrow> benchmark_result" where
  "result_of utc path rate repeat expected pipeline_elapsed b m =
     (let source_elapsed = stats_elapsed b;
          decoded = get EVENTS_DECODED m;
          committed = summary (receive_to_committed m);
          achieved = per_second (bs_sent b) source_elapsed;
          missing = saturating_sub expected decoded;
          unexpected = saturating_sub decoded expected;
          uncommitted = saturating_sub decoded (count committed);
          lag_ms = f64_mul (as_secs_f64 (max_schedule_lag b)) 1000;
          wait_ms = f64_mul (as_secs_f64 (max_channel_send_wait b)) 1000
      in \<lparr>schema_version = 1, generated_at_utc = utc, fixture = path, requested_tps = rate, repeats = repeat,
          input_transactions = bs_sent b, expected_events = expected, decoded_events = decoded,
          missing_events = missing, unexpected_events = unexpected, uncommitted_rows = uncommitted,
          pipeline_elapsed_seconds = as_secs_f64 pipeline_elapsed,
          source_elapsed_seconds = as_secs_f64 source_elapsed,
          source_achieved_tps = achieved,
          decoded_events_per_second = per_second decoded pipeline_elapsed,
          max_schedule_lag_ms = lag_ms, max_channel_send_wait_ms = wait_ms,
          writer_to_commit = committed,
          replay_skipped = get REPLAY_SKIPPED m, pool_cache_misses = get POOL_CACHE_MISSES m,
          pool_lookups = get POOL_LOOKUPS m, pool_lookup_errors = get POOL_LOOKUP_ERRORS m,
          lookups_dropped = get LOOKUPS_DROPPED m, database_write_errors = get DB_WRITE_ERRORS m,
          res_dead_letters = get DEAD_LETTERS m,
          falling_behind = (achieved < f64_mul (f64_of_u64 rate) (f64_round (95 / 100))
            \<or> 1000 < lag_ms \<or> 0 < missing \<or> 0 < unexpected \<or> 0 < uncommitted
            \<or> 0 < get REPLAY_SKIPPED m \<or> 0 < get POOL_CACHE_MISSES m \<or> 0 < get POOL_LOOKUPS m
            \<or> 0 < get POOL_LOOKUP_ERRORS m \<or> 0 < get LOOKUPS_DROPPED m
            \<or> 0 < get DB_WRITE_ERRORS m \<or> 0 < get DEAD_LETTERS m)\<rparr>)"

text \<open>
  \<^verbatim>\<open>run_benchmark\<close> up to the writing of the result. \<open>connect\<close> answers for the database, and
  \<open>run\<close> is the pipeline over the paced source: given rate, repeat
  and salt, an error of priming or the time it took, the source's statistics and the
  counters at its end. The environment variables and clocks it reads are one record.
\<close>

datatype bench_error =
    Zero_rate | Zero_repeat | Expected_overflow | No_database_url | Connect_failed db_error
  | No_salt | No_rpc_url | Pipeline_failed | Dir_failed | Json_failed | Write_failed

record bench_env =
  env_database_url :: "string option"
  env_rpc_url :: "string option"
  env_nanos :: "nat option"
  env_pid :: u32
  env_utc :: string

text \<open>
  \<^verbatim>\<open>signature_salt\<close>: the clock's nanoseconds since the epoch (\<open>None\<close> before it), folded to 64
  bits, and the process id.
\<close>

definition signature_salt :: "nat option \<Rightarrow> u32 \<Rightarrow> u64 option" where
  "signature_salt nanos pid =
     map_option (\<lambda>n. of_nat n XOR of_nat (n div 2 ^ 64) XOR ucast pid) nanos"

definition run_benchmark ::
  "(string \<Rightarrow> db_error option) \<Rightarrow> (u64 \<Rightarrow> u32 \<Rightarrow> u64 \<Rightarrow> (nat \<times> bench_stats \<times> metrics) option) \<Rightarrow>
     string \<Rightarrow> u64 \<Rightarrow> u32 \<Rightarrow> u64 \<Rightarrow> bench_env \<Rightarrow> bench_error + benchmark_result" where
  "run_benchmark connect run path rate repeat per_pass env =
     (if rate = 0 then Inl Zero_rate
      else if repeat = 0 then Inl Zero_repeat
      else case checked_mul per_pass (ucast repeat) of
        None \<Rightarrow> Inl Expected_overflow
      | Some expected \<Rightarrow>
          (case env_database_url env of
             None \<Rightarrow> Inl No_database_url
           | Some u \<Rightarrow>
               (case connect u of
                  Some e \<Rightarrow> Inl (Connect_failed e)
                | None \<Rightarrow>
                    (case signature_salt (env_nanos env) (env_pid env) of
                       None \<Rightarrow> Inl No_salt
                     | Some s \<Rightarrow>
                         if env_rpc_url env = None then Inl No_rpc_url
                         else
                           (case run rate repeat s of
                              None \<Rightarrow> Inl Pipeline_failed
                            | Some (elapsed, b, m) \<Rightarrow>
                                Inr (result_of (env_utc env) path rate repeat expected elapsed b m))))))"

section \<open>Publishing the result\<close>

text \<open>
  The derived \<^verbatim>\<open>Serialize\<close>: an object with the fields by their names. The text of a
  floating-point number is the argument \<open>show_f64\<close>, an absent one is \<^verbatim>\<open>null\<close>.
\<close>

definition f64_json :: "(f64 \<Rightarrow> string) \<Rightarrow> f64 \<Rightarrow> json" where
  "f64_json show_f64 x = JNumber (FloatNum (show_f64 x))"

definition some_f64_json :: "(f64 \<Rightarrow> string) \<Rightarrow> f64 option \<Rightarrow> json" where
  "some_f64_json show_f64 x = (case x of None \<Rightarrow> JNull | Some y \<Rightarrow> f64_json show_f64 y)"

definition summary_json :: "(f64 \<Rightarrow> string) \<Rightarrow> histogram_summary \<Rightarrow> json" where
  "summary_json show_f64 h = JObject
     [(''count'', json_u64 (count h)), (''mean_ms'', some_f64_json show_f64 (mean_ms h)),
      (''p50_upper_ms'', some_f64_json show_f64 (p50_upper_ms h)),
      (''p95_upper_ms'', some_f64_json show_f64 (p95_upper_ms h)),
      (''p99_upper_ms'', some_f64_json show_f64 (p99_upper_ms h))]"

definition result_json :: "(f64 \<Rightarrow> string) \<Rightarrow> benchmark_result \<Rightarrow> json" where
  "result_json show_f64 r = JObject
     [(''schema_version'', json_u64 (ucast (schema_version r))),
      (''generated_at_utc'', JString (generated_at_utc r)),
      (''fixture'', JString (fixture r)), (''requested_tps'', json_u64 (requested_tps r)),
      (''repeat'', json_u64 (ucast (repeats r))),
      (''input_transactions'', json_u64 (input_transactions r)),
      (''expected_events'', json_u64 (expected_events r)),
      (''decoded_events'', json_u64 (decoded_events r)),
      (''missing_events'', json_u64 (missing_events r)),
      (''unexpected_events'', json_u64 (unexpected_events r)),
      (''uncommitted_rows'', json_u64 (uncommitted_rows r)),
      (''pipeline_elapsed_seconds'', f64_json show_f64 (pipeline_elapsed_seconds r)),
      (''source_elapsed_seconds'', f64_json show_f64 (source_elapsed_seconds r)),
      (''source_achieved_tps'', f64_json show_f64 (source_achieved_tps r)),
      (''decoded_events_per_second'', f64_json show_f64 (decoded_events_per_second r)),
      (''max_schedule_lag_ms'', f64_json show_f64 (max_schedule_lag_ms r)),
      (''max_channel_send_wait_ms'', f64_json show_f64 (max_channel_send_wait_ms r)),
      (''writer_to_commit'', summary_json show_f64 (writer_to_commit r)),
      (''replay_skipped'', json_u64 (replay_skipped r)),
      (''pool_cache_misses'', json_u64 (pool_cache_misses r)),
      (''pool_lookups'', json_u64 (pool_lookups r)),
      (''pool_lookup_errors'', json_u64 (pool_lookup_errors r)),
      (''lookups_dropped'', json_u64 (lookups_dropped r)),
      (''database_write_errors'', json_u64 (database_write_errors r)),
      (''dead_letters'', json_u64 (res_dead_letters r)),
      (''falling_behind'', JBool (falling_behind r))]"

text \<open>\<^verbatim>\<open>{:.1}\<close> of a non-negative number: tenths, rounded half to even.\<close>

definition tenths :: "f64 \<Rightarrow> nat" where
  "tenths x = nat (round_half_even (x * 10))"

definition show_tenths :: "f64 \<Rightarrow> string" where
  "show_tenths x = show_nat (tenths x div 10) @ ''.'' @ show_nat (tenths x mod 10)"

definition show_bool :: "bool \<Rightarrow> string" where
  "show_bool b = (if b then ''true'' else ''false'')"

definition p99_text :: "benchmark_result \<Rightarrow> string" where
  "p99_text r = (case p99_upper_ms (writer_to_commit r) of
      Some x \<Rightarrow> show_tenths x @ '' ms'' | None \<Rightarrow> ''overflow bucket'')"

definition result_line :: "benchmark_result \<Rightarrow> string" where
  "result_line r =
     ''benchmark result: requested='' @ show_u64 (requested_tps r) @ '' tx/s '' @
     ''achieved='' @ show_tenths (source_achieved_tps r) @ '' tx/s decoded='' @ show_u64 (decoded_events r) @
     '' expected='' @ show_u64 (expected_events r) @ '' '' @
     ''max_lag='' @ show_tenths (max_schedule_lag_ms r) @ '' ms writer_p99<='' @ p99_text r @ '' '' @
     ''falling_behind='' @ show_bool (falling_behind r)"

text \<open>
  The rest of \<^verbatim>\<open>run_benchmark\<close>: the directory is created (\<open>make_dirs\<close> says whether that works,
  or is not needed), the JSON file written, two lines printed. The result is the text of the file and
  what was printed. \<open>pretty\<close> is the JSON printer.
\<close>

definition publish ::
  "(f64 \<Rightarrow> string) \<Rightarrow> (json \<Rightarrow> string option) \<Rightarrow> (string \<Rightarrow> bool) \<Rightarrow> (string \<Rightarrow> bool) \<Rightarrow> string \<Rightarrow>
     benchmark_result \<Rightarrow> bench_error + string \<times> string" where
  "publish show_f64 pretty make_dirs write_ok output r =
     (if \<not> make_dirs output then Inl Dir_failed
      else case pretty (result_json show_f64 r) of
        None \<Rightarrow> Inl Json_failed
      | Some file_body \<Rightarrow>
          if \<not> write_ok output then Inl Write_failed
          else Inr (file_body @ nl,
            result_line r @ nl @ ''benchmark JSON written to '' @ output @ nl))"

text \<open>A figure in the printed line is at most half a tenth away from the number.\<close>

lemma tenths_error:
  assumes "0 \<le> x"
  shows "\<bar>of_nat (tenths x) / 10 - x\<bar> \<le> 1 / 20"
proof -
  have "0 \<le> round_half_even (x * 10)" using round_half_even_ge [of 0 "x * 10"] assms by simp
  then have "(of_nat (tenths x) :: rat) = of_int (round_half_even (x * 10))" by (simp add: tenths_def)
  then show ?thesis using round_half_even_error [of "x * 10"] by linarith
qed

text \<open>
  What the file says can be read back: the numbers the verdict depends on, the verdict, and the
  counts of the latency summary.
\<close>

lemma result_json_fields:
  "as_bool (json_index ''falling_behind'' (result_json show_f64 r)) = Some (falling_behind r)"
  "as_u64_json (json_index ''expected_events'' (result_json show_f64 r)) = Some (expected_events r)"
  "as_u64_json (json_index ''decoded_events'' (result_json show_f64 r)) = Some (decoded_events r)"
  "as_u64_json (json_index ''uncommitted_rows'' (result_json show_f64 r)) = Some (uncommitted_rows r)"
  "as_u64_json (json_index ''dead_letters'' (result_json show_f64 r)) = Some (res_dead_letters r)"
  "as_u64_json (json_index ''count'' (json_index ''writer_to_commit'' (result_json show_f64 r)))
     = Some (count (writer_to_commit r))"
  by (simp_all add: result_json_def summary_json_def json_index_def)

section \<open>Masks\<close>

lemma length_le_bytes [simp]: "length (le_bytes w) = 8"
  by (simp add: le_bytes_def)

lemma bit_le_bytes: "i < 8 \<Longrightarrow> j < 8 \<Longrightarrow> bit (le_bytes w ! i) j \<longleftrightarrow> bit w (8 * i + j)"
  by (simp add: le_bytes_def bit_unsigned_iff bit_drop_bit_eq)

lemma le_bytes_inj: "le_bytes v = le_bytes w \<longleftrightarrow> v = w"
proof
  assume eq: "le_bytes v = le_bytes w"
  show "v = w"
  proof (rule bit_word_eqI)
    fix n assume "n < LENGTH(64)"
    then have "n div 8 < 8" "n mod 8 < 8" by auto
    then show "bit v n \<longleftrightarrow> bit w n"
      using bit_le_bytes [of "n div 8" "n mod 8" v] bit_le_bytes [of "n div 8" "n mod 8" w] eq by simp
  qed
qed simp

lemma length_xor_bytes [simp]: "length (xor_bytes bs ms) = length bs"
  by (induction bs ms rule: xor_bytes.induct) simp_all

lemma xor_bytes_undo [simp]: "xor_bytes (xor_bytes bs ms) ms = bs"
  by (induction bs ms rule: xor_bytes.induct) (simp_all add: xor.assoc)

lemma drop_xor_bytes [simp]: "drop (length ms) (xor_bytes bs ms) = drop (length ms) bs"
  by (induction bs ms rule: xor_bytes.induct) simp_all

lemma xor_bytes_inj:
  "length ms = length ms' \<Longrightarrow> length ms \<le> length bs \<Longrightarrow> xor_bytes bs ms = xor_bytes bs ms' \<longleftrightarrow> ms = ms'"
proof (induction bs ms arbitrary: ms' rule: xor_bytes.induct)
  case (1 b bs m ms)
  then obtain m' rest where ms': "ms' = m' # rest" by (cases ms') auto
  have "b XOR m = b XOR m' \<longleftrightarrow> m = m'"
    by (metis xor.assoc xor.left_neutral xor_self_eq)
  with 1 show ?case by (simp add: ms')
qed auto

lemma unique_signature_64: "length sig = 64 \<Longrightarrow> unique_signature salt i sig = xor_bytes sig (le_bytes (salt + i))"
  by (simp add: unique_signature_def Let_def)

lemma length_unique_signature [simp]: "length (unique_signature salt i sig) = length sig"
  by (simp add: unique_signature_def Let_def)

lemma drop_unique_signature: "drop 8 (unique_signature salt i sig) = drop 8 sig"
  using drop_xor_bytes [of "le_bytes (salt + i)" sig] by (simp add: unique_signature_def Let_def)

lemma unique_signature_differs:
  assumes "length sig = 64"
  shows "unique_signature salt i sig = unique_signature salt j sig \<longleftrightarrow> i = j"
  using assms xor_bytes_inj [of "le_bytes (salt + i)" "le_bytes (salt + j)" sig]
  by (simp add: unique_signature_64 le_bytes_inj)

section \<open>Statistics\<close>

lemma duration_us_from_micros [simp]: "duration_us (from_micros us) = us"
  using unsigned_less [of us, where ?'a = nat] by (simp add: duration_us_def from_micros_def)

interpretation lag: max_register max_schedule_lag_us "\<lambda>us. record_schedule_lag (from_micros us)"
  by unfold_locales (simp add: record_schedule_lag_def)

interpretation wait: max_register max_channel_send_wait_us "\<lambda>us. record_channel_send_wait (from_micros us)"
  by unfold_locales (simp add: record_channel_send_wait_def)

section \<open>The schedule\<close>

lemma scheduled_exists:
  assumes "unat n < 2 ^ 63" "0 < rate"
  shows "\<exists>due. scheduled_at started rate n = Some due \<and> started \<le> due"
proof -
  let ?e = "1 + 1 / 2 ^ 53 :: rat"
  have r: "1 - 1 / 2 ^ 53 \<le> f64_of_u64 rate" by (rule f64_of_u64_pos [OF assms(2)])
  have "f64_of_u64 n \<le> of_nat (unat n) * ?e" unfolding f64_of_u64_def by (rule f64_round_bounds) (rule of_nat_0_le_iff)
  also have "\<dots> \<le> 2 ^ 63 * ?e"
  proof -
    have "(of_nat (unat n) :: rat) \<le> of_nat (2 ^ 63)" using assms(1) by (simp only: of_nat_le_iff)
    then show ?thesis by (intro mult_right_mono) simp_all
  qed
  finally have n: "f64_of_u64 n \<le> 2 ^ 63 * ?e" .
  have n0: "0 \<le> f64_of_u64 n" by (simp add: f64_of_u64_def f64_round_nonneg)
  have "f64_of_u64 n / f64_of_u64 rate \<le> 2 ^ 63 * ?e / (1 - 1 / 2 ^ 53)"
    using n r by (intro frac_le) simp_all
  also have "\<dots> \<le> 2 ^ 63 + 2 ^ 12" by simp
  finally have "f64_of_u64 n / f64_of_u64 rate \<le> 2 ^ 63 + 2 ^ 12" .
  moreover have "0 \<le> f64_of_u64 n / f64_of_u64 rate" using n0 r by simp
  ultimately have q: "f64_div (f64_of_u64 n) (f64_of_u64 rate) \<le> (2 ^ 63 + 2 ^ 12) * ?e"
    unfolding f64_div_def by (intro order_trans [OF f64_round_bounds(1)] mult_right_mono) simp_all
  let ?x = "f64_div (f64_of_u64 n) (f64_of_u64 rate)"
  have x0: "0 \<le> ?x" by (simp add: f64_div_def f64_round_nonneg)
  have "?x * 1000000000 \<le> of_int (2 ^ 64 * 1000000000 - 1)" using q by simp
  then have "round_half_even (?x * 1000000000) \<le> 2 ^ 64 * 1000000000 - 1" by (rule round_half_even_le)
  then show ?thesis by (simp add: scheduled_at_def from_secs_f64_def Let_def)
qed

section \<open>What the forwarder sends\<close>

definition masked :: "u64 \<Rightarrow> nat \<Rightarrow> ('t, 'm) tx_update list \<Rightarrow> ('t, 'm) tx_update list" where
  "masked salt k us = map (\<lambda>(i, u). make_signature_unique salt (of_nat i) u) (enumerate k us)"

definition smooth :: "'u hop \<Rightarrow> bool" where
  "smooth h \<longleftrightarrow> \<not> is_cancelled h \<and> taken h"

text \<open>\<open>t\<close> is a time of sending update \<open>i\<close> that respects the schedule and the reported lag.\<close>

definition in_time :: "nat \<Rightarrow> u64 \<Rightarrow> bench_stats \<Rightarrow> nat \<Rightarrow> nat \<Rightarrow> bool" where
  "in_time started rate b i t \<longleftrightarrow> (\<exists>due. scheduled_at started rate (of_nat i) = Some due
     \<and> due \<le> t \<and> duration_us (t - due) \<le> max_schedule_lag_us b)"

lemma duration_us_mono: "d \<le> d' \<Longrightarrow> duration_us d \<le> duration_us d'"
proof -
  assume "d \<le> d'"
  then have le: "d div 1000 \<le> d' div 1000" by (rule div_le_mono)
  have un: "unat (of_nat k :: u64) = k" if "k < 2 ^ 64" for k using that by (rule unat_of_nat_u64)
  show ?thesis
  proof (cases "d' div 1000 < 2 ^ 64")
    case True
    with le have "d div 1000 < 2 ^ 64" by linarith
    with True le show ?thesis by (simp add: duration_us_def Let_def word_le_nat_alt un)
  qed (simp add: duration_us_def Let_def)
qed

lemma in_time_later: "in_time started rate b i t \<Longrightarrow> max_schedule_lag_us b \<le> max_schedule_lag_us b' \<Longrightarrow>
  in_time started rate b' i t"
  by (auto simp: in_time_def)

lemma forward_one_smooth:
  assumes "smooth h" "unat (fw_sent f) < 2 ^ 63" "0 < rate" "\<not> left_loop f"
  obtains t where
    "sent_out (forward_one rate salt started h f) =
       sent_out f @ [(t, make_signature_unique salt (fw_sent f) (update h))]"
    "fw_sent (forward_one rate salt started h f) = fw_sent f + 1"
    "\<not> left_loop (forward_one rate salt started h f)"
    "panicked (forward_one rate salt started h f) = panicked f"
    "max_schedule_lag_us (fw_stats f) \<le> max_schedule_lag_us (fw_stats (forward_one rate salt started h f))"
    "\<exists>due. scheduled_at started rate (fw_sent f) = Some due \<and> due \<le> t
       \<and> duration_us (t - due) \<le> max_schedule_lag_us (fw_stats (forward_one rate salt started h f))"
proof -
  obtain due where due: "scheduled_at started rate (fw_sent f) = Some due"
    using scheduled_exists [OF assms(2,3)] by blast
  let ?t = "max (now f + recv_delay h) due + oversleep h"
  let ?lag = "?t + send_delay h + log_delay h - due"
  have f': "forward_one rate salt started h f = f\<lparr>now := ?t + send_delay h + log_delay h,
      sent_out := sent_out f @ [(?t, make_signature_unique salt (fw_sent f) (update h))],
      fw_stats := record_schedule_lag ?lag
        (record_channel_send_wait (?t + send_delay h - ?t) (fw_stats f)),
      fw_sent := fw_sent f + 1\<rparr>"
    using assms due by (simp add: forward_one_def smooth_def Let_def)
  have st: "max_schedule_lag_us (fw_stats (forward_one rate salt started h f)) =
      max (max_schedule_lag_us (fw_stats f)) (duration_us ?lag)"
    by (simp add: f' record_schedule_lag_def record_channel_send_wait_def)
  have "duration_us (?t - due) \<le> duration_us ?lag" by (rule duration_us_mono) simp
  then have "\<exists>due. scheduled_at started rate (fw_sent f) = Some due \<and> due \<le> ?t
      \<and> duration_us (?t - due) \<le> max_schedule_lag_us (fw_stats (forward_one rate salt started h f))"
    unfolding st using due by (intro exI [of _ due]) (simp add: max.coboundedI2)
  then show thesis
    by (rule that [of ?t, rotated 5]) (simp_all add: f' assms(4) record_schedule_lag_def record_channel_send_wait_def)
qed

lemma forward_smooth:
  "\<forall>h \<in> set hs. smooth h \<Longrightarrow> fw_sent f = of_nat k \<Longrightarrow> k + length hs \<le> 2 ^ 63 \<Longrightarrow> 0 < rate \<Longrightarrow>
   \<not> left_loop f \<Longrightarrow>
   \<exists>ts. sent_out (forward rate salt started hs f) = sent_out f @ zip ts (masked salt k (map update hs))
     \<and> length ts = length hs \<and> fw_sent (forward rate salt started hs f) = of_nat (k + length hs)
     \<and> panicked (forward rate salt started hs f) = panicked f
     \<and> max_schedule_lag_us (fw_stats f) \<le> max_schedule_lag_us (fw_stats (forward rate salt started hs f))
     \<and> (\<forall>i < length hs. in_time started rate (fw_stats (forward rate salt started hs f)) (k + i) (ts ! i))"
proof (induction hs arbitrary: f k)
  case Nil
  then show ?case by (simp add: masked_def)
next
  case (Cons h hs)
  let ?f = "forward_one rate salt started h f"
  have k: "k < 2 ^ 63" using Cons.prems(3) by simp
  then have "unat (fw_sent f) < 2 ^ 63" using Cons.prems(2) by (simp add: unat_of_nat_u64)
  with Cons.prems obtain t where one:
    "sent_out ?f = sent_out f @ [(t, make_signature_unique salt (fw_sent f) (update h))]"
    "fw_sent ?f = fw_sent f + 1" "\<not> left_loop ?f" "panicked ?f = panicked f"
    "max_schedule_lag_us (fw_stats f) \<le> max_schedule_lag_us (fw_stats ?f)"
    "\<exists>due. scheduled_at started rate (fw_sent f) = Some due \<and> due \<le> t
       \<and> duration_us (t - due) \<le> max_schedule_lag_us (fw_stats ?f)"
    using forward_one_smooth [of h f rate salt started] by (metis list.set_intros(1))
  have go: "forward rate salt started (h # hs) f = forward rate salt started hs ?f"
    using one(3) by (simp add: Let_def)
  obtain ts where rest: "sent_out (forward rate salt started hs ?f) = sent_out ?f @ zip ts (masked salt (Suc k) (map update hs))"
    "length ts = length hs" "fw_sent (forward rate salt started hs ?f) = of_nat (Suc k + length hs)"
    "panicked (forward rate salt started hs ?f) = panicked ?f"
    "max_schedule_lag_us (fw_stats ?f) \<le> max_schedule_lag_us (fw_stats (forward rate salt started hs ?f))"
    "\<And>i. i < length hs \<Longrightarrow> in_time started rate (fw_stats (forward rate salt started hs ?f)) (Suc k + i) (ts ! i)"
    using Cons.IH [of ?f "Suc k"] Cons.prems one(2,3) by auto
  have first: "in_time started rate (fw_stats (forward rate salt started hs ?f)) k t"
    using one(6) rest(5) Cons.prems(2) by (auto simp: in_time_def)
  have "in_time started rate (fw_stats (forward rate salt started hs ?f)) (k + i) ((t # ts) ! i)"
    if "i < length (h # hs)" for i
    using that first rest(6) by (cases i) auto
  moreover have "sent_out (forward rate salt started hs ?f) =
      sent_out f @ zip (t # ts) (masked salt k (map update (h # hs)))"
    using rest(1) one(1) Cons.prems(2) by (simp add: masked_def)
  moreover have "max_schedule_lag_us (fw_stats f) \<le> max_schedule_lag_us (fw_stats (forward rate salt started hs ?f))"
    using one(5) rest(5) by (rule order_trans)
  ultimately show ?case
    unfolding go using rest(2,3,4) one(4) by (intro exI [of _ "t # ts"]) simp
qed

text \<open>
  Signatures of one file: two transactions never differ in their first eight bytes alone.
\<close>

definition tails_tell :: "('t, 'm) tx_update list \<Rightarrow> bool" where
  "tails_tell us \<longleftrightarrow> (\<forall>u \<in> set us. length (up_signature u) = 64)
     \<and> (\<forall>u \<in> set us. \<forall>v \<in> set us. drop 8 (up_signature u) = drop 8 (up_signature v) \<longrightarrow>
          up_signature u = up_signature v)"

lemma length_masked [simp]: "length (masked salt k us) = length us"
  by (simp add: masked_def)

lemma nth_masked:
  "i < length us \<Longrightarrow> masked salt k us ! i = make_signature_unique salt (of_nat (k + i)) (us ! i)"
  by (simp add: masked_def nth_enumerate_eq)

lemma distinct_masked:
  assumes "tails_tell us" "length us \<le> 2 ^ 63"
  shows "distinct (map up_signature (masked salt 0 us))"
proof (unfold distinct_conv_nth, intro allI impI)
  fix i j
  assume ij: "i < length (map up_signature (masked salt 0 us))" "j < length (map up_signature (masked salt 0 us))" "i \<noteq> j"
  then have us: "us ! i \<in> set us" "us ! j \<in> set us" by simp_all
  have sig: "map up_signature (masked salt 0 us) ! n = unique_signature salt (of_nat n) (up_signature (us ! n))"
    if "n < length us" for n using that by (simp add: nth_masked make_signature_unique_def)
  show "map up_signature (masked salt 0 us) ! i \<noteq> map up_signature (masked salt 0 us) ! j"
  proof
    assume eq: "map up_signature (masked salt 0 us) ! i = map up_signature (masked salt 0 us) ! j"
    have ne: "(of_nat i :: u64) \<noteq> of_nat j"
      using ij assms(2) unat_of_nat_u64 [of i] unat_of_nat_u64 [of j] by auto
    have "drop 8 (up_signature (us ! i)) = drop 8 (up_signature (us ! j))"
      using eq sig ij drop_unique_signature by (metis length_map length_masked)
    then have same: "up_signature (us ! i) = up_signature (us ! j)"
      using assms(1) us by (auto simp: tails_tell_def)
    then show False
      using eq sig ij ne unique_signature_differs [of "up_signature (us ! j)" salt "of_nat i" "of_nat j"]
        assms(1) us by (auto simp: tails_tell_def)
  qed
qed

section \<open>The verdict\<close>

lemma as_secs_lower:
  "of_nat (unat us) / 1000000 * ulp_low ^ 2 \<le> as_secs_f64 (from_micros us)"
proof -
  define d where "d = from_micros us"
  define s n where "s = d div 1000000000" and "n = d mod 1000000000"
  have us: "unat us < 2 ^ 64" using unsigned_less [of us, where ?'a = nat] by simp
  then have s64: "s < 2 ^ 64" by (simp add: s_def d_def from_micros_def)
  have n64: "n < 2 ^ 64" by (rule less_trans [of _ 1000000000]) (simp_all add: n_def)
  have low: "of_nat s * ulp_low \<le> f64_of_u64 (of_nat s)"
    using f64_of_u64_bounds(1) [of "of_nat s"] unfolding unat_of_nat_u64 [OF s64] .
  have "of_nat n * ulp_low \<le> f64_of_u64 (of_nat n)"
    using f64_of_u64_bounds(1) [of "of_nat n"] unfolding unat_of_nat_u64 [OF n64] .
  moreover have n53: "n < 2 ^ 53" by (rule less_trans [of _ 1000000000]) (simp_all add: n_def)
  have exact: "f64_of_u64 (of_nat n) = of_nat n"
    using f64_of_u64_exact [of "of_nat n"] n53 unfolding unat_of_nat_u64 [OF n64] by simp
  have frac: "of_nat n / 1000000000 * ulp_low \<le> f64_div (f64_of_u64 (of_nat n)) 1000000000"
    unfolding f64_div_def exact by (rule f64_round_bounds) simp
  have "d = s * 1000000000 + n" by (simp add: s_def n_def)
  then have "of_nat d = of_nat s * 1000000000 + (of_nat n :: rat)" by simp
  moreover have "(of_nat d :: rat) = of_nat (unat us) * 1000" by (simp only: d_def from_micros_def of_nat_mult of_nat_numeral)
  ultimately have sum: "of_nat (unat us) / 1000000 = of_nat s + (of_nat n / 1000000000 :: rat)" by simp
  have "of_nat (unat us) / 1000000 * ulp_low \<le> f64_of_u64 (of_nat s) + f64_div (f64_of_u64 (of_nat n)) 1000000000"
    unfolding sum distrib_right using low frac by (rule add_mono)
  then have "of_nat (unat us) / 1000000 * ulp_low * ulp_low
      \<le> (f64_of_u64 (of_nat s) + f64_div (f64_of_u64 (of_nat n)) 1000000000) * ulp_low"
    by (rule mult_right_mono) simp
  also have "\<dots> \<le> as_secs_f64 d"
    unfolding as_secs_f64_def f64_add_def s_def [symmetric] n_def [symmetric]
    by (rule f64_round_bounds) (simp add: f64_of_u64_def f64_div_def f64_round_nonneg)
  finally show ?thesis by (simp add: d_def power2_eq_square mult.assoc)
qed

lemma lag_verdict:
  assumes "\<not> 1000 < f64_mul (as_secs_f64 (from_micros us)) 1000"
  shows "unat us \<le> 1000000"
proof -
  have "of_nat (unat us) / 1000000 * ulp_low ^ 2 * 1000 * ulp_low \<le> as_secs_f64 (from_micros us) * 1000 * ulp_low"
    using as_secs_lower by (intro mult_right_mono) simp_all
  also have "\<dots> \<le> f64_mul (as_secs_f64 (from_micros us)) 1000"
    unfolding f64_mul_def
    by (rule f64_round_bounds) (simp add: as_secs_f64_def f64_add_def f64_round_nonneg)
  also have "\<dots> \<le> 1000" using assms by simp
  finally have "of_nat (unat us) * ulp_low ^ 3 \<le> 1000000" by (simp add: power_def)
  moreover have "(1000000 :: rat) < 1000001 * ulp_low ^ 3" by (simp add: power_def)
  ultimately have "of_nat (unat us) * ulp_low ^ 3 < 1000001 * ulp_low ^ 3" by (rule le_less_trans)
  then have "(of_nat (unat us) :: rat) < of_nat 1000001" by (simp add: mult_less_cancel_right)
  then show ?thesis by (simp only: of_nat_less_iff)
qed

lemma rate_verdict:
  assumes "\<not> per_second n (from_micros us) < f64_mul (f64_of_u64 rate) (f64_round (95 / 100))"
  shows "9499 * unat rate * unat us \<le> 10000000000 * unat n"
proof (cases "us = 0")
  case False
  let ?s = "as_secs_f64 (from_micros us)"
  have "Suc 0 \<le> unat us" using False by (simp add: unat_eq_0 [symmetric] Suc_le_eq)
  then have us: "(0 :: rat) < of_nat (unat us)" by (simp only: of_nat_0_less_iff)
  have low: "0 < of_nat (unat us) / 1000000 * ulp_low ^ 2" using us by simp
  then have s: "0 < ?s" using as_secs_lower [of us] by linarith
  have n0: "(0 :: rat) \<le> of_nat (unat n)" by (rule of_nat_0_le_iff)
  have ne: "from_micros us \<noteq> 0" using \<open>Suc 0 \<le> unat us\<close> by (simp add: from_micros_def)
  have "of_nat (unat rate) * ulp_low * (95 / 100 * ulp_low) * ulp_low \<le> f64_of_u64 rate * f64_round (95 / 100) * ulp_low"
    using f64_of_u64_bounds(1) f64_round_bounds(2) [of "95 / 100"]
    by (intro mult_right_mono mult_mono) (simp_all add: f64_of_u64_def f64_round_nonneg)
  also have "\<dots> \<le> f64_mul (f64_of_u64 rate) (f64_round (95 / 100))"
    unfolding f64_mul_def by (rule f64_round_bounds) (simp add: f64_of_u64_def f64_round_nonneg)
  also have "\<dots> \<le> f64_div (f64_of_u64 n) ?s" using assms ne by (simp add: per_second_def)
  also have "\<dots> \<le> f64_of_u64 n / ?s * ulp_high"
    unfolding f64_div_def using s by (intro f64_round_bounds) (simp add: f64_of_u64_def f64_round_nonneg)
  also have "\<dots> \<le> of_nat (unat n) * ulp_high / (of_nat (unat us) / 1000000 * ulp_low ^ 2) * ulp_high"
    using f64_of_u64_bounds(2) as_secs_lower low n0 by (intro mult_right_mono frac_le) simp_all
  finally have "of_nat (unat rate) * ulp_low * (95 / 100 * ulp_low) * ulp_low
      \<le> of_nat (unat n) * ulp_high / (of_nat (unat us) / 1000000 * ulp_low ^ 2) * ulp_high" .
  then have main: "of_nat (unat rate) * of_nat (unat us) * (95 / 100 * ulp_low ^ 5) \<le> of_nat (unat n) * (1000000 * ulp_high ^ 2)"
    using us by (simp add: field_simps power_def)
  have c: "(9499 :: rat) * ulp_high ^ 2 \<le> 10000 * (95 / 100 * ulp_low ^ 5)" by (simp add: power_def)
  have "of_nat (unat rate) * of_nat (unat us) * (9499 * ulp_high ^ 2)
      \<le> of_nat (unat rate) * of_nat (unat us) * (10000 * (95 / 100 * ulp_low ^ 5))"
    by (rule mult_left_mono [OF c]) (intro mult_nonneg_nonneg of_nat_0_le_iff)
  also have "\<dots> \<le> of_nat (unat n) * (10000 * (1000000 * ulp_high ^ 2))"
    using main by (simp only: mult.left_commute [of _ 10000])
  finally have "(of_nat (unat rate) * of_nat (unat us) * 9499) * ulp_high ^ 2 \<le> (of_nat (unat n) * 10000000000) * ulp_high ^ 2"
    by (simp only: mult.assoc)
  then have "of_nat (unat rate) * of_nat (unat us) * 9499 \<le> (of_nat (unat n) * 10000000000 :: rat)"
    by (rule mult_right_le_imp_le) simp
  then have "(of_nat (9499 * unat rate * unat us) :: rat) \<le> of_nat (10000000000 * unat n)"
    by (simp only: of_nat_mult of_nat_numeral ac_simps)
  then show ?thesis by (simp only: of_nat_le_iff)
qed simp

lemma paced_sends_all:
  assumes "0 < rate" "\<forall>h \<in> set hops. smooth h" "length hops \<le> 2 ^ 63"
  shows "case paced_consume rate salt started last_wait hops b of (out, b') \<Rightarrow>
    map snd out = masked salt 0 (map update hops)
    \<and> (\<forall>i < length hops. in_time started rate b' i (fst (out ! i)))
    \<and> bs_sent b' = of_nat (length hops)
    \<and> (tails_tell (map update hops) \<longrightarrow> distinct (map (up_signature \<circ> snd) out))"
proof -
  let ?f = "forward rate salt started hops (new_forwarder started b)"
  obtain ts where run: "sent_out ?f = zip ts (masked salt 0 (map update hops))" "length ts = length hops"
    "fw_sent ?f = of_nat (length hops)" "\<not> panicked ?f"
    "\<And>i. i < length hops \<Longrightarrow> in_time started rate (fw_stats ?f) i (ts ! i)"
    using forward_smooth [of hops "new_forwarder started b" 0 rate salt started] assms
    by (auto simp: new_forwarder_def)
  have snd: "map snd (sent_out ?f) = masked salt 0 (map update hops)"
    by (simp add: run(1,2))
  have fst: "fst (sent_out ?f ! i) = ts ! i" if "i < length hops" for i
    using that by (simp add: run(1,2))
  have "distinct (map (up_signature \<circ> snd) (sent_out ?f))" if "tails_tell (map update hops)"
  proof -
    have "map (up_signature \<circ> snd) (sent_out ?f) = map up_signature (masked salt 0 (map update hops))"
      by (simp only: map_map [symmetric] snd)
    then show ?thesis using distinct_masked [OF that] assms(3) by simp
  qed
  moreover have "in_time started rate (finish n e (fw_stats ?f)) i t \<longleftrightarrow> in_time started rate (fw_stats ?f) i t" for n e i t
    by (simp add: in_time_def finish_def)
  ultimately show ?thesis
    using snd fst run by (simp add: paced_consume_def Let_def) (simp add: finish_def)
qed

section \<open>Properties\<close>

text \<open>
  A signature mask undoes itself, leaves all but the first eight bytes alone, and masks of
  different updates never give one transaction the same signature.
\<close>

theorem signature_mask_is_reversible:
  assumes "length sig = 64"
  shows "unique_signature salt i (unique_signature salt i sig) = sig
    \<and> drop 8 (unique_signature salt i sig) = drop 8 sig
    \<and> (unique_signature salt i sig = unique_signature salt j sig \<longleftrightarrow> i = j)"
  using assms
  by (simp add: drop_unique_signature unique_signature_differs) (simp add: unique_signature_64)

theorem signature_mask_is_reversible_witness:
  "unique_signature 7 1 (unique_signature 7 1 (replicate 64 5)) = replicate 64 5"
  using signature_mask_is_reversible [of "replicate 64 5" 7 1 1] by simp

text \<open>
  Claim C33. The paced source sends everything, in order and on schedule: when nothing cancels it and the
  channel takes every update, the updates come out in order, each with its own mask; no update
  is sent before its place in the schedule, and the reported maximum lag bounds how late any of
  them was; the count is right; and no two signatures agree unless the file has two
  transactions that differ in their first eight bytes alone.
\<close>

theorem paced_source_sends_all:
  assumes "0 < rate" "\<forall>h \<in> set hops. smooth h" "length hops \<le> 2 ^ 63"
  shows "case paced_consume rate salt started last_wait hops b of (out, b') \<Rightarrow>
    map snd out = masked salt 0 (map update hops)
    \<and> (\<forall>i < length hops. in_time started rate b' i (fst (out ! i)))
    \<and> bs_sent b' = of_nat (length hops)
    \<and> (tails_tell (map update hops) \<longrightarrow> distinct (map (up_signature \<circ> snd) out))"
  using assms by (rule paced_sends_all)

definition sample_hop :: "(nat, nat) tx_update hop" where
  "sample_hop = \<lparr>update = \<lparr>up_signature = replicate 64 5, up_transaction = 1, up_meta = 2,
     up_is_vote = False, up_slot = 9, up_index = None, up_block_time = None\<rparr>,
     recv_delay = 3, is_cancelled = False, oversleep = 10, send_delay = 20, log_delay = 1, taken = True\<rparr>"

theorem paced_source_sends_all_witness:
  "distinct (map (up_signature \<circ> snd)
     (fst (paced_consume 100 7 0 0 [sample_hop, sample_hop, sample_hop] new_stats)))"
  using paced_source_sends_all [of 100 "[sample_hop, sample_hop, sample_hop]" 7 0 0 new_stats]
  by (simp add: smooth_def tails_tell_def sample_hop_def case_prod_unfold)

text \<open>
  Claim C34. A benchmark that does not report falling behind kept up: it decoded exactly the expected
  number of events, which did not overflow, at least as many rows were committed, nothing was
  skipped, missed, looked up, refused or parked, no update was more than a second late, and the
  source achieved at least 94.99 per cent of the requested rate, all in exact arithmetic
  although the verdict is computed in floating point.
\<close>

theorem bench_verdict_is_sound:
  assumes "run_benchmark connect run path rate repeat per_pass env = Inr r"
    and "\<not> falling_behind r"
  shows "\<exists>s elapsed b m. signature_salt (env_nanos env) (env_pid env) = Some s \<and> run rate repeat s = Some (elapsed, b, m)
    \<and> unat (get EVENTS_DECODED m) = unat per_pass * unat repeat
    \<and> get EVENTS_DECODED m \<le> count (summary (receive_to_committed m))
    \<and> (\<forall>c \<in> {REPLAY_SKIPPED, POOL_CACHE_MISSES, POOL_LOOKUPS, POOL_LOOKUP_ERRORS, LOOKUPS_DROPPED,
          DB_WRITE_ERRORS, DEAD_LETTERS}. get c m = 0)
    \<and> unat (max_schedule_lag_us b) \<le> 1000000
    \<and> 9499 * unat rate * unat (elapsed_us b) \<le> 10000000000 * unat (bs_sent b)"
proof -
  obtain expected s elapsed b m where run:
    "checked_mul per_pass (ucast repeat) = Some expected" "signature_salt (env_nanos env) (env_pid env) = Some s" "run rate repeat s = Some (elapsed, b, m)"
    "r = result_of (env_utc env) path rate repeat expected elapsed b m"
    using assms(1) by (auto simp: run_benchmark_def split: if_splits option.splits)
  have "unat repeat < 2 ^ 64" using unsigned_less [of repeat, where ?'a = nat] by simp
  then have "unat (ucast repeat :: u64) = unat repeat" by (simp add: unsigned_ucast_eq take_bit_nat_eq_self)
  then have expected: "unat expected = unat per_pass * unat repeat"
    using checked_mul_Some [OF run(1)] by simp
  have verdict: "\<not> per_second (bs_sent b) (from_micros (elapsed_us b)) < f64_mul (f64_of_u64 rate) (f64_round (95 / 100))"
    "\<not> 1000 < f64_mul (as_secs_f64 (from_micros (max_schedule_lag_us b))) 1000"
    "saturating_sub expected (get EVENTS_DECODED m) = 0" "saturating_sub (get EVENTS_DECODED m) expected = 0"
    "saturating_sub (get EVENTS_DECODED m) (count (summary (receive_to_committed m))) = 0"
    "\<forall>c \<in> {REPLAY_SKIPPED, POOL_CACHE_MISSES, POOL_LOOKUPS, POOL_LOOKUP_ERRORS, LOOKUPS_DROPPED,
          DB_WRITE_ERRORS, DEAD_LETTERS}. get c m = 0"
    using assms(2)
    by (simp_all add: run(4) result_of_def Let_def word_gt_0 stats_elapsed_def max_schedule_lag_def)
  have le: "saturating_sub v w = 0 \<longleftrightarrow> v \<le> w" for v w
    using unat_saturating_sub [of v w] by (simp add: unat_eq_0 [symmetric] word_le_nat_alt)
  have "get EVENTS_DECODED m = expected" using verdict(3,4) by (simp add: le)
  then show ?thesis
    using run(2,3) expected verdict(5,6) lag_verdict [OF verdict(2)] rate_verdict [OF verdict(1)]
    unfolding le by blast
qed

text \<open>A hundred transactions in one second, with two events, both committed.\<close>

definition sample_stats :: bench_stats where
  "sample_stats = \<lparr>bs_sent = 100, elapsed_us = 1000000, max_schedule_lag_us = 0, max_channel_send_wait_us = 0\<rparr>"

definition sample_metrics :: metrics where
  "sample_metrics = (inc EVENTS_DECODED (inc EVENTS_DECODED new_metrics))
     \<lparr>receive_to_committed := observe_all [5, 5] new_histogram\<rparr>"

definition sample_env :: bench_env where
  "sample_env = \<lparr>env_database_url = Some ''url'', env_rpc_url = Some ''rpc'', env_nanos = Some 7,
     env_pid = 4321, env_utc = ''2026''\<rparr>"

definition sample_bench :: "bench_error + benchmark_result" where
  "sample_bench = run_benchmark (\<lambda>_. None) (\<lambda>_ _ _. Some (2000000000, sample_stats, sample_metrics))
     ''fixture'' 100 1 2 sample_env"

lemma as_secs_small [simp]: "as_secs_f64 1000000000 = 1" "as_secs_f64 0 = 0"
  using f64_round_int [of 1] f64_round_int [of 0]
  by (simp_all add: as_secs_f64_def f64_add_def f64_div_def f64_of_u64_def)

lemma sample_keeps_up: "\<exists>r. sample_bench = Inr r \<and> \<not> falling_behind r"
proof -
  have round100: "f64_round 100 = 100" using f64_round_int [of 100] by simp
  have "f64_round (95 / 100) \<le> 1" using f64_round_le_int [of "95 / 100" 1] by simp
  then have "f64_round (100 * f64_round (95 / 100)) \<le> 100"
    using f64_round_le_int [of "100 * f64_round (95 / 100)" 100] by simp
  then have rate: "\<not> per_second (bs_sent sample_stats) (stats_elapsed sample_stats) < f64_mul (f64_of_u64 100) (f64_round (95 / 100))"
    by (simp add: per_second_def stats_elapsed_def from_micros_def sample_stats_def f64_div_def f64_mul_def
        f64_of_u64_def round100)
  have lag: "\<not> 1000 < f64_mul (as_secs_f64 (max_schedule_lag sample_stats)) 1000"
    by (simp add: max_schedule_lag_def from_micros_def sample_stats_def f64_mul_def f64_round_def)
  have get: "get c sample_metrics = (if c = EVENTS_DECODED then 2 else 0)" for c
    by (simp add: sample_metrics_def get_def inc_def new_metrics_def)
  have count: "count (summary (receive_to_committed sample_metrics)) = 2"
    using total_observe_all [of "[5, 5]"] by (simp add: sample_metrics_def summary_def Let_def)
  have "sample_bench = Inr (result_of ''2026'' ''fixture'' 100 1 2 2000000000 sample_stats sample_metrics)"
    by (simp add: sample_bench_def run_benchmark_def checked_mul_def signature_salt_def sample_env_def)
  moreover have "\<not> falling_behind (result_of ''2026'' ''fixture'' 100 1 2 2000000000 sample_stats sample_metrics)"
    using rate lag by (simp add: result_of_def Let_def get count saturating_sub_def)
  ultimately show ?thesis by blast
qed

theorem bench_verdict_is_sound_witness:
  "unat (get EVENTS_DECODED sample_metrics) = 2 \<and> unat (max_schedule_lag_us sample_stats) \<le> 1000000"
proof -
  obtain r where "sample_bench = Inr r" "\<not> falling_behind r" using sample_keeps_up by blast
  from bench_verdict_is_sound [OF this(1) [unfolded sample_bench_def] this(2)] show ?thesis by auto
qed

end
