(* ===== verification/Api.thy ===== *)
theory Api
  imports Db Render
begin

text \<open>
  \<^verbatim>\<open>src/api.rs\<close>: the queries served over HTTP. Each handler is one statement that reads the tables
  and the shaping of its answer; \<open>serve\<close> is the table of routes. The HTTP server and the
  extraction of parameters are the framework's.

  Rows of one slot come in the order of the executor's \<open>scan\<close>; \<open>best\<close> is the specification of
  an answer to \<^verbatim>\<open>ORDER BY slot DESC LIMIT n\<close>.
\<close>

section \<open>Requests and responses\<close>

text \<open>
  \<open>show_dec\<close> is the text of a \<^verbatim>\<open>Decimal\<close> (and of a \<^verbatim>\<open>NUMERIC\<close> cast to text). A response is
  the JSON body, the status of a failed query, or none while the database does not answer.
\<close>

record api_trade =
  at_signature :: string
  at_slot :: i64
  at_program :: string
  at_token_mint :: string
  at_side :: string
  at_sol_amount :: string
  at_token_amount :: string
  at_trader :: string

record health_report =
  last_completed_slot :: "i64 option"
  h_events :: i64
  h_trades :: i64
  unresolved_gaps :: i64

record volume_report =
  v_token_mint :: string
  v_trades :: i64
  v_sol_volume :: string

datatype 'a response = Json 'a | Status nat | Pending

definition rows :: "i64 option \<Rightarrow> i64" where
  "rows limit = (let n = (case limit of None \<Rightarrow> 50 | Some l \<Rightarrow> l) in
     if n < 1 then 1 else if 500 < n then 500 else n)"

definition failed :: "db_error \<Rightarrow> nat" where
  "failed err = 500"

definition respond :: "('a \<Rightarrow> 'b) \<Rightarrow> 'a outcome \<times> db \<Rightarrow> 'b response \<times> db" where
  "respond f x = (case x of
      (Answer a, d) \<Rightarrow> (Json (f a), d)
    | (Failure e, d) \<Rightarrow> (Status (failed e), d)
    | (No_answer, d) \<Rightarrow> (Pending, d))"

section \<open>Handlers\<close>

definition health :: "db \<Rightarrow> health_report response \<times> db" where
  "health d = respond id (execute (\<lambda>t. Inr
     (\<lparr>last_completed_slot = map_option fst (checkpoint t), h_events = int (length (events t)),
       h_trades = int (length (trades t)),
       unresolved_gaps = int (length (filter (\<lambda>g. g_status g \<noteq> ''closed'') (stream_gaps t)))\<rparr>, t)) d)"

definition trade_from :: "(int \<Rightarrow> string) \<Rightarrow> repaired_trade \<Rightarrow> api_trade" where
  "trade_from show_dec r =
     \<lparr>at_signature = r_signature r, at_slot = r_slot r, at_program = r_program r,
      at_token_mint = t_token_mint (r_trade r), at_side = t_side (r_trade r),
      at_sol_amount = show_dec (t_sol_amount (r_trade r)),
      at_token_amount = show_dec (t_token_amount (r_trade r)), at_trader = t_trader (r_trade r)\<rparr>"

text \<open>\<^verbatim>\<open>ORDER BY slot DESC LIMIT\<close>: a stable sort of the rows as they are scanned.\<close>

definition newest ::
  "(repaired_trade list \<Rightarrow> repaired_trade list) \<Rightarrow> (repaired_trade \<Rightarrow> bool) \<Rightarrow> i64 \<Rightarrow> tables \<Rightarrow>
     db_error + repaired_trade list \<times> tables" where
  "newest scan p limit t =
     (if limit < 0 then Inl Invalid_limit
      else Inr (take (nat limit) (sort_key (\<lambda>r. - r_slot r) (filter p (scan (trades t)))), t))"

definition recent ::
  "(int \<Rightarrow> string) \<Rightarrow> (repaired_trade list \<Rightarrow> repaired_trade list) \<Rightarrow> i64 option \<Rightarrow> db \<Rightarrow>
     api_trade list response \<times> db" where
  "recent show_dec scan limit d =
     respond (map (trade_from show_dec)) (execute (newest scan (\<lambda>_. True) (rows limit)) d)"

definition by_token ::
  "(int \<Rightarrow> string) \<Rightarrow> (repaired_trade list \<Rightarrow> repaired_trade list) \<Rightarrow> string \<Rightarrow> i64 option \<Rightarrow> db \<Rightarrow>
     api_trade list response \<times> db" where
  "by_token show_dec scan mint limit d =
     respond (map (trade_from show_dec))
       (execute (newest scan (\<lambda>r. t_token_mint (r_trade r) = mint) (rows limit)) d)"

definition volume :: "(int \<Rightarrow> string) \<Rightarrow> string \<Rightarrow> db \<Rightarrow> volume_report response \<times> db" where
  "volume show_dec mint d =
     respond (\<lambda>(n, s). \<lparr>v_token_mint = mint, v_trades = n, v_sol_volume = s\<rparr>)
       (execute (\<lambda>t. let ts = filter (\<lambda>r. t_token_mint (r_trade r) = mint) (trades t) in
          Inr ((int (length ts), show_dec (\<Sum>r\<leftarrow>ts. t_sol_amount (r_trade r))), t)) d)"

text \<open>The routes of \<^verbatim>\<open>run_api\<close>, with the parameters the framework extracts.\<close>

datatype request =
    Get_health
  | Get_recent "i64 option"
  | Get_by_token string "i64 option"
  | Get_volume string

datatype body = Health_body health_report | Trades_body "api_trade list" | Volume_body volume_report

definition serve ::
  "(int \<Rightarrow> string) \<Rightarrow> (repaired_trade list \<Rightarrow> repaired_trade list) \<Rightarrow> request \<Rightarrow> db \<Rightarrow>
     body response \<times> db" where
  "serve show_dec scan q d =
     (case q of
        Get_health \<Rightarrow> apfst (map_response Health_body) (health d)
      | Get_recent limit \<Rightarrow> apfst (map_response Trades_body) (recent show_dec scan limit d)
      | Get_by_token mint limit \<Rightarrow>
          apfst (map_response Trades_body) (by_token show_dec scan mint limit d)
      | Get_volume mint \<Rightarrow> apfst (map_response Volume_body) (volume show_dec mint d))"

section \<open>What the queries answer\<close>

lemma rows_bounds: "1 \<le> rows limit \<and> rows limit \<le> 500"
  by (simp add: rows_def Let_def)

lemma rows_nonneg [simp]: "\<not> rows limit < 0"
  using rows_bounds [of limit] by simp

lemma respond_Json:
  "respond f x = (Json b, d) \<Longrightarrow> \<exists>a. x = (Answer a, d) \<and> b = f a"
  by (auto simp: respond_def split: prod.splits outcome.splits)

lemma respond_store: "snd (respond f x) = snd x"
  by (simp add: respond_def split: prod.splits outcome.splits)

definition read_only :: "(tables \<Rightarrow> db_error + 'a \<times> tables) \<Rightarrow> bool" where
  "read_only stmt \<longleftrightarrow> (\<forall>t x t'. stmt t = Inr (x, t') \<longrightarrow> t' = t)"

lemma execute_read_only:
  "read_only stmt \<Longrightarrow> store (snd (execute stmt d)) = store d"
  using store_execute [of stmt d "fst (execute stmt d)" "snd (execute stmt d)"] by (auto simp: read_only_def)

lemma newest_read_only: "read_only (newest scan p n)"
  by (auto simp: read_only_def newest_def)

text \<open>\<open>best p n ts out\<close>: \<open>out\<close> is a correct answer to a question for the newest \<open>n\<close> rows with \<open>p\<close>.\<close>

definition best :: "(repaired_trade \<Rightarrow> bool) \<Rightarrow> nat \<Rightarrow> repaired_trade list \<Rightarrow> repaired_trade list \<Rightarrow> bool" where
  "best p n ts out \<longleftrightarrow> mset out \<subseteq># mset (filter p ts) \<and> length out = min n (length (filter p ts))
     \<and> sorted_wrt (\<lambda>a b. r_slot b \<le> r_slot a) out
     \<and> (\<forall>x \<in># mset (filter p ts) - mset out. \<forall>y \<in> set out. r_slot x \<le> r_slot y)"

lemma newest_best:
  assumes "scan_ok scan" "newest scan p n t = Inr (out, t')"
  shows "best p (nat n) (trades t) out"
proof -
  let ?all = "sort_key (\<lambda>r. - r_slot r) (filter p (scan (trades t)))"
  have out: "out = take (nat n) ?all" using assms(2) by (auto simp: newest_def split: if_splits)
  have "mset (scan (trades t)) = mset (trades t)" using assms(1) by (simp add: scan_ok_def)
  then have ms: "mset ?all = mset (filter p (trades t))" by simp
  then have len: "length ?all = length (filter p (trades t))" by (rule mset_eq_length)
  have split: "mset ?all = mset out + mset (drop (nat n) ?all)"
    unfolding out by (metis append_take_drop_id mset_append)
  have sorted: "sorted_wrt (\<lambda>a b. r_slot b \<le> r_slot a) ?all"
    using sorted_sort_key [of "\<lambda>r. - r_slot r" "filter p (scan (trades t))"] by (simp add: sorted_map)
  then have both: "sorted_wrt (\<lambda>a b. r_slot b \<le> r_slot a) (out @ drop (nat n) ?all)" unfolding out by simp
  then have order: "sorted_wrt (\<lambda>a b. r_slot b \<le> r_slot a) out"
      "\<forall>y \<in> set out. \<forall>x \<in> set (drop (nat n) ?all). r_slot x \<le> r_slot y"
    unfolding sorted_wrt_append by blast+
  have rest: "mset (filter p (trades t)) - mset out = mset (drop (nat n) ?all)"
    unfolding ms [symmetric] split by simp
  have "mset out \<subseteq># mset (filter p (trades t))" unfolding ms [symmetric] split by simp
  moreover have "length out = min (nat n) (length (filter p (trades t)))"
    unfolding len [symmetric] out by (simp add: min.commute)
  ultimately show ?thesis using order unfolding best_def rest set_mset_mset by blast
qed
lemma recent_Json:
  assumes "scan_ok scan" "recent show_dec scan limit d = (Json ts, d')"
  shows "\<exists>out. ts = map (trade_from show_dec) out \<and> best (\<lambda>_. True) (nat (rows limit)) (trades (store d)) out"
  using assms(2) newest_best [OF assms(1)]
  by (auto simp: recent_def dest!: respond_Json execute_Answer)

lemma by_token_Json:
  assumes "scan_ok scan" "by_token show_dec scan mint limit d = (Json ts, d')"
  shows "\<exists>out. ts = map (trade_from show_dec) out
    \<and> best (\<lambda>r. t_token_mint (r_trade r) = mint) (nat (rows limit)) (trades (store d)) out"
  using assms(2) newest_best [OF assms(1)]
  by (auto simp: by_token_def dest!: respond_Json execute_Answer)

lemma best_length: "best p n ts out \<Longrightarrow> length out \<le> n"
  by (simp add: best_def)

text \<open>An answer shorter than its limit is complete.\<close>

lemma best_complete: "best p n ts out \<Longrightarrow> length out < n \<Longrightarrow> mset out = mset (filter p ts)"
  unfolding best_def by (metis min_less_iff_conj min_def nat_neq_iff size_mset mset_subset_size subset_mset.le_imp_less_or_eq)

lemma trades_within_events:
  assumes "tables_ok t"
  shows "length (trades t) \<le> length (events t)"
    and "length (trades t) = length (events t) \<longleftrightarrow> event_key ` set (events t) \<subseteq> trade_key ` set (trades t)"
proof -
  let ?T = "trade_key ` set (trades t)" and ?E = "event_key ` set (events t)"
  have sub: "?T \<subseteq> ?E" and d: "distinct (map trade_key (trades t))" "distinct (map event_key (events t))"
    using assms by (simp_all add: tables_ok_def trades_ok_def)
  have T: "card ?T = length (trades t)" and E: "card ?E = length (events t)"
    using distinct_card [OF d(1)] distinct_card [OF d(2)] by simp_all
  show "length (trades t) \<le> length (events t)" using card_mono [OF _ sub] T E by simp
  show "length (trades t) = length (events t) \<longleftrightarrow> ?E \<subseteq> ?T"
    using card_subset_eq [OF _ sub] sub T E by (metis finite_imageI finite_set subset_antisym order_refl)
qed

section \<open>Properties\<close>

text \<open>
  Claim C36. The trade lists are the newest trades: an answer of \<^verbatim>\<open>recent\<close> or \<^verbatim>\<open>by_token\<close> consists of as
  many stored trades (of the token) as there are, up to the limit and never more than 500; it
  is ordered by slot, newest first; and no trade left out is newer than one that is in it.
\<close>

theorem api_lists_newest_trades:
  assumes "scan_ok scan"
  shows "(\<forall>ts d'. recent show_dec scan limit d = (Json ts, d') \<longrightarrow>
      (\<exists>out. ts = map (trade_from show_dec) out \<and> length ts \<le> 500
        \<and> best (\<lambda>_. True) (nat (rows limit)) (trades (store d)) out))
    \<and> (\<forall>ts d'. by_token show_dec scan mint limit d = (Json ts, d') \<longrightarrow>
      (\<exists>out. ts = map (trade_from show_dec) out \<and> length ts \<le> 500
        \<and> best (\<lambda>r. t_token_mint (r_trade r) = mint) (nat (rows limit)) (trades (store d)) out))"
proof -
  have short: "length ts \<le> 500" if "best p (nat (rows limit)) all out" "ts = map (trade_from show_dec) out" for p all out ts
    using best_length [OF that(1)] rows_bounds [of limit] that(2) by (cases "rows limit" rule: int_cases) auto
  have "\<exists>out. ts = map (trade_from show_dec) out \<and> length ts \<le> 500
      \<and> best (\<lambda>_. True) (nat (rows limit)) (trades (store d)) out"
    if "recent show_dec scan limit d = (Json ts, d')" for ts d'
    using recent_Json [OF assms that] short by blast
  moreover have "\<exists>out. ts = map (trade_from show_dec) out \<and> length ts \<le> 500
      \<and> best (\<lambda>r. t_token_mint (r_trade r) = mint) (nat (rows limit)) (trades (store d)) out"
    if "by_token show_dec scan mint limit d = (Json ts, d')" for ts d'
    using by_token_Json [OF assms that] short by blast
  ultimately show ?thesis by blast
qed

text \<open>
  The interface only reads: no request changes the database, whatever the database answers;
  and when the database executes its statements every request is answered, whatever limit it
  names.
\<close>

theorem api_reads_only:
  shows "store (snd (serve show_dec scan q d)) = store d
    \<and> (healthy d \<longrightarrow> (\<exists>b. fst (serve show_dec scan q d) = Json b))"
proof -
  have ro: "read_only (\<lambda>t. Inr (f t, t))" for f :: "tables \<Rightarrow> 'b" by (simp add: read_only_def)
  have answered: "\<exists>b. map_response g (fst (respond f (execute stmt d))) = Json b"
    if "healthy d" "stmt (store d) = Inr (x, t)" for f :: "'b \<Rightarrow> 'c" and g :: "'c \<Rightarrow> body" and stmt x t
    using execute_healthy [where stmt = stmt, OF that] by (auto simp: respond_def)
  have store: "store (snd (serve show_dec scan q d)) = store d"
    by (cases q) (simp_all add: serve_def health_def recent_def by_token_def volume_def respond_store Let_def
      execute_read_only ro newest_read_only)
  moreover have "\<exists>b. fst (serve show_dec scan q d) = Json b" if "healthy d"
    by (cases q) (auto simp: serve_def health_def recent_def by_token_def volume_def newest_def Let_def
      intro!: answered [OF that])
  ultimately show ?thesis by blast
qed

text \<open>
  The volume of a token agrees with its trades: when the list of a token's trades is shorter
  than its limit, the volume reported for the same tables counts exactly the trades listed and
  is the sum of their amounts.
\<close>

theorem volume_agrees_with_trades:
  assumes "scan_ok scan"
    and "by_token show_dec scan mint limit d = (Json ts, d')" "int (length ts) < rows limit"
    and "volume show_dec mint dv = (Json v, dv')" "store dv = store d"
  shows "\<exists>out. ts = map (trade_from show_dec) out \<and> v_trades v = int (length ts)
    \<and> v_sol_volume v = show_dec (\<Sum>r\<leftarrow>out. t_sol_amount (r_trade r))"
proof -
  let ?p = "\<lambda>r. t_token_mint (r_trade r) = mint"
  obtain out where out: "ts = map (trade_from show_dec) out"
      "best ?p (nat (rows limit)) (trades (store d)) out"
    using by_token_Json [OF assms(1,2)] by blast
  have ms: "mset out = mset (filter ?p (trades (store d)))"
    using best_complete [OF out(2)] assms(3) out(1) by simp
  have "v_trades v = int (length (filter ?p (trades (store d))))"
      "v_sol_volume v = show_dec (\<Sum>r\<leftarrow>filter ?p (trades (store d)). t_sol_amount (r_trade r))"
    using assms(4,5) by (auto simp: volume_def Let_def dest!: respond_Json execute_Answer)
  moreover have "length (filter ?p (trades (store d))) = length ts"
    using mset_eq_length [OF ms] out(1) by simp
  moreover have "(\<Sum>r\<leftarrow>filter ?p (trades (store d)). t_sol_amount (r_trade r)) = (\<Sum>r\<leftarrow>out. t_sol_amount (r_trade r))"
  proof -
    have "mset (map (\<lambda>r. t_sol_amount (r_trade r)) (filter ?p (trades (store d)))) =
        mset (map (\<lambda>r. t_sol_amount (r_trade r)) out)" unfolding mset_map ms ..
    then show ?thesis using sum_mset_sum_list by metis
  qed
  ultimately show ?thesis using out(1) by auto
qed

text \<open>
  Claim C37. The health report shows what is left to repair: there are never more trades than events, the
  two numbers are equal exactly when no event is without its trade, so that a repair run would
  load nothing, and there are no unresolved gaps exactly when every recorded gap is closed.
\<close>

theorem health_shows_backlog:
  assumes "health d = (Json h, d')" "tables_ok (store d)" "scan_ok scan"
  shows "h_trades h \<le> h_events h
    \<and> (h_trades h = h_events h \<longleftrightarrow> missing_trades scan (store d) = [])
    \<and> (unresolved_gaps h = 0 \<longleftrightarrow> (\<forall>g \<in> set (stream_gaps (store d)). g_status g = ''closed''))"
proof -
  let ?t = "store d"
  have h: "h_events h = int (length (events ?t))" "h_trades h = int (length (trades ?t))"
    "unresolved_gaps h = int (length (filter (\<lambda>g. g_status g \<noteq> ''closed'') (stream_gaps ?t)))"
    using assms(1) by (auto simp: health_def dest!: respond_Json execute_Answer)
  have "missing_trades scan ?t = [] \<longleftrightarrow> filter (\<lambda>e. event_key e \<notin> trade_key ` set (trades ?t)) (scan (events ?t)) = []"
    unfolding missing_trades_def by (cases "filter (\<lambda>e. event_key e \<notin> trade_key ` set (trades ?t)) (scan (events ?t))") simp_all
  also have "\<dots> \<longleftrightarrow> event_key ` set (events ?t) \<subseteq> trade_key ` set (trades ?t)"
    using scan_ok_set [OF assms(3)] by (auto simp: filter_empty_conv)
  finally show ?thesis
    using trades_within_events [OF assms(2)] h by (auto simp: filter_empty_conv)
qed
section \<open>A small database\<close>

definition api_event :: "string \<Rightarrow> i64 \<Rightarrow> event_row" where
  "api_event sig slot = \<lparr>e_signature = sig, e_path = [0], e_ordinal = 0, e_slot = slot, e_block_time = None,
     e_program = ''pumpfun'', e_type = ''TradeEvent'', e_payload = JNull\<rparr>"

definition api_row :: "string \<Rightarrow> i64 \<Rightarrow> int \<Rightarrow> repaired_trade" where
  "api_row sig slot amount = \<lparr>r_signature = sig, r_path = [0], r_ordinal = 0, r_slot = slot, r_block_time = None,
     r_program = ''pumpfun'', r_trade = \<lparr>t_pool = None, t_token_mint = ''mint'', t_side = ''buy'',
       t_sol_amount = amount, t_token_amount = 1, t_trader = ''user'', t_fee = None\<rparr>\<rparr>"

definition api_db :: db where
  "api_db = \<lparr>store = empty_tables\<lparr>events := [api_event ''a'' 5, api_event ''b'' 9, api_event ''c'' 7],
     trades := [api_row ''a'' 5 100, api_row ''b'' 9 20]\<rparr>, script = []\<rparr>"

definition plain_dec :: "int \<Rightarrow> string" where
  "plain_dec n = show_nat (nat n)"

lemma api_db_ok: "tables_ok (store api_db)" "healthy api_db" "scan_ok (\<lambda>ts. ts)"
  by (simp_all add: api_db_def tables_ok_def trades_ok_def gaps_ok_def empty_tables_def api_event_def api_row_def
      event_key_def trade_key_def trade_error_def numeric_20_0_def healthy_def scan_ok_def)

lemma api_recent: "recent plain_dec (\<lambda>ts. ts) (Some 1) api_db = (Json [trade_from plain_dec (api_row ''b'' 9 20)], api_db)"
  by (simp add: recent_def respond_def newest_def rows_def execute_def next_reply_def api_db_def api_row_def)

theorem api_lists_newest_trades_witness:
  "\<exists>ts d' out. recent plain_dec (\<lambda>ts. ts) (Some 1) api_db = (Json ts, d') \<and> ts = map (trade_from plain_dec) out
    \<and> best (\<lambda>_. True) 1 (trades (store api_db)) out"
  using api_lists_newest_trades [OF api_db_ok(3), of plain_dec "Some 1" api_db] api_recent
  by (fastforce simp: rows_def)

theorem api_reads_only_witness:
  "\<exists>b. fst (serve plain_dec (\<lambda>ts. ts) (Get_recent (Some (- 3))) api_db) = Json b"
  using api_reads_only [of plain_dec "\<lambda>ts. ts" "Get_recent (Some (- 3))" api_db] api_db_ok(2) by blast

lemma api_by_token:
  "by_token plain_dec (\<lambda>ts. ts) ''mint'' None api_db =
     (Json [trade_from plain_dec (api_row ''b'' 9 20), trade_from plain_dec (api_row ''a'' 5 100)], api_db)"
  by (simp add: by_token_def respond_def newest_def rows_def execute_def next_reply_def api_db_def api_row_def)

lemma api_volume:
  "volume plain_dec ''mint'' api_db =
     (Json \<lparr>v_token_mint = ''mint'', v_trades = 2, v_sol_volume = plain_dec 120\<rparr>, api_db)"
  by (simp add: volume_def respond_def execute_def next_reply_def api_db_def api_row_def Let_def)

theorem volume_agrees_with_trades_witness:
  "\<exists>out. map (trade_from plain_dec) [api_row ''b'' 9 20, api_row ''a'' 5 100] = map (trade_from plain_dec) out
    \<and> plain_dec 120 = plain_dec (\<Sum>r\<leftarrow>out. t_sol_amount (r_trade r))"
  using volume_agrees_with_trades [OF api_db_ok(3) api_by_token _ api_volume refl] by (auto simp: rows_def)

theorem health_shows_backlog_witness:
  "missing_trades (\<lambda>es. es) (store api_db) \<noteq> []"
proof -
  have "health api_db = (Json \<lparr>last_completed_slot = None, h_events = 3, h_trades = 2, unresolved_gaps = 0\<rparr>, api_db)"
    by (simp add: health_def respond_def execute_def next_reply_def api_db_def empty_tables_def)
  from health_shows_backlog [OF this api_db_ok(1), of "\<lambda>es. es"] show ?thesis by (simp add: scan_ok_def)
qed

end
