(* ===== verification/Capture.thy ===== *)
theory Capture
  imports Datasources Render
begin

text \<open>
  \<^verbatim>\<open>src/capture.rs\<close>: recording the transaction stream into a file of JSON lines, and what a
  replay of that file (\<^verbatim>\<open>Datasources\<close>) sends.

  The subscription is a list of clock readings and polls, as the loop sees them. base58, base64,
  protobuf and JSON are library code, the components of \<open>capture_lib\<close>. The file is its text:
  an error while it is open still leaves what was written.
\<close>

section \<open>The stream\<close>

text \<open>
  What the subscription delivers within five seconds: nothing, its end, an error, or an update.
  The text functions of the libraries are one record.
\<close>

datatype ('r, 'q) stream_update =
    Tx_update u64 "('r, 'q) tx_info option"
  | Ping_update
  | Other_update

datatype ('r, 'q) poll =
    Timed_out
  | Stream_ended
  | Stream_failed
  | Message "('r, 'q) stream_update"

record ('r, 'q) capture_lib =
  bs58 :: "u8 list \<Rightarrow> string"
  encode_info :: "('r, 'q) tx_info \<Rightarrow> u8 list"
  encode_base64 :: "u8 list \<Rightarrow> string"
  show_json :: "json \<Rightarrow> string"

record capture_state =
  out_text :: string
  written_txs :: u64
  pings :: nat

datatype capture_end = Captured | Setup_error | Stream_error | Write_error | Ping_error

definition capture_json :: "('r, 'q) capture_lib \<Rightarrow> u64 \<Rightarrow> ('r, 'q) tx_info \<Rightarrow> json" where
  "capture_json lib slot info = JObject
     [(''slot'', json_u64 slot),
      (''signature'', JString (bs58 lib (info_signature info))),
      (''data'', JString (encode_base64 lib (encode_info lib info)))]"

definition capture_line :: "('r, 'q) capture_lib \<Rightarrow> u64 \<Rightarrow> ('r, 'q) tx_info \<Rightarrow> string" where
  "capture_line lib slot info = show_json lib (capture_json lib slot info)"

definition capture_deadline :: "nat \<Rightarrow> u64 \<Rightarrow> nat" where
  "capture_deadline start minutes = start + unat (minutes * 60)"

text \<open>
  One turn of the loop, after its check of the clock. \<open>write_ok\<close> and \<open>ping_ok\<close> say whether
  writing the next line and answering the next ping succeed. \<open>Inl\<close> leaves the loop.
\<close>

definition capture_turn ::
  "('r, 'q) capture_lib \<Rightarrow> (u64 \<Rightarrow> bool) \<Rightarrow> (nat \<Rightarrow> bool) \<Rightarrow> ('r, 'q) poll \<Rightarrow> capture_state \<Rightarrow>
     capture_end + capture_state" where
  "capture_turn lib write_ok ping_ok p s =
     (case p of
        Timed_out \<Rightarrow> Inr s
      | Stream_ended \<Rightarrow> Inl Captured
      | Stream_failed \<Rightarrow> Inl Stream_error
      | Message (Tx_update slot None) \<Rightarrow> Inr s
      | Message (Tx_update slot (Some info)) \<Rightarrow>
          if write_ok (written_txs s)
          then Inr (s\<lparr>out_text := out_text s @ capture_line lib slot info @ nl,
                 written_txs := written_txs s + 1\<rparr>)
          else Inl Write_error
      | Message Ping_update \<Rightarrow>
          if ping_ok (pings s) then Inr (s\<lparr>pings := pings s + 1\<rparr>) else Inl Ping_error
      | Message Other_update \<Rightarrow> Inr s)"

text \<open>
  The loop over clock readings and polls; \<open>None\<close> when they do not reach its end.
\<close>

fun capture_loop ::
  "('r, 'q) capture_lib \<Rightarrow> (u64 \<Rightarrow> bool) \<Rightarrow> (nat \<Rightarrow> bool) \<Rightarrow> nat \<Rightarrow> (nat \<times> ('r, 'q) poll) list \<Rightarrow>
     capture_state \<Rightarrow> (capture_end \<times> capture_state) option" where
  "capture_loop lib write_ok ping_ok deadline [] s = None"
| "capture_loop lib write_ok ping_ok deadline ((clock, p) # ps) s =
     (if deadline \<le> clock then Some (Captured, s)
      else case capture_turn lib write_ok ping_ok p s of
        Inl e \<Rightarrow> Some (e, s)
      | Inr s' \<Rightarrow> capture_loop lib write_ok ping_ok deadline ps s')"

text \<open>
  \<open>setup\<close> says whether the file could be created and the stream subscribed to, \<open>flush_ok\<close>
  whether the last flush of the file succeeds.
\<close>

definition run_capture ::
  "('r, 'q) capture_lib \<Rightarrow> bool \<Rightarrow> (u64 \<Rightarrow> bool) \<Rightarrow> (nat \<Rightarrow> bool) \<Rightarrow> bool \<Rightarrow> nat \<Rightarrow> u64 \<Rightarrow>
     (nat \<times> ('r, 'q) poll) list \<Rightarrow> (capture_end \<times> capture_state) option" where
  "run_capture lib setup write_ok ping_ok flush_ok start minutes ps =
     (let s = \<lparr>out_text = [], written_txs = 0, pings = 0\<rparr> in
      if \<not> setup then Some (Setup_error, s)
      else map_option (\<lambda>(e, s'). (if e = Captured \<and> \<not> flush_ok then Write_error else e, s'))
             (capture_loop lib write_ok ping_ok (capture_deadline start minutes) ps s))"

section \<open>What a capture holds\<close>

text \<open>The transactions the loop sees before it ends.\<close>

fun seen_txs :: "nat \<Rightarrow> (nat \<times> ('r, 'q) poll) list \<Rightarrow> (u64 \<times> ('r, 'q) tx_info) list" where
  "seen_txs deadline [] = []"
| "seen_txs deadline ((clock, p) # ps) =
     (if deadline \<le> clock then []
      else case p of
        Stream_ended \<Rightarrow> []
      | Stream_failed \<Rightarrow> []
      | Message (Tx_update slot (Some info)) \<Rightarrow> (slot, info) # seen_txs deadline ps
      | _ \<Rightarrow> seen_txs deadline ps)"

definition capture_text :: "('r, 'q) capture_lib \<Rightarrow> (u64 \<times> ('r, 'q) tx_info) list \<Rightarrow> string" where
  "capture_text lib txs = concat (map (\<lambda>(slot, info). capture_line lib slot info @ nl) txs)"

lemma capture_loop_text:
  assumes "capture_loop lib write_ok ping_ok deadline ps s = Some (Captured, s')"
  shows "out_text s' = out_text s @ capture_text lib (seen_txs deadline ps)
    \<and> written_txs s' = written_txs s + of_nat (length (seen_txs deadline ps))"
  using assms
proof (induction ps arbitrary: s)
  case (Cons cp ps)
  obtain clock p where cp: "cp = (clock, p)" by (cases cp)
  show ?case
  proof (cases "deadline \<le> clock")
    case True
    with Cons.prems show ?thesis by (simp add: cp capture_text_def)
  next
    case False
    show ?thesis
    proof (cases "capture_turn lib write_ok ping_ok p s")
      case (Inl e)
      with Cons.prems False show ?thesis
        by (auto simp: cp capture_turn_def capture_text_def
            split: poll.splits stream_update.splits option.splits if_splits)
    next
      case (Inr t)
      with Cons.prems False have "capture_loop lib write_ok ping_ok deadline ps t = Some (Captured, s')"
        by (simp add: cp)
      from Cons.IH [OF this] Inr False show ?thesis
        by (auto simp: cp capture_turn_def capture_text_def
            split: poll.splits stream_update.splits option.splits if_splits)
    qed
  qed
qed simp

section \<open>Replaying a capture\<close>

text \<open>
  What is relied on of the libraries: the readers the replay uses undo the writers the capture
  uses, and a JSON text is one line.
\<close>

definition inverse_libs ::
  "('r, 'q) capture_lib \<Rightarrow> ('r, 'q, 't, 'm) replay_lib \<Rightarrow> bool" where
  "inverse_libs cl rl \<longleftrightarrow>
     (\<forall>slot info. \<exists>j. parse_json rl (capture_line cl slot info) = Some j
        \<and> json_index ''slot'' j = json_index ''slot'' (capture_json cl slot info)
        \<and> json_index ''data'' j = json_index ''data'' (capture_json cl slot info))
     \<and> (\<forall>slot info. CHR 0x0A \<notin> set (capture_line cl slot info))
     \<and> (\<forall>b. decode_base64 rl (encode_base64 cl b) = Some b)
     \<and> (\<forall>i. decode_info rl (encode_info cl i) = Some i)"

text \<open>The update of a captured transaction, without the file between.\<close>

definition direct_update ::
  "('r, 'q, 't, 'm) replay_lib \<Rightarrow> u64 \<times> ('r, 'q) tx_info \<Rightarrow> ('t, 'm) tx_update option" where
  "direct_update lib tx = (case tx of (slot, info) \<Rightarrow>
     Option.bind (read_signature lib (info_signature info)) (\<lambda>sig.
     Option.bind (info_transaction info) (\<lambda>raw_tx.
     Option.bind (info_meta info) (\<lambda>raw_meta.
     Option.bind (create_tx lib raw_tx) (\<lambda>tx.
     map_option (\<lambda>meta.
       \<lparr>up_signature = sig, up_transaction = tx, up_meta = meta, up_is_vote = info_is_vote info,
        up_slot = slot, up_index = Some (info_index info), up_block_time = None\<rparr>)
       (create_meta lib raw_meta))))))"

lemma capture_line_update:
  assumes "inverse_libs cl rl"
  shows "line_update rl (capture_line cl slot info) = direct_update rl (slot, info)"
proof -
  obtain j where j: "parse_json rl (capture_line cl slot info) = Some j"
    "json_index ''slot'' j = json_u64 slot"
    "json_index ''data'' j = JString (encode_base64 cl (encode_info cl info))"
  proof -
    have "json_index ''slot'' (capture_json cl slot info) = json_u64 slot"
      "json_index ''data'' (capture_json cl slot info) = JString (encode_base64 cl (encode_info cl info))"
      by (simp_all add: capture_json_def json_index_def)
    then show thesis using that assms unfolding inverse_libs_def by metis
  qed
  with assms show ?thesis
    by (simp add: line_update_def direct_update_def inverse_libs_def Let_def)
qed

lemma text_lines_capture:
  assumes "inverse_libs cl rl"
  shows "text_lines (capture_text cl txs) = map (\<lambda>(slot, info). capture_line cl slot info) txs"
proof (induction txs)
  case (Cons tx txs)
  have "CHR 0x0A \<notin> set (capture_line cl (fst tx) (snd tx))"
    using assms by (simp add: inverse_libs_def)
  from text_lines_line [OF this, of "capture_text cl txs"] Cons show ?case
    by (simp add: capture_text_def case_prod_unfold)
qed (simp add: capture_text_def)

lemma usable_capture:
  assumes "inverse_libs cl rl"
  shows "usable rl (text_lines (capture_text cl txs)) = List.map_filter (direct_update rl) txs"
    and "unusable rl (text_lines (capture_text cl txs)) = length (filter (\<lambda>tx. direct_update rl tx = None) txs)"
proof -
  have line: "line_update rl ((\<lambda>(slot, info). capture_line cl slot info) tx) = direct_update rl tx" for tx
    using capture_line_update [OF assms] by (cases tx) simp
  show "usable rl (text_lines (capture_text cl txs)) = List.map_filter (direct_update rl) txs"
    unfolding usable_def text_lines_capture [OF assms]
    by (induction txs) (simp_all add: List.map_filter_simps line split: option.split)
  show "unusable rl (text_lines (capture_text cl txs)) = length (filter (\<lambda>tx. direct_update rl tx = None) txs)"
    unfolding unusable_def text_lines_capture [OF assms] by (induction txs) (simp_all add: line)
qed

lemma captured_replays:
  fixes rl :: "('r, 'q, 't, 'm) replay_lib"
  assumes "inverse_libs cl rl"
    and "run_capture cl setup write_ok ping_ok flush_ok start minutes ps = Some (Captured, s)"
    and "\<forall>i. open_file i = Some (map Some (text_lines (out_text s)))"
  shows "\<exists>s'. replay_consume rl (\<lambda>_. False) (\<lambda>_. True) open_file 1 1 m = Some (True, s')
    \<and> delivered s' = List.map_filter (direct_update rl) (seen_txs (capture_deadline start minutes) ps)
    \<and> skipped s' = of_nat (length (filter (\<lambda>tx. direct_update rl tx = None)
        (seen_txs (capture_deadline start minutes) ps)))
    \<and> written_txs s = of_nat (length (text_lines (out_text s)))"
proof -
  let ?txs = "seen_txs (capture_deadline start minutes) ps"
  have loop: "capture_loop cl write_ok ping_ok (capture_deadline start minutes) ps
      \<lparr>out_text = [], written_txs = 0, pings = 0\<rparr> = Some (Captured, s)"
    using assms(2) by (auto simp: run_capture_def Let_def split: if_splits)
  have out: "out_text s = capture_text cl ?txs" "written_txs s = of_nat (length ?txs)"
    using capture_loop_text [OF loop] by simp_all
  have "open_file i = Some (map Some (text_lines (capture_text cl ?txs)))" for i
    using assms(3) out(1) by simp
  from replay_once [of open_file, OF this, of rl m] show ?thesis
    using out text_lines_capture [OF assms(1), of ?txs] usable_capture [OF assms(1), of ?txs] by simp
qed

section \<open>Property\<close>

text \<open>
  A capture replays. When the libraries' readers undo their writers, replaying a finished
  capture once sends, in the order of the stream, exactly the updates of the transactions seen
  before the deadline or the end of the stream, leaving out those that cannot be converted,
  which are counted as skipped; and the capture's own count is the number of lines.
\<close>

theorem capture_replays:
  fixes rl :: "('r, 'q, 't, 'm) replay_lib"
  assumes "inverse_libs cl rl"
    and "run_capture cl setup write_ok ping_ok flush_ok start minutes ps = Some (Captured, s)"
    and "\<forall>i. open_file i = Some (map Some (text_lines (out_text s)))"
  shows "\<exists>s'. replay_consume rl (\<lambda>_. False) (\<lambda>_. True) open_file 1 1 m = Some (True, s')
    \<and> delivered s' = List.map_filter (direct_update rl) (seen_txs (capture_deadline start minutes) ps)
    \<and> skipped s' = of_nat (length (filter (\<lambda>tx. direct_update rl tx = None)
        (seen_txs (capture_deadline start minutes) ps)))
    \<and> written_txs s = of_nat (length (text_lines (out_text s)))"
  using assms by (rule captured_replays)

section \<open>Concrete libraries\<close>

text \<open>
  Text with two letters per byte, and a byte layout for transactions without a body, show that
  the hypothesis can be met.
\<close>

definition letter :: "nat \<Rightarrow> char" where
  "letter n = ''ABCDEFGHIJKLMNOP'' ! n"

definition unletter :: "char \<Rightarrow> nat" where
  "unletter c = length (takeWhile (\<lambda>x. x \<noteq> c) ''ABCDEFGHIJKLMNOP'')"

definition spell :: "u8 list \<Rightarrow> string" where
  "spell bs = concat (map (\<lambda>b. [letter (unat b div 16), letter (unat b mod 16)]) bs)"

fun unspell :: "string \<Rightarrow> u8 list" where
  "unspell (a # b # cs) = of_nat (16 * unletter a + unletter b) # unspell cs"
| "unspell cs = []"

definition pack :: "(unit, unit) tx_info \<Rightarrow> u8 list" where
  "pack i = [if info_transaction i = None then 0 else 1, if info_meta i = None then 0 else 1,
     if info_is_vote i then 1 else 0] @ replicate (unat (info_index i)) 0 @ [1] @ info_signature i"

definition unpack :: "u8 list \<Rightarrow> (unit, unit) tx_info option" where
  "unpack bs = (case bs of
      a # b # c # rest \<Rightarrow> Some \<lparr>info_signature = drop 1 (dropWhile (\<lambda>x. x = 0) rest),
        info_transaction = (if a = 0 then None else Some ()), info_meta = (if b = 0 then None else Some ()),
        info_is_vote = (c = 1), info_index = of_nat (length (takeWhile (\<lambda>x. x = 0) rest))\<rparr>
    | _ \<Rightarrow> None)"

definition line_of_json :: "json \<Rightarrow> string" where
  "line_of_json j = (case (as_u64_json (json_index ''slot'' j), as_str (json_index ''data'' j)) of
      (Some n, Some d) \<Rightarrow> show_u64 n @ '' '' @ d | _ \<Rightarrow> '''')"

definition json_of_line :: "string \<Rightarrow> json option" where
  "json_of_line l = (case sample_of l of (n, d) \<Rightarrow>
     Some (JObject [(''slot'', json_u64 (of_nat (read_nat n))), (''data'', JString d)]))"

definition spell_lib :: "(unit, unit) capture_lib" where
  "spell_lib = \<lparr>bs58 = spell, encode_info = pack, encode_base64 = spell, show_json = line_of_json\<rparr>"

definition unspell_lib :: "(unit, unit, nat, nat) replay_lib" where
  "unspell_lib = \<lparr>parse_json = json_of_line, decode_base64 = (\<lambda>s. Some (unspell s)), decode_info = unpack,
     read_signature = Some, create_tx = (\<lambda>_. Some 1), create_meta = (\<lambda>_. Some 2)\<rparr>"

lemma letters: "n < 16 \<Longrightarrow> unletter (letter n) = n \<and> letter n \<noteq> CHR 0x0A"
proof -
  assume "n < 16"
  then have "n \<in> {0, 1, 2, 3, 4, 5, 6, 7, 8, 9, 10, 11, 12, 13, 14, 15}" by (simp, presburger)
  then show ?thesis by (auto simp: letter_def unletter_def)
qed

lemma unspell_spell: "unspell (spell bs) = bs"
proof (induction bs)
  case (Cons b bs)
  have b: "unat b < 256" using unsigned_less [of b, where ?'a = nat] by simp
  have "unspell (spell (b # bs)) = of_nat (16 * (unat b div 16) + unat b mod 16) # unspell (spell bs)"
    using b letters by (simp add: spell_def)
  then show ?case using Cons by simp
qed (simp add: spell_def)

lemma spell_line: "CHR 0x0A \<notin> set (spell bs)"
proof -
  have "CHR 0x0A \<notin> set [letter (unat b div 16), letter (unat b mod 16)]" for b :: u8
  proof -
    have "unat b < 256" using unsigned_less [of b, where ?'a = nat] by simp
    then have "unat b div 16 < 16" "unat b mod 16 < 16" by simp_all
    then show ?thesis using letters [of "unat b div 16"] letters [of "unat b mod 16"] by auto
  qed
  then show ?thesis by (auto simp: spell_def)
qed

lemma unpack_pack: "unpack (pack i) = Some i"
proof -
  have "takeWhile (\<lambda>x. x = 0) (replicate n 0 @ (1 :: u8) # sig) = replicate n 0"
    "dropWhile (\<lambda>x. x = 0) (replicate n 0 @ (1 :: u8) # sig) = 1 # sig" for n sig
    by (induction n) simp_all
  then show ?thesis by (cases i) (auto simp: unpack_def pack_def)
qed

lemma line_of_capture:
  "line_of_json (capture_json spell_lib slot info) = show_u64 slot @ '' '' @ spell (pack info)"
  by (simp add: line_of_json_def capture_json_def json_index_def spell_lib_def json_u64_def)

lemma inverse_spelling: "inverse_libs spell_lib unspell_lib"
proof -
  have no_space: "CHR '' '' \<notin> set (show_u64 n)" "CHR 0x0A \<notin> set (show_u64 n)" for n
    using show_nat_digits [of "unat n"] not_digit by (auto simp: show_u64_def)
  have "json_of_line (line_of_json (capture_json spell_lib slot info)) =
      Some (JObject [(''slot'', json_u64 slot), (''data'', JString (spell (pack info)))])" for slot info
    using no_space
    by (simp add: line_of_capture json_of_line_def sample_of_def takeWhile_append dropWhile_append takeWhile_eq_all_conv show_u64_def)
  moreover have "CHR 0x0A \<notin> set (line_of_json (capture_json spell_lib slot info))" for slot info
    using no_space spell_line by (simp add: line_of_capture)
  ultimately show ?thesis
    using unspell_spell unpack_pack
    by (auto simp: inverse_libs_def capture_line_def json_index_def capture_json_def)
      (auto simp: spell_lib_def unspell_lib_def json_index_def)
qed

definition captured_info :: "(unit, unit) tx_info" where
  "captured_info = \<lparr>info_signature = [7, 8], info_transaction = Some (), info_meta = Some (),
     info_is_vote = False, info_index = 3\<rparr>"

definition captured_polls :: "(nat \<times> (unit, unit) poll) list" where
  "captured_polls = [(1, Timed_out), (2, Message (Tx_update 40 (Some captured_info))), (9, Message Ping_update),
     (30, Message (Tx_update 41 None)), (59, Message (Tx_update 42 (Some (captured_info\<lparr>info_meta := None\<rparr>)))), (60, Timed_out)]"

theorem capture_replays_witness:
  "\<exists>s s'. run_capture spell_lib True (\<lambda>_. True) (\<lambda>_. True) True 0 1 captured_polls = Some (Captured, s)
    \<and> replay_consume unspell_lib (\<lambda>_. False) (\<lambda>_. True) (\<lambda>_. Some (map Some (text_lines (out_text s)))) 1 1 new_metrics
        = Some (True, s')
    \<and> map up_slot (delivered s') = [40] \<and> skipped s' = 1"
proof -
  obtain s where s: "run_capture spell_lib True (\<lambda>_. True) (\<lambda>_. True) True 0 1 captured_polls = Some (Captured, s)"
    by (auto simp: run_capture_def captured_polls_def capture_deadline_def capture_turn_def Let_def)
  have seen: "seen_txs (capture_deadline 0 1) captured_polls = [(40, captured_info), (42, captured_info\<lparr>info_meta := None\<rparr>)]"
    by (simp add: captured_polls_def capture_deadline_def)
  have "direct_update unspell_lib (40, captured_info) \<noteq> None \<and> up_slot (the (direct_update unspell_lib (40, captured_info))) = 40"
    "direct_update unspell_lib (42, captured_info\<lparr>info_meta := None\<rparr>) = None"
    by (simp_all add: direct_update_def captured_info_def unspell_lib_def)
  then show ?thesis
    using capture_replays [OF inverse_spelling s, of "\<lambda>_. Some (map Some (text_lines (out_text s)))" new_metrics] s seen
    by (auto simp: List.map_filter_simps)
qed

end
