(* ===== verification/Entry.thy ===== *)
theory Entry
  imports Verify Render
begin

text \<open>
  \<^verbatim>\<open>src/main.rs\<close>, \<^verbatim>\<open>src/cli.rs\<close> and the subscription of \<^verbatim>\<open>src/config.rs\<close>: the commands with
  their defaults, the job each starts, and the status with which the program ends.

  The reading of the command line is library code; \<open>arguments\<close> is its result. What a job
  comes to is the argument \<open>run\<close>, which the property instantiates with the model of \<^verbatim>\<open>verify\<close>.
  The logger is left out; an environment variable that is not set is a panic where the code calls
  \<^verbatim>\<open>expect\<close>. The exporter that a live run starts is at the end.
\<close>

section \<open>Commands\<close>

datatype command =
    Capture_cmd u64
  | Replay_cmd string u32 bool
  | Verify_cmd string
  | Verify_range_cmd u64 u64
  | Backfill_cmd u64 u64
  | Repair_cmd i64
  | Recover_cmd
  | Live_cmd
  | Api_cmd nat
  | Bench_cmd string u64 u32 u64 string

text \<open>
  What the command line holds, with \<open>None\<close> for an option that is not given, and the
  defaults.
\<close>

datatype arguments =
    Capture_args "u64 option"
  | Replay_args string "u32 option" bool
  | Verify_args string
  | Verify_range_args u64 u64
  | Backfill_args u64 u64
  | Repair_args "i64 option"
  | Recover_args
  | Live_args
  | Api_args "nat option"
  | Bench_args "string option" u64 "u32 option" "u64 option" string

definition or_default :: "'a \<Rightarrow> 'a option \<Rightarrow> 'a" where
  "or_default d x = (case x of None \<Rightarrow> d | Some y \<Rightarrow> y)"

fun command_of :: "arguments \<Rightarrow> command" where
  "command_of (Capture_args minutes) = Capture_cmd (or_default 5 minutes)"
| "command_of (Replay_args path repeat lookups) = Replay_cmd path (or_default 1 repeat) lookups"
| "command_of (Verify_args path) = Verify_cmd path"
| "command_of (Verify_range_args a b) = Verify_range_cmd a b"
| "command_of (Backfill_args a b) = Backfill_cmd a b"
| "command_of (Repair_args limit) = Repair_cmd (or_default 100000 limit)"
| "command_of Recover_args = Recover_cmd"
| "command_of Live_args = Live_cmd"
| "command_of (Api_args port) = Api_cmd (or_default 3000 port)"
| "command_of (Bench_args path rate repeat expected out) =
     Bench_cmd (or_default ''fixtures/golden-500.jsonl'' path) rate (or_default 1 repeat)
       (or_default 503 expected) out"

section \<open>The subscription\<close>

record tx_filter =
  f_vote :: "bool option"
  f_failed :: "bool option"
  f_signature :: "string option"
  account_include :: "string list"
  account_exclude :: "string list"
  account_required :: "string list"

definition PUMPFUN_PROGRAM :: string where
  "PUMPFUN_PROGRAM = ''6EF8rrecthR5Dkzon8Nwu78hRvfCKubJ14M5uBEwF6P''"

definition PUMPSWAP_PROGRAM :: string where
  "PUMPSWAP_PROGRAM = ''pAMMBay6oceH9fJKBRHGP5D4bD4sWpmSwMn52FMfXEA''"

definition program_filter :: "string \<Rightarrow> tx_filter" where
  "program_filter program =
     \<lparr>f_vote = Some False, f_failed = Some False, f_signature = None, account_include = [program],
      account_exclude = [], account_required = []\<rparr>"

definition transaction_filters :: "string \<rightharpoonup> tx_filter" where
  "transaction_filters = fold (\<lambda>(name, program) m. m(name \<mapsto> program_filter program))
     [(''pumpfun'', PUMPFUN_PROGRAM), (''pumpswap'', PUMPSWAP_PROGRAM)] Map.empty"

section \<open>The environment\<close>

record environment =
  var_database_url :: "string option"
  var_rpc_url :: "string option"
  var_grpc_endpoint :: "string option"
  var_x_token :: "string option"

definition database_url :: "environment \<Rightarrow> string option" where
  "database_url env = var_database_url env"

definition grpc_x_token :: "environment \<Rightarrow> string option" where
  "grpc_x_token env = Option.bind (var_x_token env) (\<lambda>t. if t \<noteq> [] then Some t else None)"

section \<open>Jobs\<close>

text \<open>What \<^verbatim>\<open>main\<close> starts: a pipeline over a source, or one of the other runs.\<close>

datatype source =
    Replay_source string u32
  | Backfill_source string u64 u64
  | Geyser_source string "string option" "string \<rightharpoonup> tx_filter"

record pipeline_call =
  reads :: source
  rpc_client :: "string option"
  collecting :: bool
  database :: "string option"
  reporting_gaps :: bool

datatype job =
    Run_capture u64
  | Run_pipeline pipeline_call
  | Run_verify string string
  | Run_verify_range u64 u64 string
  | Run_repair i64 string
  | Run_recover string
  | Run_api nat string
  | Run_benchmark string u64 u32 u64 string

text \<open>
  How a job comes to its end: with an error, with a panic, or with its Boolean (\<open>True\<close> for a
  job that has none). An error of \<^verbatim>\<open>main\<close> exits with status 1. \<open>connect\<close> says whether the
  database at a URL can be reached and migrated.
\<close>

datatype job_end = Erring | Crashing | Returning bool

datatype ended_with = Exit nat | Panicked

text \<open>
  What the program does beside ending: lines on its standard output, tasks that run beside the
  job (the exporter with its port, the gap recorder with the room of its channel and its
  database), and the job it starts.
\<close>

datatype task = Metrics_exporter nat | Gap_recorder nat string

datatype action = Printed string | Spawned task | Started job

type_synonym run_trace = "action list \<times> ended_with"

definition after :: "action list \<Rightarrow> run_trace \<Rightarrow> run_trace" where
  "after acts r = (acts @ fst r, snd r)"

definition finished :: "(job \<Rightarrow> job_end) \<Rightarrow> job \<Rightarrow> run_trace" where
  "finished run j = ([Started j],
     case run j of Erring \<Rightarrow> Exit 1 | Crashing \<Rightarrow> Panicked | Returning _ \<Rightarrow> Exit 0)"

definition judged :: "(job \<Rightarrow> job_end) \<Rightarrow> job \<Rightarrow> run_trace" where
  "judged run j = ([Started j], case run j of
      Erring \<Rightarrow> Exit 1
    | Crashing \<Rightarrow> Panicked
    | Returning clean \<Rightarrow> if \<not> clean then Exit 1 else Exit 0)"

text \<open>
  The end of a replay. \<open>seen\<close> is the number of events in the log afterwards, \<open>None\<close> when its
  mutex was poisoned.
\<close>

definition collected :: "(job \<Rightarrow> job_end) \<Rightarrow> (job \<Rightarrow> nat option) \<Rightarrow> job \<Rightarrow> run_trace" where
  "collected run seen j = after [Started j] (case run j of
      Erring \<Rightarrow> ([], Exit 1)
    | Crashing \<Rightarrow> ([], Panicked)
    | Returning _ \<Rightarrow> (case seen j of
        None \<Rightarrow> ([], Panicked)
      | Some n \<Rightarrow> ([Printed (''Collected '' @ show_nat n @ '' events'')], Exit 0)))"

text \<open>\<^verbatim>\<open>expect\<close> on a variable, as in \<^verbatim>\<open>SOLANA_RPC_URL\<close> and \<^verbatim>\<open>GRPC_ENDPOINT\<close>.\<close>

definition required :: "string option \<Rightarrow> (string \<Rightarrow> run_trace) \<Rightarrow> run_trace" where
  "required var k = (case var of None \<Rightarrow> ([], Panicked) | Some x \<Rightarrow> k x)"

definition on_database ::
  "environment \<Rightarrow> (string \<Rightarrow> bool) \<Rightarrow> (string \<Rightarrow> run_trace) \<Rightarrow> run_trace" where
  "on_database env connect k =
     required (database_url env) (\<lambda>u. if connect u then k u else ([], Exit 1))"

definition METRICS_PORT :: nat where
  "METRICS_PORT = 9100"

text \<open>What follows the \<^verbatim>\<open>match\<close>, which only \<^verbatim>\<open>Live\<close> reaches.\<close>

definition live :: "environment \<Rightarrow> (string \<Rightarrow> bool) \<Rightarrow> (job \<Rightarrow> job_end) \<Rightarrow> run_trace" where
  "live env connect run =
     (let filters = transaction_filters in
      after [Printed (''Transaction filters: '' @ show_nat (card (dom filters))),
             Spawned (Metrics_exporter METRICS_PORT)]
        (on_database env connect (\<lambda>u.
          after [Spawned (Gap_recorder GAP_QUEUE_SIZE u)]
            (required (var_grpc_endpoint env) (\<lambda>endpoint.
             required (var_rpc_url env) (\<lambda>rpc.
               finished run (Run_pipeline \<lparr>reads = Geyser_source endpoint (grpc_x_token env) filters,
                 rpc_client = Some rpc, collecting = False, database = Some u,
                 reporting_gaps = True\<rparr>)))))))"

fun run_command ::
  "environment \<Rightarrow> (string \<Rightarrow> bool) \<Rightarrow> (job \<Rightarrow> job_end) \<Rightarrow> (job \<Rightarrow> nat option) \<Rightarrow> command \<Rightarrow> run_trace" where
  "run_command env connect run seen (Capture_cmd minutes) = finished run (Run_capture minutes)"
| "run_command env connect run seen (Replay_cmd path repeat lookups) =
     (let start = (\<lambda>rpc.
        let job = (\<lambda>d. Run_pipeline \<lparr>reads = Replay_source path repeat, rpc_client = rpc,
              collecting = True, database = d, reporting_gaps = False\<rparr>)
        in case database_url env of
             Some u \<Rightarrow> if connect u then collected run seen (job (Some u)) else ([], Exit 1)
           | None \<Rightarrow> collected run seen (job None))
      in if lookups then required (var_rpc_url env) (\<lambda>rpc. start (Some rpc)) else start None)"
| "run_command env connect run seen (Verify_cmd path) =
     on_database env connect (\<lambda>u. judged run (Run_verify path u))"
| "run_command env connect run seen (Verify_range_cmd a b) =
     on_database env connect (\<lambda>u. judged run (Run_verify_range a b u))"
| "run_command env connect run seen (Backfill_cmd a b) =
     on_database env connect (\<lambda>u. required (var_rpc_url env) (\<lambda>rpc.
       finished run (Run_pipeline \<lparr>reads = Backfill_source rpc a b, rpc_client = Some rpc,
         collecting = False, database = Some u, reporting_gaps = False\<rparr>)))"
| "run_command env connect run seen (Repair_cmd limit) =
     on_database env connect (\<lambda>u. finished run (Run_repair limit u))"
| "run_command env connect run seen Recover_cmd =
     on_database env connect (\<lambda>u. finished run (Run_recover u))"
| "run_command env connect run seen (Api_cmd port) =
     on_database env connect (\<lambda>u. finished run (Run_api port u))"
| "run_command env connect run seen (Bench_cmd path rate repeat expected out) =
     finished run (Run_benchmark path rate repeat expected out)"
| "run_command env connect run seen Live_cmd = live env connect run"

text \<open>
  \<^verbatim>\<open>main\<close>. \<open>tls\<close> is whether the TLS provider could be installed. The parser gives the arguments,
  or ends the program itself with a status (help, or a usage error). \<open>env\<close> holds the variables
  after the \<^verbatim>\<open>.env\<close> file was read.
\<close>

definition main ::
  "bool \<Rightarrow> nat + arguments \<Rightarrow> environment \<Rightarrow> (string \<Rightarrow> bool) \<Rightarrow> (job \<Rightarrow> job_end) \<Rightarrow> (job \<Rightarrow> nat option) \<Rightarrow> run_trace"
where
  "main tls parsed env connect run seen =
     (if \<not> tls then ([], Panicked)
      else case parsed of
        Inl code \<Rightarrow> ([], Exit code)
      | Inr args \<Rightarrow> run_command env connect run seen (command_of args))"

section \<open>The exporter\<close>

text \<open>
  \<^verbatim>\<open>spawn_exporter\<close> of \<^verbatim>\<open>metrics.rs\<close>: its one route, and what it prints, first on the standard
  output, then on stderr. \<open>bound\<close> and \<open>served\<close> are the results of binding and of serving, which
  returns only with an error or when the server was stopped.
\<close>

definition exporter_route :: "(f64 \<Rightarrow> string) \<Rightarrow> metrics \<Rightarrow> string \<Rightarrow> string option" where
  "exporter_route show_f64 m path = (if path = ''/metrics'' then Some (render show_f64 m) else None)"

definition exporter_prints ::
  "nat \<Rightarrow> string option \<Rightarrow> string option \<Rightarrow> string list \<times> string list" where
  "exporter_prints port bound served = (case bound of
      None \<Rightarrow> ([''metrics on http://localhost:'' @ show_nat port @ ''/metrics''],
        case served of None \<Rightarrow> [] | Some err \<Rightarrow> [''metrics: server stopped: '' @ err])
    | Some err \<Rightarrow> ([], [''metrics: could not bind port '' @ show_nat port @ '': '' @ err]))"

section \<open>Property\<close>

lemma transaction_filters_eq:
  "transaction_filters = [''pumpfun'' \<mapsto> program_filter PUMPFUN_PROGRAM,
     ''pumpswap'' \<mapsto> program_filter PUMPSWAP_PROGRAM]"
  by (simp add: transaction_filters_def)

lemma filters_len: "card (dom transaction_filters) = 2"
  by (simp add: transaction_filters_eq)

lemma main_verify:
  assumes "database_url env = Some u" "connect u"
  shows "main True (Inr (Verify_args path)) env connect run seen = judged run (Run_verify path u)"
  using assms by (simp add: main_def on_database_def required_def)

lemmas starting_defs = after_def finished_def judged_def collected_def required_def on_database_def live_def Let_def

lemma last_split: "xs @ y # ys = us @ [y] \<Longrightarrow> y \<notin> set us \<Longrightarrow> xs = us"
  by (cases ys rule: rev_cases) auto

text \<open>A job that reports gaps has its recorder: it was spawned before, on the same database.\<close>

lemma only_live_reports_gaps:
  assumes "Started (Run_pipeline p) \<in> set (fst (run_command env connect run seen c))" "reporting_gaps p"
  shows "c = Live_cmd"
  using assms by (cases c) (auto simp: starting_defs split: option.splits if_splits job_end.splits)

lemma live_trace:
  assumes "Started (Run_pipeline p) \<in> set (fst (live env connect run))"
  obtains a b u where "fst (live env connect run) = [Printed a, Spawned b, Spawned (Gap_recorder GAP_QUEUE_SIZE u),
      Started (Run_pipeline p)]" "database p = Some u" "connect u"
  using assms by (auto simp: starting_defs split: option.splits if_splits)

lemma recorder_runs_first:
  assumes trace: "fst (run_command env connect run seen c) = xs @ Started (Run_pipeline p) # ys"
    and gaps: "reporting_gaps p"
  shows "\<exists>u. database p = Some u \<and> connect u \<and> Spawned (Gap_recorder GAP_QUEUE_SIZE u) \<in> set xs"
proof -
  have "Started (Run_pipeline p) \<in> set (fst (run_command env connect run seen c))" by (simp add: trace)
  then have "c = Live_cmd" using gaps by (rule only_live_reports_gaps)
  with trace have live: "fst (live env connect run) = xs @ Started (Run_pipeline p) # ys" by simp
  then have "Started (Run_pipeline p) \<in> set (fst (live env connect run))" by simp
  then obtain a b u where eq: "fst (live env connect run) = [Printed a, Spawned b,
      Spawned (Gap_recorder GAP_QUEUE_SIZE u), Started (Run_pipeline p)]" "database p = Some u" "connect u"
    by (rule live_trace)
  have "xs = [Printed a, Spawned b, Spawned (Gap_recorder GAP_QUEUE_SIZE u)]"
    using last_split [of xs "Started (Run_pipeline p)" ys "[Printed a, Spawned b, Spawned (Gap_recorder GAP_QUEUE_SIZE u)]"]
      live eq(1) by simp
  with eq show ?thesis by simp
qed

text \<open>
  Claim C35. The exit status of \<^verbatim>\<open>verify\<close> speaks about the file and the database: when the database can be
  reached and the run of the command is that of \<^verbatim>\<open>run_verify\<close> over what one replay of the
  file's lines sends, the program exits with 0 exactly if the identities of the trade events
  of the file's usable lines are those stored with their signatures, and with 1 otherwise.
\<close>

theorem verify_exit_status:
  assumes "database_url env = Some u" "connect u"
    and "replay_consume lib (\<lambda>_. False) (\<lambda>_. True) (\<lambda>_. Some (map Some ls)) 1 1 m0 = Some (True, s)"
    and "fed deliver (delivered s) es" "scan_ok scan"
    and "run_verify err_text c wsol v scan m es d = Some (Answer (clean, rep), d')"
    and "run (Run_verify path u) = Returning clean"
  shows "snd (main True (Inr (Verify_args path)) env connect run seen) =
    (let expected = id_of_event ` set (stream_events deliver v (usable lib ls))
     in if expected = stored_ids (\<lambda>e. e_signature e \<in> signature ` expected) (store d) then Exit 0 else Exit 1)"
proof -
  let ?expected = "id_of_event ` set (stream_events deliver v (usable lib ls))"
  have fed: "fed deliver (usable lib ls) es" using assms(4) by (simp only: replay_once_delivers [OF assms(3) refl])
  have "(clean, rep) = report ?expected (stored_ids (\<lambda>e. e_signature e \<in> signature ` ?expected) (store d))"
    using run_verify_answer [OF assms(6,5)] unfolding fed_events [OF fed] Let_def .
  then have "clean = fst (report ?expected (stored_ids (\<lambda>e. e_signature e \<in> signature ` ?expected) (store d)))"
    by (metis fst_conv)
  then have "clean \<longleftrightarrow> ?expected = stored_ids (\<lambda>e. e_signature e \<in> signature ` ?expected) (store d)"
    by (simp only: report_clean finite_imageI finite_set finite_stored_ids)
  then show ?thesis using assms(1,2,7) by (simp add: main_verify judged_def Let_def)
qed

text \<open>A file with one usable line, whose transaction has two trade events, and an empty database.\<close>

definition whole_file :: "(unit, unit) tx_update \<Rightarrow> unit call list" where
  "whole_file u = sample_updates"

lemma whole_file_replay:
  obtains s where
    "replay_consume sample_lib (\<lambda>_. False) (\<lambda>_. True) (\<lambda>_. Some (map Some [''x'', ''bad''])) 1 1 new_metrics = Some (True, s)"
    "fed whole_file (delivered s) sample_reading" "length (delivered s) = 1"
proof -
  obtain s where s: "replay_consume sample_lib (\<lambda>_. False) (\<lambda>_. True) (\<lambda>_. Some (map Some [''x'', ''bad''])) 1 1 new_metrics = Some (True, s)"
    "delivered s = usable sample_lib [''x'', ''bad'']"
    using replay_once [OF refl] by blast
  moreover have one: "length (usable sample_lib [''x'', ''bad'']) = 1"
    by (simp add: usable_def sample_lib_def line_update_def json_index_def List.map_filter_simps)
  moreover have "fed whole_file (delivered s) sample_reading"
  proof -
    have "length (delivered s) = 1" unfolding s(2) by (rule one)
    then obtain u where "delivered s = [u]" by (cases "delivered s") auto
    then show ?thesis using sample_fed(2) by (simp add: fed_def concat_one_call whole_file_def)
  qed
  ultimately show thesis using that by metis
qed

theorem verify_exit_status_witness:
  "\<exists>clean. snd (main True (Inr (Verify_args ''file''))
     \<lparr>var_database_url = Some ''db'', var_rpc_url = None, var_grpc_endpoint = None, var_x_token = None\<rparr>
     (\<lambda>_. True) (\<lambda>_. Returning clean) (\<lambda>_. Some 0)) = Exit 1"
proof -
  let ?env = "\<lparr>var_database_url = Some ''db'', var_rpc_url = None, var_grpc_endpoint = None, var_x_token = None\<rparr>"
  have env: "database_url ?env = Some ''db''" by (simp add: database_url_def)
  obtain s where s: "replay_consume sample_lib (\<lambda>_. False) (\<lambda>_. True) (\<lambda>_. Some (map Some [''x'', ''bad''])) 1 1 new_metrics = Some (True, s)"
    "fed whole_file (delivered s) sample_reading" "length (delivered s) = 1" by (rule whole_file_replay)
  obtain ids where "collect_ids (\<lambda>_. ''refused'') byte_codec (sample_key 1) sample_serde new_metrics
      sample_reading = Some ids" using sample_collects by blast
  moreover have "healthy (sample_db [])" by (simp add: sample_db_def healthy_def)
  ultimately obtain clean rep d' where r: "run_verify (\<lambda>_. ''refused'') byte_codec (sample_key 1)
      sample_serde (\<lambda>es. es) new_metrics sample_reading (sample_db []) = Some (Answer (clean, rep), d')"
    using run_verify_answers(1) by blast
  have ok: "scan_ok (\<lambda>es :: event_row list. es)" by (simp add: scan_ok_def)
  have empty: "stored_ids P (store (sample_db [])) = {}" for P
    by (simp add: stored_ids_def sample_db_def empty_tables_def)
  have "usable sample_lib [''x'', ''bad''] = delivered s" by (rule replay_once_delivers [OF s(1) refl, symmetric])
  then obtain u where "usable sample_lib [''x'', ''bad''] = [u]" using s(3) by (cases "delivered s") auto
  then have "stream_events whole_file sample_serde (usable sample_lib [''x'', ''bad'']) \<noteq> []"
    by (simp add: stream_events_def whole_file_def sample_updates_def sample_stream_def event_of_call_def
        events_for_def no_clock_def sample_meta_def)
  then show ?thesis
    using verify_exit_status [OF env _ s(1,2) ok r, of "\<lambda>_. True" "\<lambda>_. Returning clean" "''file''" "\<lambda>_. Some 0"] empty
    by (auto simp: Let_def)
qed

end
