(* ===== verification/Log.thy ===== *)
theory Log
  imports Writer
begin

text \<open>
  The writer's contract, as an abstract machine: a log that accepts rows and settles them in
  batches, in the order in which they came. A batch is committed as a whole, or parked in the
  dead letters as a whole, or named on stderr as a whole. The task of \<^verbatim>\<open>writer.rs\<close>, with its
  channel, its timer, its counters and a database that may answer anything, is simulated by this
  machine step by step.
\<close>

section \<open>The machine\<close>

datatype fate = Committed | Parked | Named

type_synonym history = "(fate \<times> pending_write list) list"

record log =
  history :: history
  unsettled :: "pending_write list"
  kept :: tables

text \<open>A batch that is given up may have landed, its answer being lost.\<close>

definition attempted :: "pending_write list \<Rightarrow> tables \<Rightarrow> tables \<Rightarrow> bool" where
  "attempted rows t u \<longleftrightarrow> u = t \<or> (\<exists>newest. max_by_key row_slot rows = Some newest
     \<and> commit_effect rows (row_slot newest) (e_signature (pw_event newest)) t = Inr u)"

inductive settles :: "fate \<Rightarrow> pending_write list \<Rightarrow> tables \<Rightarrow> tables \<Rightarrow> bool" where
  commits: "max_by_key row_slot rows = Some newest \<Longrightarrow>
    commit_effect rows (row_slot newest) (e_signature (pw_event newest)) t = Inr t' \<Longrightarrow>
    settles Committed rows t t'"
| parks: "attempted rows t u \<Longrightarrow>
    settles Parked rows t (u\<lparr>dead_letters := dead_letters u @ map (letter_of err) rows\<rparr>)"
| names: "attempted rows t u \<Longrightarrow> parked u rows t' \<Longrightarrow> settles Named rows t t'"

inductive_cases settles_Committed: "settles Committed rows t t'"
inductive_cases settles_Parked: "settles Parked rows t t'"
inductive_cases settles_Named: "settles Named rows t t'"

text \<open>
  In a \<open>stall\<close> the last batch has been attempted, its dead letters may be there, and nothing is
  known of either: its rows stay unsettled.
\<close>

inductive log_step :: "log \<Rightarrow> log \<Rightarrow> bool" where
  accept: "log_step l (l\<lparr>unsettled := unsettled l @ [r]\<rparr>)"
| settle: "unsettled l = rows @ rest \<Longrightarrow> rows \<noteq> [] \<Longrightarrow> length rows \<le> BATCH_SIZE \<Longrightarrow>
    settles f rows (kept l) t \<Longrightarrow>
    log_step l \<lparr>history = history l @ [(f, rows)], unsettled = rest, kept = t\<rparr>"
| stall: "unsettled l = rows @ rest \<Longrightarrow> rows \<noteq> [] \<Longrightarrow> length rows \<le> BATCH_SIZE \<Longrightarrow>
    attempted rows (kept l) u \<Longrightarrow> parked u rows t \<Longrightarrow> log_step l (l\<lparr>kept := t\<rparr>)"

definition rows_of :: "fate \<Rightarrow> history \<Rightarrow> pending_write list" where
  "rows_of f h = concat (map snd (filter (\<lambda>b. fst b = f) h))"

definition accepted :: "log \<Rightarrow> pending_write list" where
  "accepted l = concat (map snd (history l)) @ unsettled l"

definition new_log :: "tables \<Rightarrow> log" where
  "new_log t = \<lparr>history = [], unsettled = [], kept = t\<rparr>"

lemma rows_of_snoc [simp]: "rows_of f (h @ [(f', rows)]) = rows_of f h @ (if f' = f then rows else [])"
  by (simp add: rows_of_def)

lemma rows_of_Nil [simp]: "rows_of f [] = []"
  by (simp add: rows_of_def)

section \<open>What the machine guarantees\<close>

text \<open>What each batch of the history has left in the tables.\<close>

definition left_trace :: "tables \<Rightarrow> fate \<times> pending_write list \<Rightarrow> bool" where
  "left_trace t b \<longleftrightarrow> (case b of (f, rows) \<Rightarrow> rows \<noteq> [] \<and> length rows \<le> BATCH_SIZE
     \<and> (f = Committed \<longrightarrow> pending_key ` set rows \<subseteq> event_key ` set (events t))
     \<and> (f = Parked \<longrightarrow> (\<exists>err. set (map (letter_of err) rows) \<subseteq> set (dead_letters t))))"

text \<open>Events and dead letters are never taken back.\<close>

definition extends :: "tables \<Rightarrow> tables \<Rightarrow> bool" where
  "extends t t' \<longleftrightarrow> event_key ` set (events t) \<subseteq> event_key ` set (events t')
     \<and> set (dead_letters t) \<subseteq> set (dead_letters t')"

lemma extends_refl: "extends t t"
  by (simp add: extends_def)

lemma extends_trans: "extends s t \<Longrightarrow> extends t u \<Longrightarrow> extends s u"
  unfolding extends_def by blast

lemma left_trace_extends:
  assumes "left_trace t b" "extends t t'"
  shows "left_trace t' b"
proof -
  obtain f rows where b: "b = (f, rows)" by fastforce
  have ev: "event_key ` set (events t) \<subseteq> event_key ` set (events t')"
    and dl: "set (dead_letters t) \<subseteq> set (dead_letters t')" using assms(2) by (simp_all only: extends_def)
  have f: "f = Committed \<longrightarrow> pending_key ` set rows \<subseteq> event_key ` set (events t)"
    "f = Parked \<longrightarrow> (\<exists>err. set (map (letter_of err) rows) \<subseteq> set (dead_letters t))"
    "rows \<noteq> []" "length rows \<le> BATCH_SIZE"
    using assms(1) by (simp_all add: b left_trace_def)
  have "f = Committed \<longrightarrow> pending_key ` set rows \<subseteq> event_key ` set (events t')"
    using subset_trans [OF _ ev] f(1) by blast
  moreover have "f = Parked \<longrightarrow> (\<exists>err. set (map (letter_of err) rows) \<subseteq> set (dead_letters t'))"
    using subset_trans [OF _ dl] f(2) by metis
  ultimately show ?thesis using f(3,4) by (simp add: b left_trace_def)
qed

lemma commit_extends: "commit_effect rows slot sig t = Inr t' \<Longrightarrow> extends t t'"
  using commit_effect_keys [of rows slot sig t t'] commit_effect_Inr(5) [of rows slot sig t t']
  by (simp add: extends_def)

lemma attempted_extends: "attempted rows t u \<Longrightarrow> extends t u"
  by (auto simp: attempted_def extends_refl intro: commit_extends)

lemma parked_extends: "parked u rows t \<Longrightarrow> extends u t"
  by (auto simp: parked_def extends_def)

lemma settles_extends: "settles f rows t t' \<Longrightarrow> extends t t'"
proof (induction rule: settles.induct)
  case (commits rows newest t t')
  then show ?case by (blast intro: commit_extends)
next
  case (parks rows t u err)
  have "parked u rows (u\<lparr>dead_letters := dead_letters u @ map (letter_of err) rows\<rparr>)"
    by (auto simp: parked_def)
  from extends_trans [OF attempted_extends [OF parks] parked_extends [OF this]] show ?case .
next
  case (names rows t u t')
  from extends_trans [OF attempted_extends [OF names(1)] parked_extends [OF names(2)]] show ?case .
qed

lemma settles_trace:
  assumes "settles f rows t t'" "rows \<noteq> []" "length rows \<le> BATCH_SIZE"
  shows "left_trace t' (f, rows)"
  using assms
  by (cases rule: settles.cases) (auto simp: left_trace_def commit_effect_keys)

lemma log_step_traces:
  "log_step l l' \<Longrightarrow> \<forall>b \<in> set (history l). left_trace (kept l) b \<Longrightarrow>
     \<forall>b \<in> set (history l'). left_trace (kept l') b"
proof (induction rule: log_step.induct)
  case (settle l rows rest f t)
  then show ?case using settles_extends [OF settle(4)] settles_trace [OF settle(4)]
    by (auto intro: left_trace_extends)
next
  case (stall l rows rest u t)
  then have "extends (kept l) t" by (blast intro: extends_trans attempted_extends parked_extends)
  with stall show ?case by (auto intro: left_trace_extends)
qed simp

lemma log_traces: "log_step\<^sup>*\<^sup>* (new_log t) l \<Longrightarrow> \<forall>b \<in> set (history l). left_trace (kept l) b"
  by (induction rule: rtranclp_induct) (auto simp: new_log_def dest: log_step_traces)

section \<open>The task follows the machine\<close>

definition committed_total :: "writer \<Rightarrow> u64" where
  "committed_total w = sum_list (buckets (receive_to_committed (meter w)))"

definition given_up :: "history \<Rightarrow> nat" where
  "given_up h = length (filter (\<lambda>b. fst b \<noteq> Committed) h)"

text \<open>
  The task \<open>w\<close>, started as \<open>w0\<close>, and a log: the same tables, the rows of channel and batch
  waiting, and counters that have counted the history.
\<close>

definition follows :: "writer \<Rightarrow> writer \<Rightarrow> log \<Rightarrow> bool" where
  "follows w0 w l \<longleftrightarrow> unsettled l = pending w \<and> kept l = store (db w)
     \<and> unparked w = unparked w0 @ rows_of Named (history l)
     \<and> well_formed (receive_to_committed (meter w))
     \<and> committed_total w = committed_total w0 + of_nat (length (rows_of Committed (history l)))
     \<and> get DEAD_LETTERS (meter w) = get DEAD_LETTERS (meter w0) + of_nat (length (rows_of Parked (history l)))
     \<and> (status w \<noteq> Stuck \<longrightarrow>
          get DB_WRITE_ERRORS (meter w) = get DB_WRITE_ERRORS (meter w0) + of_nat (given_up (history l)))"

lemma given_up_snoc [simp]: "given_up (h @ [(f, rows)]) = given_up h + (if f = Committed then 0 else 1)"
  by (simp add: given_up_def)

lemma observe_rows_total:
  "well_formed (receive_to_committed m) \<Longrightarrow>
     well_formed (receive_to_committed (observe_rows clock i rs m)) \<and>
     sum_list (buckets (receive_to_committed (observe_rows clock i rs m))) =
       sum_list (buckets (receive_to_committed m)) + of_nat (length rs)"
proof (induction rs arbitrary: i m)
  case (Cons r rs)
  let ?m = "m\<lparr>receive_to_committed := observe (clock i - queued_at r) (receive_to_committed m)\<rparr>"
  have "well_formed (receive_to_committed ?m)" using Cons.prems by simp
  from Cons.IH [OF this, of "Suc i"] Cons.prems show ?case by (simp add: total_observe)
qed simp

lemma committed_metrics_total:
  assumes "well_formed (receive_to_committed m)"
  shows "well_formed (receive_to_committed (committed_metrics clock rows slot m))"
    and "sum_list (buckets (receive_to_committed (committed_metrics clock rows slot m))) =
      sum_list (buckets (receive_to_committed m)) + of_nat (length rows)"
  using observe_rows_total [of "m\<lparr>flush_time := observe (clock 1 - clock 0) (flush_time m)\<rparr>" clock 2 rows] assms
  by (simp_all add: committed_metrics_def set_committed_slot_def)

lemma get_inc_many: "get c (fold (\<lambda>_. inc c') rows m) = (if c = c' then get c m + of_nat (length rows) else get c m)"
  by (induction rows arbitrary: m) auto

lemma latency_inc_many [simp]: "receive_to_committed (fold (\<lambda>_. inc c) rows m) = receive_to_committed m"
  by (induction rows arbitrary: m) (simp_all add: inc_def)

lemma park_followed:
  assumes l: "follows w0 w l" "status w \<noteq> Stuck" "batch w \<noteq> []" "length (batch w) \<le> BATCH_SIZE"
    and u: "attempted (batch w) (store (db w)) (store d)"
  shows "\<exists>l'. log_step l l' \<and> accepted l' = accepted l
    \<and> follows w0 (park err (w\<lparr>db := d, meter := inc DB_WRITE_ERRORS (meter w)\<rparr>)) l'"
proof -
  let ?rows = "batch w" and ?rest = "items (queue w)"
  obtain r d' where wd: "write_dead_letters ?rows err d = (r, d')" by fastforce
  have ul: "unsettled l = ?rows @ ?rest" "kept l = store (db w)"
    using l(1) by (simp_all add: follows_def pending_def)
  have pk: "parked (store d) ?rows (store d')"
    using write_dead_letters_store [OF wd] by (auto simp: parked_def)
  have u': "attempted ?rows (kept l) (store d)" using u ul(2) by simp
  show ?thesis
  proof (cases r)
    case (Answer x)
    let ?l = "\<lparr>history = history l @ [(Parked, ?rows)], unsettled = ?rest, kept = store d'\<rparr>"
    have "settles Parked ?rows (kept l) (store d')"
      using parks [OF u', of err] write_dead_letters_Answer wd Answer by simp
    then have "log_step l ?l" by (rule settle [OF ul(1) l(3,4)])
    moreover have "follows w0 (park err (w\<lparr>db := d, meter := inc DB_WRITE_ERRORS (meter w)\<rparr>)) ?l"
      using l(1,2) wd Answer
      by (simp add: follows_def park_def pending_def get_inc_many committed_total_def inc_def [of DB_WRITE_ERRORS])
        (simp add: get_def)
    ultimately show ?thesis using ul(1) by (intro exI [of _ ?l]) (simp add: accepted_def)
  next
    case (Failure e)
    let ?l = "\<lparr>history = history l @ [(Named, ?rows)], unsettled = ?rest, kept = store d'\<rparr>"
    have "log_step l ?l" by (rule settle [OF ul(1) l(3,4) names [OF u' pk]])
    moreover have "follows w0 (park err (w\<lparr>db := d, meter := inc DB_WRITE_ERRORS (meter w)\<rparr>)) ?l"
      using l(1,2) wd Failure
      by (simp add: follows_def park_def pending_def committed_total_def inc_def) (simp add: get_def)
    ultimately show ?thesis using ul(1) by (intro exI [of _ ?l]) (simp add: accepted_def)
  next
    case No_answer
    let ?l = "l\<lparr>kept := store d'\<rparr>"
    have "log_step l ?l" by (rule stall [OF ul(1) l(3,4) u' pk])
    moreover have "follows w0 (park err (w\<lparr>db := d, meter := inc DB_WRITE_ERRORS (meter w)\<rparr>)) ?l"
      using l(1) wd No_answer
      by (simp add: follows_def park_def pending_def committed_total_def inc_def) (simp add: get_def)
    ultimately show ?thesis by (intro exI [of _ ?l]) (simp add: accepted_def)
  qed
qed

lemma flush_followed:
  assumes l: "follows w0 w l" "status w \<noteq> Stuck" "length (batch w) \<le> BATCH_SIZE"
  shows "\<exists>l'. log_step\<^sup>=\<^sup>= l l' \<and> accepted l' = accepted l \<and> follows w0 (flush err_text clock w) l'"
proof (cases rule: flush_shape [of w err_text clock])
  case idle
  with l(1) show ?thesis by auto
next
  case (committed newest d)
  let ?l = "\<lparr>history = history l @ [(Committed, batch w)], unsettled = items (queue w), kept = store d\<rparr>"
  have ul: "unsettled l = batch w @ items (queue w)" "kept l = store (db w)" "batch w \<noteq> []"
    using l(1) committed(1) by (auto simp: follows_def pending_def)
  have "settles Committed (batch w) (kept l) (store d)"
    unfolding ul(2) by (rule commits [OF committed(1,3)])
  then have "log_step l ?l" by (rule settle [OF ul(1,3) l(3)])
  moreover have "well_formed (receive_to_committed (meter w))" using l(1) by (simp add: follows_def)
  then have "follows w0 (flush err_text clock w) ?l"
    using l(1,2) committed_metrics_total by (simp add: follows_def committed(4) pending_def committed_total_def)
  ultimately show ?thesis using ul(1) by (intro exI [of _ ?l]) (simp add: accepted_def)
next
  case (failed newest d err)
  have "batch w \<noteq> []" using failed(1) by auto
  moreover have "attempted (batch w) (store (db w)) (store d)"
    using failed(1,2) by (auto simp: attempted_def)
  ultimately obtain l' where "log_step l l'" "accepted l' = accepted l"
      "follows w0 (park err (w\<lparr>db := d, meter := inc DB_WRITE_ERRORS (meter w)\<rparr>)) l'"
    using park_followed [OF l(1,2) _ l(3)] by blast
  then show ?thesis unfolding failed(3) by blast
qed

lemma writer_step_followed:
  assumes step: "writer_step err_text a w = Some w'" and ok: "writer_ok w" and l: "follows w0 w l"
  shows "\<exists>l'. log_step\<^sup>=\<^sup>= l l' \<and> accepted l' = accepted l @ sent [a] \<and> follows w0 w' l'"
proof (cases a)
  case (Send r)
  with step ok obtain q where q: "try_send r (queue w) = Some q" "w' = w\<lparr>queue := q\<rparr>"
    by (auto simp: writer_ok_def split: if_splits)
  let ?l = "l\<lparr>unsettled := unsettled l @ [r]\<rparr>"
  have "follows w0 w' ?l"
    using l q by (simp add: follows_def pending_def committed_total_def try_send_Some)
  then show ?thesis
    using Send by (intro exI [of _ ?l]) (simp add: accepted_def accept)
next
  case (Receive clock)
  with step have run: "status w = Running" by (auto split: if_splits)
  show ?thesis
  proof (cases "recv (queue w)")
    case None
    with Receive step run have w': "w' = stop (flush err_text clock w)" by (auto split: if_splits)
    obtain l' where l': "log_step\<^sup>=\<^sup>= l l'" "accepted l' = accepted l" "follows w0 (flush err_text clock w) l'"
      using flush_followed [OF l, of err_text clock] run ok by (auto simp: writer_ok_def)
    have "follows w0 w' l'"
      using l'(3) unfolding w' by (auto simp: follows_def stop_def pending_def committed_total_def)
    with l'(1,2) Receive show ?thesis by auto
  next
    case (Some rq)
    obtain r q where rq: "rq = (r, q)" by fastforce
    let ?w1 = "w\<lparr>queue := q, batch := batch w @ [r]\<rparr>"
    have w': "w' = (if BATCH_SIZE \<le> length (batch ?w1) then flush err_text clock ?w1 else ?w1)"
      using Receive step run Some rq by (simp add: Let_def)
    have "pending ?w1 = pending w" using Some rq by (simp add: pending_def recv_Some)
    then have l1: "follows w0 ?w1 l" using l by (simp add: follows_def committed_total_def)
    have "length (batch ?w1) \<le> BATCH_SIZE" using ok run by (simp add: writer_ok_def)
    then have "\<exists>l'. log_step\<^sup>=\<^sup>= l l' \<and> accepted l' = accepted l \<and> follows w0 (flush err_text clock ?w1) l'"
      using flush_followed [OF l1, of err_text clock] run by simp
    with l1 Receive show ?thesis unfolding w' by auto
  qed
next
  case (Tick clock)
  with step have "status w = Running" "w' = flush err_text clock w" by (auto split: if_splits)
  with flush_followed [OF l, of err_text clock] ok Tick show ?thesis by (auto simp: writer_ok_def)
next
  case Drop_senders
  with step have "w' = w\<lparr>senders_dropped := True\<rparr>" by simp
  then have "follows w0 w' l" using l by (simp add: follows_def pending_def committed_total_def)
  with Drop_senders show ?thesis by auto
qed

lemma writer_run_followed:
  "writer_run err_text as w = Some w' \<Longrightarrow> writer_ok w \<Longrightarrow> follows w0 w l \<Longrightarrow>
     \<exists>l'. log_step\<^sup>*\<^sup>* l l' \<and> accepted l' = accepted l @ sent as \<and> follows w0 w' l'"
proof (induction as arbitrary: w l)
  case (Cons a as)
  then obtain w1 where w1: "writer_step err_text a w = Some w1" "writer_run err_text as w1 = Some w'"
    by (auto split: option.splits)
  obtain l1 where l1: "log_step\<^sup>=\<^sup>= l l1" "accepted l1 = accepted l @ sent [a]" "follows w0 w1 l1"
    using writer_step_followed [OF w1(1) Cons.prems(2,3)] by blast
  obtain l2 where l2: "log_step\<^sup>*\<^sup>* l1 l2" "accepted l2 = accepted l1 @ sent as" "follows w0 w' l2"
    using Cons.IH [OF w1(2) writer_step_ok [OF w1(1) Cons.prems(2)] l1(3)] by blast
  have "log_step\<^sup>*\<^sup>* l l2" using l1(1) l2(1) by auto
  with l1(2) l2(2,3) show ?case by (subst sent_Cons) auto
qed auto

lemma spawned_follows:
  assumes "well_formed (receive_to_committed m)"
  shows "follows (spawn_writer d n m) (spawn_writer d n m) (new_log (store d))"
  using assms by (simp add: follows_def new_log_def spawn_writer_def pending_def new_chan_def given_up_def)

text \<open>A whole run, from the start of the task.\<close>

lemma writer_run_log:
  assumes "writer_run err_text as (spawn_writer d n m) = Some w" "tables_ok (store d)"
    and "well_formed (receive_to_committed m)"
  obtains l where "log_step\<^sup>*\<^sup>* (new_log (store d)) l" "accepted l = sent as"
    "follows (spawn_writer d n m) w l"
proof -
  obtain l where "log_step\<^sup>*\<^sup>* (new_log (store d)) l" "accepted l = accepted (new_log (store d)) @ sent as"
      "follows (spawn_writer d n m) w l"
    using writer_run_followed [OF assms(1) spawned_ok [OF assms(2)] spawned_follows [OF assms(3)]] by blast
  then show thesis using that by (simp add: accepted_def new_log_def)
qed

section \<open>Properties\<close>

text \<open>
  Claim C11. The task refines the machine: every step of it, with any answers of the
  database, is one step of the log or none, hands over to the log exactly the row it was
  sent, and leaves the two in agreement about tables, rows still waiting, rows named on stderr
  and the counters.
\<close>

theorem writer_refines_log:
  assumes "writer_step err_text a w = Some w'" "writer_ok w" "follows w0 w l"
  shows "\<exists>l'. log_step\<^sup>=\<^sup>= l l' \<and> accepted l' = accepted l @ sent [a] \<and> follows w0 w' l'"
  using assms by (rule writer_step_followed)

theorem writer_refines_log_witness:
  "\<exists>w' l'. writer_step (\<lambda>_. ''refused'') (Send (sample_row ''a'' 5)) (sample_writer []) = Some w'
     \<and> accepted l' = [sample_row ''a'' 5] \<and> follows (sample_writer []) w' l'"
proof -
  obtain w' where w': "writer_step (\<lambda>_. ''refused'') (Send (sample_row ''a'' 5)) (sample_writer []) = Some w'"
    by (simp add: sample_writer_def sample_defs try_send_def)
  have ok: "tables_ok (store (sample_db []))" by (simp add: sample_db_def tables_ok_empty)
  have "well_formed (receive_to_committed new_metrics)" by (simp add: new_metrics_def well_formed_new)
  then have f: "follows (sample_writer []) (sample_writer []) (new_log (store (sample_db [])))"
    unfolding sample_writer_def by (rule spawned_follows)
  have "writer_ok (sample_writer [])" unfolding sample_writer_def by (rule spawned_ok [OF ok])
  from writer_refines_log [OF w' this f] w' show ?thesis
    by (auto simp: accepted_def new_log_def)
qed

text \<open>
  Claim C1. Every batch has one fate. In any run of the task, the rows it was sent are, in order,
  those of the batches settled so far and then those still waiting; no batch is empty or has more
  than a hundred rows; all rows of a committed batch are in the events table, all rows of a
  parked one are in the dead letters under one error, and all rows of the others, and no more,
  are named on stderr. The latency histogram and the two error counters count exactly the
  committed rows, the parked rows and the batches that were given up.
\<close>

theorem every_batch_has_one_fate:
  assumes "writer_run err_text as (spawn_writer d n m) = Some w" "tables_ok (store d)"
    and "well_formed (receive_to_committed m)"
  shows "\<exists>h. sent as = concat (map snd h) @ pending w
    \<and> (\<forall>b \<in> set h. left_trace (store (db w)) b) \<and> unparked w = rows_of Named h
    \<and> sum_list (buckets (receive_to_committed (meter w))) =
        sum_list (buckets (receive_to_committed m)) + of_nat (length (rows_of Committed h))
    \<and> get DEAD_LETTERS (meter w) = get DEAD_LETTERS m + of_nat (length (rows_of Parked h))
    \<and> (status w \<noteq> Stuck \<longrightarrow> get DB_WRITE_ERRORS (meter w) = get DB_WRITE_ERRORS m + of_nat (given_up h))"
proof -
  obtain l where l: "log_step\<^sup>*\<^sup>* (new_log (store d)) l" "accepted l = sent as" "follows (spawn_writer d n m) w l"
    by (rule writer_run_log [OF assms])
  have "\<forall>b \<in> set (history l). left_trace (store (db w)) b"
    using log_traces [OF l(1)] l(3) by (simp add: follows_def)
  moreover have "sent as = concat (map snd (history l)) @ pending w"
    using l(2,3) by (simp add: accepted_def follows_def)
  ultimately show ?thesis
    using l(3) by (intro exI [of _ "history l"])
      (simp add: follows_def committed_total_def spawn_writer_def)
qed

theorem every_batch_has_one_fate_witness:
  "\<exists>w h. writer_run (\<lambda>_. ''refused'') sample_run (sample_writer []) = Some w
     \<and> [sample_row ''a'' 5, sample_row ''b'' 6] = concat (map snd h) @ pending w
     \<and> (\<forall>b \<in> set h. left_trace (store (db w)) b)"
proof -
  obtain w where w: "writer_run (\<lambda>_. ''refused'') sample_run (sample_writer []) = Some w"
    using sample_run_ends by blast
  have ok: "tables_ok (store (sample_db []))" by (simp add: sample_db_def tables_ok_empty)
  have m: "well_formed (receive_to_committed new_metrics)" by (simp add: new_metrics_def well_formed_new)
  from every_batch_has_one_fate [OF w [unfolded sample_writer_def] ok m] w show ?thesis
    by (auto simp: sample_sent)
qed

end
