(* ===== verification/Recording.thy ===== *)
theory Recording
  imports Capture Entry
begin

text \<open>
  The way of a recorded stream through four programs: \<^verbatim>\<open>capture\<close> writes it to a file, \<^verbatim>\<open>replay\<close>
  reads the file, the pipeline ingests it, and \<^verbatim>\<open>verify\<close> reads the file again and compares it
  with what was stored.
\<close>

section \<open>From the stream to the answer\<close>

lemma captured_delivers:
  fixes rl :: "('r, 'q, 't, 'm) replay_lib"
  assumes "inverse_libs cl rl"
    and "run_capture cl setup write_ok ping_ok flush_ok start minutes ps = Some (Captured, s)"
    and "\<forall>i. open_file i = Some (map Some (text_lines (out_text s)))"
    and "replay_consume rl (\<lambda>_. False) (\<lambda>_. True) open_file 1 1 m = Some (ok, r)"
  shows "delivered r = List.map_filter (direct_update rl) (seen_txs (capture_deadline start minutes) ps)"
  using captured_replays [OF assms(1-3), of m] assms(4) by auto

lemma pipeline_stored:
  assumes "run_pipeline err_text c wsol v rpc collect (Some d) answers gaps m es = Inr (Some g)"
    and "tables_ok (store d)" "set answers \<subseteq> {Done}" "fed deliver updates es" "wr g = Some w"
  shows "events (store (db w)) = insert_do_nothing event_key (events (store d)) (stream_events deliver v updates)"
  using pipeline_stream [OF assms(1) view_ok [OF assms(2)] assms(3)] assms(5) fed_events [OF assms(4), of v]
  by auto

section \<open>Property\<close>

text \<open>
  Claim C6. From the stream to the answer. When a capture ended well, and its file is replayed
  into a pipeline whose database executes the writer's statements, the events table gains
  exactly the trade events of the transactions that were seen on the stream, in the stream's
  order; and \<^verbatim>\<open>verify\<close> over the same file then makes the program exit with 0, provided no older
  row shares a signature with them without being one of them.
\<close>

theorem recorded_stream_is_stored_and_verifies:
  fixes rl :: "('r, 'q, 't, 'm) replay_lib"
  assumes libs: "inverse_libs cl rl"
    and recorded: "run_capture cl setup write_ok ping_ok flush_ok start minutes ps = Some (Captured, s)"
    and on_disk: "\<forall>i. open_file i = Some (map Some (text_lines (out_text s)))"
    and replayed: "replay_consume rl (\<lambda>_. False) (\<lambda>_. True) open_file 1 1 m1 = Some (ok1, r1)"
    and ingested: "run_pipeline err_text c wsol v rpc collect (Some d) answers gaps m es = Inr (Some g)"
      "fed deliver (delivered r1) es" "wr g = Some w" "tables_ok (store d)" "set answers \<subseteq> {Done}"
    and reread: "replay_consume rl (\<lambda>_. False) (\<lambda>_. True) open_file 1 1 m2 = Some (ok2, r2)"
    and verified: "run_verify err_text' c' wsol' v scan m' es' dv = Some (Answer (clean, rep), d')"
      "fed deliver (delivered r2) es'" "scan_ok scan" "store dv = store (db w)"
    and program: "database_url env = Some u" "connect u" "run (Run_verify path u) = Returning clean"
    and txs: "txs = List.map_filter (direct_update rl) (seen_txs (capture_deadline start minutes) ps)"
    and older: "stored_ids (\<lambda>e. e_signature e \<in> signature ` id_of_event ` set (stream_events deliver v txs)) (store d)
      \<subseteq> id_of_event ` set (stream_events deliver v txs)"
  shows "events (store (db w)) = insert_do_nothing event_key (events (store d)) (stream_events deliver v txs)
    \<and> snd (main True (Inr (Verify_args path)) env connect run seen) = Exit 0"
proof -
  have d: "delivered r1 = txs" "delivered r2 = txs"
    using captured_delivers [OF libs recorded on_disk replayed] captured_delivers [OF libs recorded on_disk reread]
    by (simp_all add: txs)
  have "events (store (db w)) = insert_do_nothing event_key (events (store d)) (stream_events deliver v txs)"
    using pipeline_stored [OF ingested(1,4,5,2,3)] by (simp only: d)
  moreover have "clean"
    using ingested_verifies [OF ingested(1,4,5,2,3) verified(1,3,4)] verified(2) older by (simp only: d)
  ultimately show ?thesis
    using program by (simp add: main_verify judged_def)
qed

text \<open>An update that carries the sample's two trade events.\<close>

definition whole_update :: "'u \<Rightarrow> unit call list" where
  "whole_update u = sample_updates"

lemma sample_capture:
  obtains s r where "run_capture spell_lib True (\<lambda>_. True) (\<lambda>_. True) True 0 1 captured_polls = Some (Captured, s)"
    "replay_consume unspell_lib (\<lambda>_. False) (\<lambda>_. True) (\<lambda>_. Some (map Some (text_lines (out_text s)))) 1 1 new_metrics
       = Some (True, r)"
    "fed whole_update (delivered r) sample_schedule" "fed whole_update (delivered r) sample_reading"
proof -
  obtain s where s: "run_capture spell_lib True (\<lambda>_. True) (\<lambda>_. True) True 0 1 captured_polls = Some (Captured, s)"
    by (auto simp: run_capture_def captured_polls_def capture_deadline_def capture_turn_def Let_def)
  have seen: "seen_txs (capture_deadline 0 1) captured_polls = [(40, captured_info), (42, captured_info\<lparr>info_meta := None\<rparr>)]"
    by (simp add: captured_polls_def capture_deadline_def)
  have "direct_update unspell_lib (40, captured_info) \<noteq> None"
    "direct_update unspell_lib (42, captured_info\<lparr>info_meta := None\<rparr>) = None"
    by (simp_all add: direct_update_def captured_info_def unspell_lib_def)
  then obtain u where "List.map_filter (direct_update unspell_lib) (seen_txs (capture_deadline 0 1) captured_polls) = [u]"
    unfolding seen by (auto simp: List.map_filter_simps)
  then obtain r where r: "replay_consume unspell_lib (\<lambda>_. False) (\<lambda>_. True)
      (\<lambda>_. Some (map Some (text_lines (out_text s)))) 1 1 new_metrics = Some (True, r)" "delivered r = [u]"
    using captured_replays [OF inverse_spelling s, of "\<lambda>_. Some (map Some (text_lines (out_text s)))" new_metrics]
    by auto
  have "fed whole_update (delivered r) sample_schedule" "fed whole_update (delivered r) sample_reading"
    using sample_fed by (simp_all add: r(2) fed_def concat_one_call whole_update_def)
  with s r(1) show thesis by (rule that)
qed

theorem recorded_stream_is_stored_and_verifies_witness:
  "\<exists>g w new clean. sample_pipeline = Inr (Some g) \<and> wr g = Some w \<and> events (store (db w)) = insert_do_nothing event_key [] new
    \<and> snd (main True (Inr (Verify_args ''file''))
        \<lparr>var_database_url = Some ''db'', var_rpc_url = None, var_grpc_endpoint = None, var_x_token = None\<rparr>
        (\<lambda>_. True) (\<lambda>_. Returning clean) (\<lambda>_. Some 0)) = Exit 0"
proof -
  let ?env = "\<lparr>var_database_url = Some ''db'', var_rpc_url = None, var_grpc_endpoint = None, var_x_token = None\<rparr>"
  have env: "database_url ?env = Some ''db''" by (simp add: database_url_def)
  obtain s r where s: "run_capture spell_lib True (\<lambda>_. True) (\<lambda>_. True) True 0 1 captured_polls = Some (Captured, s)"
    and r: "replay_consume unspell_lib (\<lambda>_. False) (\<lambda>_. True) (\<lambda>_. Some (map Some (text_lines (out_text s)))) 1 1
       new_metrics = Some (True, r)"
    and fed: "fed whole_update (delivered r) sample_schedule" "fed whole_update (delivered r) sample_reading"
    by (rule sample_capture)
  obtain g where g: "sample_pipeline = Inr (Some g)" using sample_pipeline_ends by blast
  note run = g [unfolded sample_pipeline_def]
  have ok: "tables_ok (store (sample_db []))" by (simp add: sample_db_def tables_ok_empty)
  obtain w where w: "wr g = Some w" using pipeline_stream [OF run view_ok [OF ok]] by auto
  let ?d = "\<lparr>store = store (db w), script = []\<rparr>"
  obtain ids where "collect_ids (\<lambda>_. ''refused'') byte_codec (sample_key 1) sample_serde new_metrics
      sample_reading = Some ids" using sample_collects by blast
  moreover have "healthy ?d" by (simp add: healthy_def)
  ultimately obtain clean rep d' where v: "run_verify (\<lambda>_. ''refused'') byte_codec (sample_key 1)
      sample_serde (\<lambda>es. es) new_metrics sample_reading ?d = Some (Answer (clean, rep), d')"
    using run_verify_answers(1) by blast
  have scan: "scan_ok (\<lambda>es :: event_row list. es)" and st: "store ?d = store (db w)" and all_done: "set [] \<subseteq> {Done}"
    by (simp_all add: scan_ok_def)
  have old: "stored_ids P (store (sample_db [])) \<subseteq> S" and none: "events (store (sample_db [])) = []" for P S
    by (simp_all add: stored_ids_def sample_db_def empty_tables_def)
  have "events (store (db w)) = insert_do_nothing event_key (events (store (sample_db [])))
      (stream_events whole_update sample_serde (List.map_filter (direct_update unspell_lib) (seen_txs (capture_deadline 0 1) captured_polls)))
    \<and> snd (main True (Inr (Verify_args ''file'')) ?env (\<lambda>_. True) (\<lambda>_. Returning clean) (\<lambda>_. Some 0)) = Exit 0"
    by (rule recorded_stream_is_stored_and_verifies [OF inverse_spelling s _ r run fed(1) w ok all_done r v fed(2)
          scan st env _ _ refl old]) simp_all
  with g w none show ?thesis by auto
qed

end
