(* ===== verification/Load.thy ===== *)
theory Load
  imports Log Verify Bench
begin

text \<open>
  The benchmark of \<^verbatim>\<open>bench.rs\<close> through the whole pipeline: the replayed file, the paced source
  with its masks, the processors, the writer and the counters from which the result is computed.
\<close>

section \<open>What the writer counts when nothing goes wrong\<close>

lemma flush_calm_total:
  assumes "calm w" "well_formed (receive_to_committed (meter w))"
  shows "well_formed (receive_to_committed (meter (flush err_text clock w)))
    \<and> committed_total (flush err_text clock w) = committed_total w + of_nat (length (batch w))"
proof (cases rule: flush_shape [of w err_text clock])
  case idle
  with assms(2) show ?thesis by simp
next
  case (committed newest d)
  with committed_metrics_total [OF assms(2)] show ?thesis by (simp add: committed_total_def)
next
  case (failed newest d err)
  have "get DB_WRITE_ERRORS (meter (park err (w\<lparr>db := d, meter := inc DB_WRITE_ERRORS (meter w)\<rparr>))) =
      get DB_WRITE_ERRORS (meter w) + 1"
    by (auto simp: park_def get_inc_many split: prod.splits outcome.splits)
  moreover have "get DB_WRITE_ERRORS (meter (flush err_text clock w)) = get DB_WRITE_ERRORS (meter w)"
    using flush_calm(6) [OF assms(1), of err_text clock] by (simp add: untouched_def)
  ultimately show ?thesis using failed(3) by simp
qed

definition counted_rows :: "writer \<Rightarrow> u64" where
  "counted_rows w = committed_total w + of_nat (length (pending w))"

lemma flush_counted:
  assumes "calm w" "well_formed (receive_to_committed (meter w))"
  shows "well_formed (receive_to_committed (meter (flush err_text clock w)))
    \<and> counted_rows (flush err_text clock w) = counted_rows w"
  using flush_calm_total [OF assms, of err_text clock] flush_calm(2) [OF assms(1), of err_text clock]
  by (simp add: counted_rows_def pending_def flush_frame(1))

lemma writer_step_counted:
  assumes step: "writer_step err_text a w = Some w'" and ok: "writer_ok w" "calm w"
    and wf: "well_formed (receive_to_committed (meter w))"
  shows "well_formed (receive_to_committed (meter w'))
    \<and> counted_rows w' = counted_rows w + of_nat (length (sent [a]))"
proof (cases a)
  case (Send r)
  with step ok obtain q where "try_send r (queue w) = Some q" "w' = w\<lparr>queue := q\<rparr>"
    by (auto simp: writer_ok_def split: if_splits)
  with Send wf show ?thesis by (simp add: counted_rows_def committed_total_def pending_def try_send_Some)
next
  case (Receive clock)
  with step have run: "status w = Running" by (auto split: if_splits)
  show ?thesis
  proof (cases "recv (queue w)")
    case None
    with Receive step run have "w' = stop (flush err_text clock w)" by (auto split: if_splits)
    then have "meter w' = meter (flush err_text clock w)" "counted_rows w' = counted_rows (flush err_text clock w)"
      by (simp_all add: counted_rows_def committed_total_def pending_def)
    with Receive flush_counted [OF ok(2) wf, of err_text clock] show ?thesis by simp
  next
    case (Some rq)
    obtain r q where rq: "rq = (r, q)" by fastforce
    let ?w1 = "w\<lparr>queue := q, batch := batch w @ [r]\<rparr>"
    have w': "w' = (if BATCH_SIZE \<le> length (batch ?w1) then flush err_text clock ?w1 else ?w1)"
      using Receive step run Some rq by (simp add: Let_def)
    have p: "pending ?w1 = pending w" using Some rq by (simp add: pending_def recv_Some)
    then have "calm ?w1" using ok(2) by (simp add: calm_def)
    moreover have "well_formed (receive_to_committed (meter ?w1))" using wf by simp
    ultimately have "well_formed (receive_to_committed (meter (flush err_text clock ?w1)))
        \<and> counted_rows (flush err_text clock ?w1) = counted_rows ?w1" by (rule flush_counted)
    moreover have "counted_rows ?w1 = counted_rows w" using p by (simp add: counted_rows_def committed_total_def)
    ultimately show ?thesis using Receive wf unfolding w' by simp
  qed
next
  case (Tick clock)
  with step flush_counted [OF ok(2) wf, of err_text clock] show ?thesis by (auto split: if_splits)
next
  case Drop_senders
  with step wf show ?thesis by (auto simp: counted_rows_def committed_total_def pending_def)
qed

lemma writer_run_counted:
  "writer_run err_text as w = Some w' \<Longrightarrow> writer_ok w \<Longrightarrow> calm w \<Longrightarrow>
     \<forall>p \<in> set (sent as). writable p \<Longrightarrow> well_formed (receive_to_committed (meter w)) \<Longrightarrow>
     counted_rows w' = counted_rows w + of_nat (length (sent as))"
proof (induction as arbitrary: w)
  case (Cons a as)
  then obtain w1 where w1: "writer_step err_text a w = Some w1" "writer_run err_text as w1 = Some w'"
    by (auto split: option.splits)
  have good: "\<forall>p \<in> set (sent [a]). writable p" "\<forall>p \<in> set (sent as). writable p"
    using Cons.prems(4) by (subst (asm) sent_Cons, simp)+
  have "calm w1"
    using writer_step_advanced [OF w1(1) Cons.prems(2,3) good(1)] by (simp add: advanced_def)
  moreover have one: "well_formed (receive_to_committed (meter w1))"
      "counted_rows w1 = counted_rows w + of_nat (length (sent [a]))"
    using writer_step_counted [OF w1(1) Cons.prems(2,3,5)] by blast+
  ultimately have "counted_rows w' = counted_rows w1 + of_nat (length (sent as))"
    using Cons.IH [OF w1(2) writer_step_ok [OF w1(1) Cons.prems(2)] _ good(2)] by blast
  then show ?case unfolding one(2) by (subst sent_Cons) (simp add: algebra_simps)
qed simp

text \<open>The counters of a pipeline whose database executes every statement.\<close>

lemma pipeline_counts:
  assumes run: "run_pipeline err_text c wsol v rpc collect (Some d) answers gaps m es = Inr (Some g)"
    and ok: "tables_ok (store d)" "set answers \<subseteq> {Done}" "well_formed (receive_to_committed m)" "wr g = Some w"
  shows "get EVENTS_DECODED (stats (ix g)) = get EVENTS_DECODED m + of_nat (length (events_of v (moves_of es)))
    \<and> committed_total w = sum_list (buckets (receive_to_committed m)) + of_nat (length (events_of v (moves_of es)))
    \<and> get DB_WRITE_ERRORS (meter w) = get DB_WRITE_ERRORS m \<and> get DEAD_LETTERS (meter w) = get DEAD_LETTERS m"
proof -
  let ?d = "view_db d\<lparr>script := answers\<rparr>"
  obtain w' as rows where w': "wr g = Some w'" "status w' = Stopped"
    "writer_run err_text as (spawn_writer ?d WRITE_QUEUE_SIZE m) = Some (viewed w')"
    "sent as = rows" "map pw_event rows = events_of v (moves_of es)" "\<forall>p \<in> set rows. writable p"
    by (rule ended_run [OF run view_ok [OF ok(1)]])
  have "w' = w" using w'(1) ok(4) by simp
  note w = w'(2-6) [unfolded this]
  have st: "tables_ok (store ?d)" using view_ok [OF ok(1)] by (simp add: view_db_def)
  have h: "healthy ?d" using ok(2) by (auto simp: healthy_def)
  have calm: "calm (spawn_writer ?d WRITE_QUEUE_SIZE m)"
    using h by (simp add: calm_def spawn_writer_def pending_def new_chan_def)
  have n: "length (sent as) = length (events_of v (moves_of es))" unfolding w(3,4) [symmetric] by simp
  have "writer_ok (viewed w)" by (rule writer_run_ok [OF w(2) spawned_ok [OF st]])
  then have "pending (viewed w) = []" using w(1) by (simp add: writer_ok_def pending_def)
  moreover have "counted_rows (viewed w) = counted_rows (spawn_writer ?d WRITE_QUEUE_SIZE m) + of_nat (length (sent as))"
    by (rule writer_run_counted [OF w(2) spawned_ok [OF st] calm]) (use w(3,5) ok(3) in \<open>simp_all add: spawn_writer_def\<close>)
  ultimately have total: "committed_total w = sum_list (buckets (receive_to_committed m)) + of_nat (length (events_of v (moves_of es)))"
    by (simp add: counted_rows_def committed_total_def spawn_writer_def pending_def new_chan_def n)
  have "untouched (spawn_writer ?d WRITE_QUEUE_SIZE m) (viewed w)"
    using writer_run_advanced [OF w(2) spawned_ok [OF st] calm] w(3,5) by (simp add: advanced_def)
  then have "get DB_WRITE_ERRORS (meter w) = get DB_WRITE_ERRORS m" "get DEAD_LETTERS (meter w) = get DEAD_LETTERS m"
    by (simp_all add: untouched_def spawn_writer_def)
  moreover obtain g0 where g0: "start_pipeline c rpc collect (Some d) answers gaps m = Inr g0"
      "pipeline_run err_text c wsol v es g0 = Some g"
    using run by (auto simp: run_pipeline_def split: sum.splits option.splits if_splits)
  then have "stats (ix g0) = m"
    by (auto simp: start_pipeline_def Let_def split: prod.splits sum.splits if_splits)
  then have "get EVENTS_DECODED (stats (ix g)) = get EVENTS_DECODED m + of_nat (length (events_of v (moves_of es)))"
    using pipeline_run_produced [OF g0(2)] by (auto simp: produced_def)
  ultimately show ?thesis using total by blast
qed

section \<open>What masking does to the stream\<close>

text \<open>
  What is relied on of the framework: the signature it hands to the processors is the update's,
  decoding does not look at it, and the instructions of one transaction have different paths.
\<close>

definition signed :: "(u8 list \<Rightarrow> string) \<Rightarrow> u8 list \<Rightarrow> 'x call \<Rightarrow> 'x call" where
  "signed show_sig sig cl = ((fst cl)\<lparr>tx_signature := show_sig sig\<rparr>, snd cl)"

definition decodes_by_path :: "(u8 list \<Rightarrow> string) \<Rightarrow> (('t, 'm) tx_update \<Rightarrow> 'x call list) \<Rightarrow> bool" where
  "decodes_by_path show_sig deliver \<longleftrightarrow>
     (\<forall>u sig. deliver (u\<lparr>up_signature := sig\<rparr>) = map (signed show_sig sig) (deliver u))
     \<and> (\<forall>u. distinct (map (ins_path \<circ> fst) (deliver u))) \<and> inj show_sig"

definition call_key :: "'x call \<Rightarrow> row_key" where
  "call_key cl = (tx_signature (fst cl), ins_path (fst cl), 0)"

lemma event_of_call_cases:
  fixes v :: "'x serde"
  shows "event_of_call v cl = [] \<or> (\<exists>e. event_of_call v cl = [e] \<and> event_key e = call_key cl)"
proof -
  have one: "events_for v m = [] \<or> (\<exists>e i. move_meta m = Some i \<and> events_for v m = [e]
      \<and> event_key e = (tx_signature i, ins_path i, 0))" for m :: "'x move" and v :: "'x serde"
  proof (cases m)
    case (Swap t i ins)
    show ?thesis
    proof (cases ins)
      case (SwapCpiEvent ev)
      with Swap show ?thesis by (cases ev) (auto simp: events_for_def row_of_def event_key_def)
    qed (use Swap in \<open>simp add: events_for_def\<close>)
  next
    case (Curve t i ins)
    then show ?thesis by (cases ins) (auto simp: events_for_def row_of_def event_key_def)
  qed (simp add: events_for_def)
  show ?thesis
    using one [of v "Swap no_clock (fst cl) x" for x] one [of v "Curve no_clock (fst cl) x" for x]
    by (auto simp: event_of_call_def call_key_def split: sum.splits)
qed

lemma keys_of_calls: "event_key ` set (concat (map (event_of_call v) cls)) \<subseteq> call_key ` set cls"
proof
  fix k assume "k \<in> event_key ` set (concat (map (event_of_call v) cls))"
  then obtain cl e where "cl \<in> set cls" "e \<in> set (event_of_call v cl)" "k = event_key e" by auto
  with event_of_call_cases [of v cl] show "k \<in> call_key ` set cls" by auto
qed

lemma distinct_call_keys:
  "distinct (map call_key cls) \<Longrightarrow> distinct (map event_key (concat (map (event_of_call v) cls)))"
proof (induction cls)
  case (Cons cl cls)
  have "call_key cl \<notin> event_key ` set (concat (map (event_of_call v) cls))"
    using keys_of_calls [of v cls] Cons.prems by auto
  with Cons event_of_call_cases [of v cl] show ?case by (elim disjE exE conjE) simp_all
qed simp

lemma signed_length:
  fixes v :: "'x serde"
  shows "length (event_of_call v (signed show_sig sig cl)) = length (event_of_call v cl)"
proof -
  have "length (events_for v (Swap t (i\<lparr>tx_signature := s\<rparr>) ins)) = length (events_for v (Swap t i ins))"
    for t i s and ins :: "'x pump_swap_instruction" and v :: "'x serde"
  proof (cases ins)
    case (SwapCpiEvent ev)
    then show ?thesis by (cases ev) (simp_all add: events_for_def)
  qed (simp add: events_for_def)
  moreover have "length (events_for v (Curve t (i\<lparr>tx_signature := s\<rparr>) ins)) = length (events_for v (Curve t i ins))"
    for t i s and ins :: "'x pumpfun_instruction" and v :: "'x serde"
    by (cases ins) (simp_all add: events_for_def)
  ultimately show ?thesis by (simp add: event_of_call_def signed_def split: sum.splits)
qed

lemma deliver_own_signature:
  assumes "decodes_by_path show_sig deliver" "cl \<in> set (deliver u)"
  shows "tx_signature (fst cl) = show_sig (up_signature u)"
proof -
  have "deliver (u\<lparr>up_signature := up_signature u\<rparr>) = map (signed show_sig (up_signature u)) (deliver u)"
    using assms(1) unfolding decodes_by_path_def by blast
  then have "deliver u = map (signed show_sig (up_signature u)) (deliver u)" by simp
  with assms(2) have "cl \<in> signed show_sig (up_signature u) ` set (deliver u)" by (metis list.set_map)
  then show ?thesis by (auto simp: signed_def)
qed

lemma apart_by_image: "f ` A \<subseteq> {x} \<Longrightarrow> f ` B \<subseteq> S \<Longrightarrow> x \<notin> S \<Longrightarrow> A \<inter> B = {}"
  by blast

lemma stream_keys_distinct:
  assumes "decodes_by_path show_sig deliver" "distinct (map up_signature us)"
  shows "distinct (map event_key (stream_events deliver v us))"
proof -
  have inj: "inj show_sig" and paths: "\<And>u. distinct (map (ins_path \<circ> fst) (deliver u))"
    using assms(1) by (simp_all add: decodes_by_path_def)
  have "distinct (map call_key (concat (map deliver us)))" using assms(2)
  proof (induction us)
    case (Cons u us)
    have own: "distinct (map call_key (deliver u))"
    proof -
      have "distinct (map (fst \<circ> snd) (map call_key (deliver u)))"
        using paths [of u] by (simp add: comp_def call_key_def)
      then show ?thesis using distinct_map by blast
    qed
    have "fst ` call_key ` set (deliver u) \<subseteq> {show_sig (up_signature u)}"
      using deliver_own_signature [OF assms(1), of _ u] by (auto simp: call_key_def)
    moreover have "fst ` call_key ` set (concat (map deliver us)) \<subseteq> show_sig ` up_signature ` set us"
      using deliver_own_signature [OF assms(1)] by (auto simp: call_key_def)
    moreover have "show_sig (up_signature u) \<notin> show_sig ` up_signature ` set us"
      using Cons.prems inj by (auto dest: injD)
    ultimately have "call_key ` set (deliver u) \<inter> call_key ` set (concat (map deliver us)) = {}"
      by (rule apart_by_image)
    with Cons own show ?case by auto
  qed simp
  then show ?thesis unfolding stream_events_def by (rule distinct_call_keys)
qed

lemma masked_stream_length:
  assumes "decodes_by_path show_sig deliver"
  shows "length (stream_events deliver v (masked salt k us)) = length (stream_events deliver v us)"
proof -
  have one: "length (concat (map (event_of_call v) (deliver (u\<lparr>up_signature := sig\<rparr>)))) =
      length (concat (map (event_of_call v) (deliver u)))" for u sig
  proof -
    have d: "deliver (u\<lparr>up_signature := sig\<rparr>) = map (signed show_sig sig) (deliver u)"
      using assms unfolding decodes_by_path_def by blast
    show ?thesis unfolding d by (simp add: length_concat comp_def signed_length)
  qed
  have split: "stream_events deliver v us = concat (map (\<lambda>u. concat (map (event_of_call v) (deliver u))) us)" for us
    by (induction us) (simp_all add: stream_events_def)
  have "map (\<lambda>u. length (concat (map (event_of_call v) (deliver u)))) (masked salt k us) =
      map (\<lambda>u. length (concat (map (event_of_call v) (deliver u)))) us"
    by (rule nth_equalityI) (simp_all add: nth_masked make_signature_unique_def one)
  then show ?thesis unfolding split length_concat map_map comp_def by simp
qed

lemma stream_events_append: "stream_events deliver v (us @ us') = stream_events deliver v us @ stream_events deliver v us'"
  by (simp add: stream_events_def)

lemma repeated_stream_length:
  "length (stream_events deliver v (concat (replicate n us))) = n * length (stream_events deliver v us)"
  by (induction n) (simp_all add: stream_events_append, simp add: stream_events_def)

section \<open>Property\<close>

text \<open>
  The process has one set of counters; those of the benchmark are read from it at the end. What
  the parts of the model have counted on their own is found there.
\<close>

definition counted_by :: "pipeline \<Rightarrow> writer \<Rightarrow> metrics \<Rightarrow> bool" where
  "counted_by g w m \<longleftrightarrow> get EVENTS_DECODED m = get EVENTS_DECODED (stats (ix g))
     \<and> receive_to_committed m = receive_to_committed (meter w)
     \<and> get DB_WRITE_ERRORS m = get DB_WRITE_ERRORS (meter w) \<and> get DEAD_LETTERS m = get DEAD_LETTERS (meter w)"


text \<open>
  A file with one transaction that has one trade, replayed twice: the same event comes twice, under two
  signatures.
\<close>

definition bench_update :: "(unit, unit) tx_update" where
  "bench_update = \<lparr>up_signature = replicate 64 5, up_transaction = (), up_meta = (), up_is_vote = False,
     up_slot = 7, up_index = Some 0, up_block_time = None\<rparr>"

definition bench_lib :: "(unit, unit, unit, unit) replay_lib" where
  "bench_lib = sample_lib\<lparr>decode_info := (\<lambda>b. Some \<lparr>info_signature = replicate 64 5,
     info_transaction = Some (), info_meta = Some (), info_is_vote = False, info_index = 0\<rparr>)\<rparr>"

definition bench_hop :: "(unit, unit) tx_update hop" where
  "bench_hop = \<lparr>update = bench_update, recv_delay = 3, is_cancelled = False, oversleep = 10, send_delay = 20,
     log_delay = 1, taken = True\<rparr>"

definition byte_text :: "u8 list \<Rightarrow> string" where
  "byte_text = map (\<lambda>b. char_of (unat b))"

definition one_trade :: "(unit, unit) tx_update \<Rightarrow> unit call list" where
  "one_trade u = [(sample_meta (byte_text (up_signature u)) 101 False, Inr (CurveTrade sample_curve))]"

definition bench_sig :: "u64 \<Rightarrow> string" where
  "bench_sig i = byte_text (unique_signature 7 i (replicate 64 5))"

definition bench_schedule :: "unit pl_event list" where
  "bench_schedule =
     [Process (Curve no_clock (sample_meta (bench_sig 0) 101 False) (CurveTrade sample_curve)), Hand_over,
      Process (Curve no_clock (sample_meta (bench_sig 1) 101 False) (CurveTrade sample_curve)), Hand_over,
      Write (Receive id), Write (Receive id), Write Drop_senders, Write (Receive id)]"

lemma inj_byte_text: "inj byte_text"
proof -
  have "inj (\<lambda>b :: u8. char_of (unat b) :: char)"
  proof (rule injI)
    fix a b :: u8
    assume "(char_of (unat a) :: char) = char_of (unat b)"
    then have "(of_char (char_of (unat a) :: char) :: nat) = of_char (char_of (unat b) :: char)" by simp
    then have "unat a mod 256 = unat b mod 256" by simp
    then have "(of_nat (unat a mod 256) :: u8) = of_nat (unat b mod 256)" by simp
    then show "a = b" by (simp only: byte_mod_256)
  qed
  then show ?thesis unfolding byte_text_def by (rule inj_mapI)
qed

lemma bench_sig_differ [simp]: "bench_sig 0 \<noteq> bench_sig 1" "bench_sig 1 \<noteq> bench_sig 0"
  using unique_signature_differs [of "replicate 64 5" 7 0 1] inj_byte_text
  by (auto simp: bench_sig_def dest: injD)

lemma one_trade_decodes: "decodes_by_path byte_text one_trade"
  by (simp add: decodes_by_path_def one_trade_def signed_def sample_meta_def inj_byte_text)

lemma bench_schedule_ends: "\<exists>g w. run_pipeline (\<lambda>_. ''refused'') byte_codec (sample_key 1) sample_serde False False
    (Some (sample_db [])) [] None new_metrics bench_schedule = Inr (Some g) \<and> wr g = Some w"
  by (simp add: run_pipeline_def start_pipeline_def bench_schedule_def no_clock_def
      share_def resolver_tables_def sending_def process_pumpfun_def record_event_def send_row_def row_of_def
      sample_meta_def sample_curve_def curve_row_def side_of_def
      sample_serde_def check_slot_def ended_def sample_defs flush_eval WRITE_QUEUE_SIZE_def Let_def)


end
