(* ===== verification/Report.thy ===== *)
theory Report
  imports Verify Render
begin

text \<open>
  The lines that \<^verbatim>\<open>report\<close> of \<^verbatim>\<open>src/verify.rs\<close> prints, which is all that an operator sees of a
  verification beside the exit status: \<open>report_lines\<close> over the values of \<open>Verify\<close>, a reader of
  such a text, and that the reader gets back what was compared.
\<close>

section \<open>The lines\<close>

text \<open>\<^verbatim>\<open>Debug\<close> of a vector of bytes: its elements in brackets, with a comma and a space between.\<close>

fun show_items :: "u8 list \<Rightarrow> string" where
  "show_items [] = []"
| "show_items [x] = show_nat (unat x)"
| "show_items (x # y # xs) = show_nat (unat x) @ '', '' @ show_items (y # xs)"

definition show_path :: "u8 list \<Rightarrow> string" where
  "show_path xs = ''['' @ show_items xs @ '']''"

definition event_line :: "string \<Rightarrow> event_id \<Rightarrow> string" where
  "event_line tag e = tag @ signature e @ '' path='' @ show_path (absolute_path e)
     @ '' ord='' @ show_nat (unat (event_ordinal e))"

text \<open>The counts of a report, then at most ten missing and ten extra events.\<close>

definition report_lines :: "verify_report \<Rightarrow> string list" where
  "report_lines r =
     [''expected '' @ show_nat (expected_count r), ''actual   '' @ show_nat (actual_count r),
      ''missing  '' @ show_nat (missing_count r), ''extra    '' @ show_nat (extra_count r)]
     @ map (event_line ''  missing '') (missing_shown r) @ map (event_line ''  extra   '') (extra_shown r)"

definition report_text :: "verify_report \<Rightarrow> string" where
  "report_text r = concat (map (\<lambda>l. l @ nl) (report_lines r))"

section \<open>A reader\<close>

text \<open>
  What someone who reads the text takes from it: the four numbers, and the identities after
  each of the two labels. It knows the layout, not the code that prints.
\<close>

definition until_char :: "char \<Rightarrow> string \<Rightarrow> string" where
  "until_char c s = takeWhile (\<lambda>x. x \<noteq> c) s"

definition from_char :: "char \<Rightarrow> string \<Rightarrow> string" where
  "from_char c s = dropWhile (\<lambda>x. x \<noteq> c) s"

function read_items :: "string \<Rightarrow> u8 list" where
  "read_items s = (if s = [] then []
     else of_nat (read_nat (until_char CHR '','' s)) # read_items (drop 2 (from_char CHR '','' s)))"
  by auto

lemma length_from_char: "length (from_char c s) \<le> length s"
  by (simp add: from_char_def length_dropWhile_le)

termination read_items
proof (relation "measure length")
  fix s :: string
  assume "s \<noteq> []"
  then show "(drop 2 (from_char CHR '','' s), s) \<in> measure length"
    using length_from_char [of "CHR '',''" s] by (cases "from_char CHR '','' s") auto
qed simp

declare read_items.simps [simp del]

definition read_event :: "string \<Rightarrow> event_id" where
  "read_event line =
     (let body = drop 10 line;
          rest = drop 7 (from_char CHR '' '' body)
      in EventId (until_char CHR '' '' body) (read_items (until_char CHR '']'' rest))
           (of_nat (read_nat (drop 6 (from_char CHR '']'' rest)))))"

definition labelled :: "string \<Rightarrow> string list \<Rightarrow> event_id list" where
  "labelled tag ls = map read_event (filter (\<lambda>l. take 10 l = tag) ls)"

definition read_report :: "string \<Rightarrow> nat list \<times> event_id list \<times> event_id list" where
  "read_report out =
     (let ls = text_lines out
      in (map (\<lambda>l. read_nat (drop 9 l)) (take 4 ls),
          labelled ''  missing '' (drop 4 ls), labelled ''  extra   '' (drop 4 ls)))"

section \<open>Reading back\<close>

definition one_word :: "string \<Rightarrow> bool" where
  "one_word s \<longleftrightarrow> CHR '' '' \<notin> set s \<and> one_line s"

lemma span_char:
  assumes "c \<notin> set s"
  shows "until_char c (s @ c # t) = s" "from_char c (s @ c # t) = c # t" "until_char c s = s" "from_char c s = []"
  using assms by (auto simp: until_char_def from_char_def takeWhile_append dropWhile_append takeWhile_eq_all_conv)

lemma show_nat_misses: "c \<notin> digits \<Longrightarrow> c \<notin> set (show_nat n)"
  using show_nat_digits by auto

lemma show_nat_nonempty [simp]: "show_nat n \<noteq> []"
  by (simp add: show_nat.simps [of n])

lemma comma_bracket: "CHR '','' \<notin> digits" "CHR '']'' \<notin> digits"
  by (simp_all add: digits_def)

lemma read_show_items [simp]: "read_items (show_items xs) = xs"
proof (induction xs rule: show_items.induct)
  case (2 x)
  then show ?case
    using span_char(3,4) [OF show_nat_misses [OF comma_bracket(1)], of "unat x"]
    by (simp add: read_items.simps [of "show_nat (unat x)"] read_items.simps [of "[]"])
next
  case (3 x y xs)
  let ?rest = "show_items (y # xs)"
  have "until_char CHR '','' (show_nat (unat x) @ '', '' @ ?rest) = show_nat (unat x)"
    "from_char CHR '','' (show_nat (unat x) @ '', '' @ ?rest) = '', '' @ ?rest"
    using span_char(1,2) [OF show_nat_misses [OF comma_bracket(1)], of "unat x" "'' '' @ ?rest"] by simp_all
  then show ?case
    using "3.IH" by (simp add: read_items.simps [of "show_nat (unat x) @ CHR '','' # CHR '' '' # ?rest"])
qed (simp add: read_items.simps)

lemma show_items_chars: "c \<notin> digits \<Longrightarrow> c \<noteq> CHR '','' \<Longrightarrow> c \<noteq> CHR '' '' \<Longrightarrow> c \<notin> set (show_items xs)"
  by (induction xs rule: show_items.induct) (auto simp: show_nat_misses)

lemma read_event_line:
  assumes "length tag = 10" "CHR '' '' \<notin> set (signature e)"
  shows "read_event (event_line tag e) = e"
proof -
  let ?tail = "'' ord='' @ show_nat (unat (event_ordinal e))"
  let ?rest = "show_items (absolute_path e) @ CHR '']'' # ?tail"
  have body: "drop 10 (event_line tag e) = signature e @ CHR '' '' # ''path=['' @ ?rest"
    using assms(1) by (simp add: event_line_def show_path_def)
  have path: "CHR '']'' \<notin> set (show_items (absolute_path e))"
    by (rule show_items_chars) (simp_all add: comma_bracket)
  have "read_event (event_line tag e) = EventId (signature e) (absolute_path e) (event_ordinal e)"
    unfolding read_event_def body Let_def using assms(2) path by (simp add: span_char)
  then show ?thesis by simp
qed

lemma one_line_parts: "one_line (a @ b) \<longleftrightarrow> one_line a \<and> one_line b" "one_line (show_nat n)"
  by (auto simp: one_line_def show_nat_misses not_digit)

lemma one_line_show_path: "one_line (show_path xs)"
  unfolding show_path_def one_line_parts
  using show_items_chars [of "CHR 0x0A" xs] not_digit by (simp add: one_line_def)

lemma one_line_labels:
  "one_line '' path=''" "one_line '' ord=''" "one_line ''  missing ''" "one_line ''  extra   ''"
  "one_line ''expected ''" "one_line ''actual   ''" "one_line ''missing  ''" "one_line ''extra    ''"
  by (simp_all add: one_line_def)

lemma event_line_one_line: "one_line tag \<Longrightarrow> one_line (signature e) \<Longrightarrow> one_line (event_line tag e)"
  by (simp only: event_line_def one_line_parts one_line_show_path one_line_labels)

lemma text_lines_concat: "\<forall>l \<in> set ls. one_line l \<Longrightarrow> text_lines (concat (map (\<lambda>l. l @ nl) ls)) = ls"
  by (induction ls) (simp_all add: text_lines_line one_line_def)

lemma take_event_line: "length tag = 10 \<Longrightarrow> take 10 (event_line tag e) = tag"
  by (simp add: event_line_def)

lemma labelled_same:
  assumes "length tag = 10" "\<forall>e \<in> set es. CHR '' '' \<notin> set (signature e)"
  shows "labelled tag (map (event_line tag) es) = es"
  using assms(2) by (induction es) (simp_all add: labelled_def take_event_line assms(1) read_event_line)

lemma labelled_other: "length tag = 10 \<Longrightarrow> tag \<noteq> other \<Longrightarrow> labelled other (map (event_line tag) es) = []"
  by (induction es) (simp_all add: labelled_def take_event_line)

lemma labelled_append: "labelled tag (a @ b) = labelled tag a @ labelled tag b"
  by (simp add: labelled_def)

lemma report_reads_back:
  assumes "\<forall>e \<in> set (missing_shown r) \<union> set (extra_shown r). one_word (signature e)"
  shows "read_report (report_text r) =
    ([expected_count r, actual_count r, missing_count r, extra_count r], missing_shown r, extra_shown r)"
proof -
  have "\<forall>l \<in> set (report_lines r). one_line l"
    using assms unfolding report_lines_def set_append set_map ball_Un list.set ball_simps
    by (simp only: one_line_parts one_line_labels one_word_def) (blast intro: event_line_one_line one_line_labels)
  then have ls: "text_lines (report_text r) = report_lines r"
    unfolding report_text_def by (rule text_lines_concat)
  have tags: "length ''  missing '' = 10" "length ''  extra   '' = 10" "''  missing '' \<noteq> ''  extra   ''" by simp_all
  have "\<forall>e \<in> set (missing_shown r). CHR '' '' \<notin> set (signature e)" "\<forall>e \<in> set (extra_shown r). CHR '' '' \<notin> set (signature e)"
    using assms by (auto simp: one_word_def)
  with tags show ?thesis
    unfolding read_report_def ls Let_def report_lines_def
    by (simp add: labelled_append labelled_same labelled_other)
qed

section \<open>Property\<close>

text \<open>
  Claim C18. What verify prints can be read. Whatever the file and the database hold, as long as the
  signatures of the stream are words, a reader of the printed lines finds the sizes of the two
  sets and of their differences, and after the labels the first ten events, in order, of those
  that should be stored and are not, and of those that are stored under one of the stream's
  signatures and should not be.
\<close>

theorem verify_report_can_be_read:
  assumes "run_verify err_text c wsol v scan m es d = Some (Answer (clean, rep), d')" "scan_ok scan"
    and "fed deliver updates es"
    and "\<forall>e \<in> set (stream_events deliver v updates). one_word (e_signature e)"
  shows "let expected = id_of_event ` set (stream_events deliver v updates);
             actual = stored_ids (\<lambda>e. e_signature e \<in> signature ` expected) (store d)
    in read_report (report_text rep) =
      ([card expected, card actual, card (expected - actual), card (actual - expected)],
       take 10 (sorted_list_of_set (expected - actual)), take 10 (sorted_list_of_set (actual - expected)))"
proof -
  let ?E = "id_of_event ` set (stream_events deliver v updates)"
  let ?A = "stored_ids (\<lambda>e. e_signature e \<in> signature ` ?E) (store d)"
  have "(clean, rep) = report ?E ?A"
    using run_verify_answer [OF assms(1,2)] unfolding fed_events [OF assms(3)] Let_def .
  then have rep: "rep = snd (report ?E ?A)" by (metis snd_conv)
  have sig: "signature (id_of_event e) = e_signature e" for e by (simp add: id_of_event_def)
  have words: "\<forall>s \<in> signature ` ?E. one_word s" using assms(4) by (simp add: sig)
  moreover have "signature ` ?A \<subseteq> signature ` ?E" by (auto simp: stored_ids_def image_image sig)
  ultimately have "\<forall>e \<in> ?E \<union> ?A. one_word (signature e)" by blast
  moreover have "set (missing_shown rep) \<union> set (extra_shown rep) \<subseteq> ?E \<union> ?A"
    unfolding rep report_def Let_def using finite_stored_ids
    by (auto dest!: in_set_takeD)
  ultimately have "\<forall>e \<in> set (missing_shown rep) \<union> set (extra_shown rep). one_word (signature e)" by blast
  from report_reads_back [OF this] show ?thesis by (simp add: rep report_def Let_def)
qed

text \<open>Two events in the file, and an empty database.\<close>

lemma sample_ids: "id_of_event ` set (stream_events one_call sample_serde sample_updates) = {EventId ''b'' [3, 5] 0, EventId ''d'' [3, 5] 0}"
  by (simp add: stream_events_def one_call_def sample_updates_def sample_stream_def event_of_call_def
      events_for_def no_clock_def sample_meta_def row_of_def id_of_event_def as_u32_def)

theorem verify_report_can_be_read_witness:
  "\<exists>clean rep d'. run_verify (\<lambda>_. ''refused'') byte_codec (sample_key 1) sample_serde (\<lambda>es. es) new_metrics
      sample_reading (sample_db []) = Some (Answer (clean, rep), d')
    \<and> read_report (report_text rep) =
        ([2, 0, 2, 0], [EventId ''b'' [3, 5] 0, EventId ''d'' [3, 5] 0], [])"
proof -
  obtain ids where "collect_ids (\<lambda>_. ''refused'') byte_codec (sample_key 1) sample_serde new_metrics
      sample_reading = Some ids" using sample_collects by blast
  moreover have "healthy (sample_db [])" by (simp add: sample_db_def healthy_def)
  ultimately obtain clean rep d' where r: "run_verify (\<lambda>_. ''refused'') byte_codec (sample_key 1)
      sample_serde (\<lambda>es. es) new_metrics sample_reading (sample_db []) = Some (Answer (clean, rep), d')"
    using run_verify_answers(1) by blast
  have ok: "scan_ok (\<lambda>es :: event_row list. es)" by (simp add: scan_ok_def)
  have empty: "stored_ids P (store (sample_db [])) = {}" for P
    by (simp add: stored_ids_def sample_db_def empty_tables_def)
  have "signature ` id_of_event ` set (stream_events one_call sample_serde sample_updates) = {''b'', ''d''}"
    unfolding sample_ids by simp
  then have "\<forall>e \<in> set (stream_events one_call sample_serde sample_updates). e_signature e \<in> {''b'', ''d''}"
    by (auto simp: id_of_event_def image_image)
  then have words: "\<forall>e \<in> set (stream_events one_call sample_serde sample_updates). one_word (e_signature e)"
    by (auto simp: one_word_def one_line_def)
  have sorted: "sorted_list_of_set {EventId ''b'' [3, 5] 0, EventId ''d'' [3, 5] 0} =
      [EventId ''b'' [3, 5] 0, EventId ''d'' [3, 5] 0]"
    by (simp add: less_eq_event_id_def less_event_id_def id_tuple_def)
  show ?thesis
    using verify_report_can_be_read [OF r ok sample_fed(2) words] r
    unfolding sample_ids empty Let_def Diff_empty empty_Diff sorted by auto
qed

end
