(* ===== verification/Tests.thy ===== *)
theory Tests
  imports Entry
begin

text \<open>
  The modules under \<^verbatim>\<open>#[cfg(test)]\<close> of \<^verbatim>\<open>main.rs\<close>, \<^verbatim>\<open>repair.rs\<close>, \<^verbatim>\<open>pools.rs\<close>, \<^verbatim>\<open>writer.rs\<close>,
  \<^verbatim>\<open>metrics.rs\<close> and \<^verbatim>\<open>db.rs\<close>: what the repository's own tests do, on the model. A test with fixed
  data becomes a lemma with its name, for every key and database it could have drawn; the tests
  over the golden file become properties of every file.
\<close>

section \<open>Decoding one recorded transaction\<close>

text \<open>
  \<^verbatim>\<open>decode_fixture\<close> walks the JSON of a transaction and decodes its pump.fun inner
  instructions. It can end with the error of a library call, or panic where it unwraps
  (\<open>Unwrapped\<close>). The reader of files, base58 and the decoder are third-party code.
\<close>

datatype fixture_error = Read_error | Parse_error | Base58_error | Key_error | Unwrapped

record 'x fixture_lib =
  file_text :: "string \<Rightarrow> string option"
  json_text :: "string \<Rightarrow> json option"
  bs58_decode :: "string \<Rightarrow> u8 list option"
  decode_instruction :: "pubkey \<Rightarrow> pubkey list \<Rightarrow> u8 list \<Rightarrow> 'x pumpfun_instruction option"

definition pumpfun_program_id :: string where
  "pumpfun_program_id = ''6EF8rrecthR5Dkzon8Nwu78hRvfCKubJ14M5uBEwF6P''"

text \<open>A loop that pushes onto one vector and may leave the function.\<close>

fun gather :: "('a \<Rightarrow> 'e + 'b list) \<Rightarrow> 'a list \<Rightarrow> 'e + 'b list" where
  "gather f [] = Inr []"
| "gather f (x # xs) = try_ok (f x) (\<lambda>ys. try_ok (gather f xs) (\<lambda>zs. Inr (ys @ zs)))"

definition fixture_account :: "codec \<Rightarrow> json \<Rightarrow> fixture_error + pubkey list" where
  "fixture_account c account =
     try_ok (ok_or Unwrapped (as_str account)) (\<lambda>address.
     try_ok (ok_or Key_error (read_key c address)) (\<lambda>pubkey. Inr [pubkey]))"

definition fixture_instruction ::
  "'x fixture_lib \<Rightarrow> codec \<Rightarrow> json \<Rightarrow> fixture_error + 'x curve_trade list" where
  "fixture_instruction lib c instruction =
     (if as_str (json_index ''programId'' instruction) \<noteq> Some pumpfun_program_id then Inr []
      else
        try_ok (ok_or Unwrapped (as_str (json_index ''data'' instruction))) (\<lambda>encoded_data.
        try_ok (ok_or Base58_error (bs58_decode lib encoded_data)) (\<lambda>decoded_data.
        try_ok (ok_or Unwrapped (as_array (json_index ''accounts'' instruction))) (\<lambda>account_val.
        try_ok (gather (fixture_account c) account_val) (\<lambda>accounts.
        try_ok (ok_or Unwrapped (as_str (json_index ''programId'' instruction))) (\<lambda>program.
        try_ok (ok_or Key_error (read_key c program)) (\<lambda>program_id.
          Inr (case decode_instruction lib program_id accounts decoded_data of
              Some (CurveTrade trade) \<Rightarrow> [trade]
            | Some OtherFunInstruction \<Rightarrow> []
            | None \<Rightarrow> []))))))))"

definition fixture_group ::
  "'x fixture_lib \<Rightarrow> codec \<Rightarrow> json \<Rightarrow> fixture_error + 'x curve_trade list" where
  "fixture_group lib c inner_group =
     try_ok (ok_or Unwrapped (as_array (json_index ''instructions'' inner_group)))
       (gather (fixture_instruction lib c))"

definition decode_fixture ::
  "'x fixture_lib \<Rightarrow> codec \<Rightarrow> string \<Rightarrow> fixture_error + 'x curve_trade list" where
  "decode_fixture lib c path =
     try_ok (ok_or Read_error (file_text lib path)) (\<lambda>content.
     try_ok (ok_or Parse_error (json_text lib content)) (\<lambda>j.
       (let meta = json_index ''meta'' (json_index ''result'' j) in
        if json_index ''err'' meta \<noteq> JNull then Inr []
        else try_ok (ok_or Unwrapped (as_array (json_index ''innerInstructions'' meta)))
               (gather (fixture_group lib c)))))"

section \<open>Identities of a replay\<close>

text \<open>
  \<^verbatim>\<open>replay_ids\<close> replays a file once through a pipeline that only collects and sorts what was
  collected; \<open>None\<close> when \<open>es\<close> is not a complete run.
\<close>

definition replay_ids ::
  "(db_error \<Rightarrow> string) \<Rightarrow> codec \<Rightarrow> pubkey \<Rightarrow> 'x serde \<Rightarrow> metrics \<Rightarrow> 'x pl_event list \<Rightarrow> event_id list option" where
  "replay_ids err_text c wsol v m es = map_option sort (collect_ids err_text c wsol v m es)"

text \<open>The assertions of \<^verbatim>\<open>replay_is_deterministic\<close> and \<^verbatim>\<open>identity_is_unique\<close>.\<close>

definition GOLDEN_EVENTS :: nat where "GOLDEN_EVENTS = 503"

definition deterministic_test :: "event_id list \<Rightarrow> event_id list \<Rightarrow> bool" where
  "deterministic_test first second \<longleftrightarrow> length first = GOLDEN_EVENTS \<and> first = second"

definition identity_is_unique :: "event_id list \<Rightarrow> bool" where
  "identity_is_unique ids \<longleftrightarrow> card (set ids) = length ids"

text \<open>
  \<^verbatim>\<open>carbon_index_alone_would_collide\<close>: the paths by signature and first path element (events
  without a path are left out), and the entries with more than one path. A \<^verbatim>\<open>HashMap\<close> is
  visited in an order that does not matter here; the list has the order of first insertion.
\<close>

type_synonym index_map = "((string \<times> u8) \<times> u8 list list) list"

fun push_entry :: "'k \<Rightarrow> 'a \<Rightarrow> ('k \<times> 'a list) list \<Rightarrow> ('k \<times> 'a list) list" where
  "push_entry k x [] = [(k, [x])]"
| "push_entry k x ((k', xs) # rest) =
     (if k' = k then (k', xs @ [x]) # rest else (k', xs) # push_entry k x rest)"

definition push_index :: "event_id \<Rightarrow> index_map \<Rightarrow> index_map" where
  "push_index event by_index = (case absolute_path event of
      [] \<Rightarrow> by_index
    | index # rest \<Rightarrow> push_entry (signature event, index) (absolute_path event) by_index)"

definition collisions :: "event_id list \<Rightarrow> index_map" where
  "collisions ids = filter (\<lambda>(_, paths). 1 < length paths) (fold push_index ids [])"

section \<open>Tests on a database\<close>

text \<open>
  \<^verbatim>\<open>test_pool\<close>: without an address the tests are skipped; a database without the schema is
  migrated (\<open>schema\<close> says whether it has it, \<open>migrate\<close> is the migrator); the six tables are
  emptied, which leaves the sequence of gap identifiers where it is. A failure is a panic.
\<close>

datatype test_db = Skipped | Panicked | Waiting | Ready db

definition truncate_all :: "tables \<Rightarrow> tables" where
  "truncate_all t = empty_tables\<lparr>next_gap_id := next_gap_id t\<rparr>"

definition expect_done :: "unit outcome \<times> db \<Rightarrow> (db \<Rightarrow> test_db) \<Rightarrow> test_db" where
  "expect_done r f = (case r of
      (Answer _, d) \<Rightarrow> f d | (Failure _, d) \<Rightarrow> Panicked | (No_answer, d) \<Rightarrow> Waiting)"

definition test_pool ::
  "string option \<Rightarrow> (string \<Rightarrow> db option) \<Rightarrow> bool \<Rightarrow> (db \<Rightarrow> unit outcome \<times> db) \<Rightarrow> test_db" where
  "test_pool url connect schema migrate = (case url of
      None \<Rightarrow> Skipped
    | Some u \<Rightarrow>
        (case connect u of
           None \<Rightarrow> Panicked
         | Some d \<Rightarrow>
             (case execute (\<lambda>t. Inr (schema, t)) d of
                (No_answer, d1) \<Rightarrow> Waiting
              | (has_schema, d1) \<Rightarrow>
                  expect_done (if has_schema = Answer True then return () d1 else migrate d1)
                    (\<lambda>d2. expect_done (execute (\<lambda>t. Inr ((), truncate_all t)) d2) Ready))))"

definition count_rows :: "(tables \<Rightarrow> 'r list) \<Rightarrow> db \<Rightarrow> nat outcome \<times> db" where
  "count_rows table = execute (\<lambda>t. Inr (length (table t), t))"

text \<open>\<^verbatim>\<open>failed_batch_rolls_back_and_parks\<close>.\<close>

definition one_bad_batch :: "nat \<Rightarrow> pending_write list" where
  "one_bad_batch clock =
     [\<lparr>pw_event = \<lparr>e_signature = ''testsig'', e_path = [1, 2], e_ordinal = 0, e_slot = 1,
         e_block_time = None, e_program = ''pumpswap'', e_type = ''BuyEvent'', e_payload = JObject []\<rparr>,
       pw_trade = Some \<lparr>t_pool = None, t_token_mint = ''mint'', t_side = ''sideways'',
         t_sol_amount = 1, t_token_amount = 1, t_trader = ''trader'', t_fee = None\<rparr>,
       queued_at = clock\<rparr>]"

definition failed_batch_test ::
  "(db_error \<Rightarrow> string) \<Rightarrow> (nat \<Rightarrow> nat) \<Rightarrow> nat \<Rightarrow> db \<Rightarrow> metrics \<Rightarrow> (nat \<times> nat \<times> bool) outcome \<times> db" where
  "failed_batch_test err_text clock start d m =
     (let w = flush err_text clock ((spawn_writer d 1 m)\<lparr>batch := one_bad_batch start\<rparr>) in
      if status w = Stuck then (No_answer, db w)
      else and_then (count_rows events) (\<lambda>written. and_then (count_rows dead_letters) (\<lambda>dead.
        return (written, dead, batch w = []))) (db w))"

text \<open>\<^verbatim>\<open>repair_fills_a_trade_once_the_pool_is_known\<close>.\<close>

definition WSOL_STR :: string where
  "WSOL_STR = ''So11111111111111111111111111111111111111112''"

definition repair_event :: "pubkey \<Rightarrow> pubkey \<Rightarrow> event_row" where
  "repair_event pool_key user =
     \<lparr>e_signature = ''repairsig'', e_path = [1, 2], e_ordinal = 0, e_slot = 1, e_block_time = None,
      e_program = ''pumpswap'', e_type = ''BuyEvent'', e_payload = JObject
        [(''pool'', key_json pool_key), (''user'', key_json user),
         (''base_amount_out'', json_u64 1000), (''quote_amount_in'', json_u64 50),
         (''protocol_fee'', json_u64 7)]\<rparr>"

definition repair_pool :: "codec \<Rightarrow> pubkey \<Rightarrow> pubkey \<Rightarrow> stored_pool" where
  "repair_pool c pool_key token =
     \<lparr>sp_pool = show_key c pool_key, sp_base_mint = show_key c token, sp_quote_mint = WSOL_STR,
      sp_base_decimals = None, sp_quote_decimals = None\<rparr>"

text \<open>An insertion without \<^verbatim>\<open>ON CONFLICT\<close>.\<close>

definition insert_new :: "('r \<Rightarrow> 'k) \<Rightarrow> 'r \<Rightarrow> 'r list \<Rightarrow> db_error + 'r list" where
  "insert_new key r tbl = (if key r \<in> key ` set tbl
     then Inl (Server_error ''duplicate key'') else Inr (tbl @ [r]))"

definition repair_once ::
  "codec \<Rightarrow> pubkey \<Rightarrow> (event_row list \<Rightarrow> event_row list) \<Rightarrow> db \<Rightarrow> repair_run outcome \<times> db" where
  "repair_once c wsol scan d = (case run_repair c wsol scan 100 d new_metrics of (r, d', m) \<Rightarrow> (r, d'))"

text \<open>What the test reads: the number of trades, the trade row, the number after a second run.\<close>

definition repair_test ::
  "codec \<Rightarrow> pubkey \<Rightarrow> (event_row list \<Rightarrow> event_row list) \<Rightarrow> pubkey \<Rightarrow> pubkey \<Rightarrow> pubkey \<Rightarrow> db \<Rightarrow>
     (nat \<times> trade_row list \<times> nat) outcome \<times> db" where
  "repair_test c wsol scan pool_key user token =
     and_then (execute (\<lambda>t. map_sum id (\<lambda>es. ((), t\<lparr>events := es\<rparr>))
       (insert_new event_key (repair_event pool_key user) (events t)))) (\<lambda>_.
     and_then (execute (\<lambda>t. map_sum id (\<lambda>ps. ((), t\<lparr>pools := ps\<rparr>))
       (insert_new sp_pool (repair_pool c pool_key token) (pools t)))) (\<lambda>_.
     and_then (repair_once c wsol scan) (\<lambda>_.
     and_then (count_rows trades) (\<lambda>n.
     and_then (execute (\<lambda>t. Inr (map r_trade (take 1 (trades t)), t))) (\<lambda>row.
     and_then (repair_once c wsol scan) (\<lambda>_.
     and_then (count_rows trades) (\<lambda>after. return (n, row, after))))))))"

section \<open>The tests of single functions\<close>

text \<open>
  A failed transaction gives no trades, whatever else the recording holds. A recording like the
  one of the test, with a pump.fun instruction that is a purchase, instructions of other
  programs, and the event that pump.fun sends to itself, gives the trade of that event.
\<close>

definition decodes_trade_test ::
  "('x \<Rightarrow> u64) \<Rightarrow> codec \<Rightarrow> fixture_error + 'x curve_trade list \<Rightarrow> bool" where
  "decodes_trade_test creator_fee c result =
     (case result of
        Inr [t] \<Rightarrow> show_key c (ct_mint t) = ''2KjpDfEZeA3LHcq1ycHi5qYf9Lc5D1iJtLhSHKUypump''
          \<and> ct_is_buy t \<and> ct_token_amount t = 3940708338 \<and> ct_sol_amount t = 97777
          \<and> ct_fee t = 929 \<and> creator_fee (ct_rest t) = 294
      | _ \<Rightarrow> False)"

definition rejects_failed_test :: "fixture_error + 'x curve_trade list \<Rightarrow> bool" where
  "rejects_failed_test result = (case result of Inr ts \<Rightarrow> length ts = 0 | Inl e \<Rightarrow> False)"

lemma rejects_failed_transaction:
  assumes "file_text lib path = Some content" "json_text lib content = Some j"
    and "json_index ''err'' (json_index ''meta'' (json_index ''result'' j)) \<noteq> JNull"
  shows "rejects_failed_test (decode_fixture lib c path)"
  using assms by (simp add: rejects_failed_test_def decode_fixture_def Let_def)

definition inner_instruction :: "string \<Rightarrow> string \<Rightarrow> string \<Rightarrow> json" where
  "inner_instruction program payload account = JObject
     [(''programId'', JString program), (''data'', JString payload), (''accounts'', JArray [JString account])]"

definition parsed_instruction :: "string \<Rightarrow> json" where
  "parsed_instruction program = JObject [(''programId'', JString program), (''parsed'', JObject [])]"

definition flashx_recording :: json where
  "flashx_recording = JObject [(''result'', JObject [(''meta'', JObject
     [(''err'', JNull), (''innerInstructions'', JArray [JObject
       [(''index'', json_u64 3), (''instructions'', JArray
         [inner_instruction pumpfun_program_id ''purchase'' ''bonding curve'',
          inner_instruction ''pfeeUxB6jkeY1Hxd7CsFCAjcbHA9rWtchMGdZ6VojVZ'' ''fees'' ''config'',
          parsed_instruction ''TokenzQdBNbLqP5VEhdkAS6EPFLC1PHnBqCXEpPxuEb'',
          parsed_instruction ''11111111111111111111111111111111'',
          inner_instruction pumpfun_program_id ''event'' ''event authority''])]])])])]"

lemma decodes_successful_pumpfun_trade:
  assumes "file_text lib path = Some content" "json_text lib content = Some flashx_recording"
    and "bs58_decode lib ''purchase'' = Some b1" "bs58_decode lib ''event'' = Some b2"
    and "read_key c ''bonding curve'' = Some k1" "read_key c ''event authority'' = Some k2"
    and "read_key c pumpfun_program_id = Some p"
    and "decode_instruction lib p [k1] b1 = Some OtherFunInstruction"
    and "decode_instruction lib p [k2] b2 = Some (CurveTrade trade)"
  shows "decode_fixture lib c path = Inr [trade]"
proof -
  note ids = pumpfun_program_id_def
  have "fixture_instruction lib c (inner_instruction pumpfun_program_id ''purchase'' ''bonding curve'') = Inr []"
    "fixture_instruction lib c (inner_instruction pumpfun_program_id ''event'' ''event authority'') = Inr [trade]"
    using assms by (simp_all add: fixture_instruction_def inner_instruction_def json_index_def fixture_account_def)
  moreover have "fixture_instruction lib c (inner_instruction ''pfeeUxB6jkeY1Hxd7CsFCAjcbHA9rWtchMGdZ6VojVZ'' ''fees'' ''config'') = Inr []"
    by (simp add: fixture_instruction_def inner_instruction_def json_index_def ids)
  moreover have "fixture_instruction lib c (parsed_instruction ''TokenzQdBNbLqP5VEhdkAS6EPFLC1PHnBqCXEpPxuEb'') = Inr []"
    "fixture_instruction lib c (parsed_instruction ''11111111111111111111111111111111'') = Inr []"
    by (simp_all add: fixture_instruction_def parsed_instruction_def json_index_def ids)
  ultimately show ?thesis
    using assms(1,2) by (simp add: decode_fixture_def flashx_recording_def Let_def json_index_def fixture_group_def)
qed

lemma decodes_trade_test_passes:
  assumes "decode_fixture lib c path = Inr [t]"
    and "show_key c (ct_mint t) = ''2KjpDfEZeA3LHcq1ycHi5qYf9Lc5D1iJtLhSHKUypump''" "ct_is_buy t"
    and "ct_token_amount t = 3940708338" "ct_sol_amount t = 97777" "ct_fee t = 929"
    and "creator_fee (ct_rest t) = 294"
  shows "decodes_trade_test creator_fee c (decode_fixture lib c path)"
  using assms by (simp add: decodes_trade_test_def)

text \<open>The names are those of the tests; each holds for every key the test could draw.\<close>

definition test_info :: "pubkey \<Rightarrow> pubkey \<Rightarrow> pool_info" where
  "test_info base quote_key =
     \<lparr>base_mint = base, quote_mint = quote_key, base_decimals = None, quote_decimals = None\<rparr>"

definition normal_pool_test :: "pubkey \<Rightarrow> pubkey \<Rightarrow> metrics \<Rightarrow> bool" where
  "normal_pool_test wsol token m =
     (case fst (orient wsol (test_info token wsol) 1000 50 True m) of
        None \<Rightarrow> False
      | Some t \<Rightarrow> sol_amount t = 50 \<and> token_amount t = 1000 \<and> token_mint t = token \<and> is_buy t)"

definition inverted_pool_test :: "pubkey \<Rightarrow> pubkey \<Rightarrow> metrics \<Rightarrow> bool" where
  "inverted_pool_test wsol token m =
     (case fst (orient wsol (test_info wsol token) 50 1000 True m) of
        None \<Rightarrow> False
      | Some t \<Rightarrow> sol_amount t = 50 \<and> token_amount t = 1000 \<and> token_mint t = token \<and> \<not> is_buy t)"

definition no_sol_side_test :: "pubkey \<Rightarrow> pubkey \<Rightarrow> pubkey \<Rightarrow> metrics \<Rightarrow> bool" where
  "no_sol_side_test wsol a b m \<longleftrightarrow> fst (orient wsol (test_info a b) 1000 50 True m) = None"

lemma normal_pool_sol_is_quote: "normal_pool_test wsol token m"
  by (simp add: normal_pool_test_def orient_def test_info_def)

lemma inverted_pool_sol_is_base: "token \<noteq> wsol \<Longrightarrow> inverted_pool_test wsol token m"
  by (simp add: inverted_pool_test_def orient_def test_info_def)

lemma pool_with_no_sol_side_is_refused: "a \<noteq> wsol \<Longrightarrow> b \<noteq> wsol \<Longrightarrow> no_sol_side_test wsol a b m"
  by (simp add: no_sol_side_test_def orient_def test_info_def)

text \<open>The four durations of the histogram's test, in microseconds.\<close>

definition test_durations :: "nat list" where
  "test_durations = [1000, 20000, 80000, 600000]"

definition summary_test :: "histogram_summary \<Rightarrow> bool" where
  "summary_test s \<longleftrightarrow> count s = 4 \<and> p50_upper_ms s = Some 25 \<and> p95_upper_ms s = Some 2000
     \<and> p99_upper_ms s = Some 2000"

lemma test_buckets: "buckets (observe_all test_durations new_histogram) = [0, 1, 0, 1, 1, 0, 1, 0, 0, 0]"
proof -
  have "buckets new_histogram = [0, 0, 0, 0, 0, 0, 0, 0, 0, 0]"
    by (simp add: new_histogram_def BUCKETS_def numeral_eq_Suc)
  then show ?thesis
    by (simp add: observe_all_def test_durations_def observe_def bucket_of_def
        BUCKET_EDGES_US_def BUCKETS_def Let_def word_le_nat_alt)
qed

lemma f64_of_small: "f64_of_u64 4 = 4"
  using f64_of_u64_exact [of 4] by simp

lemma four_target:
  assumes "3 / 4 < p * (1 - 1 / 2 ^ 53) * (1 - 1 / 2 ^ 53)" "p \<le> 1" "0 \<le> p"
  shows "percentile_target 4 (f64_round p) = 4"
proof -
  let ?q = "f64_round p"
  have hi: "?q \<le> 1" using f64_round_le_int [of p 1] assms(2) by simp
  have lo: "p * (1 - 1 / 2 ^ 53) \<le> ?q" using assms(3) by (rule f64_round_bounds(2))
  have q0: "0 \<le> ?q" by (rule f64_round_nonneg)
  have "f64_round (4 * ?q) \<le> 4" using f64_round_le_int [of "4 * ?q" 4] hi by simp
  moreover have "4 * ?q * (1 - 1 / 2 ^ 53) \<le> f64_round (4 * ?q)"
    using q0 by (intro f64_round_bounds(2)) simp
  moreover have "p * (1 - 1 / 2 ^ 53) * (1 - 1 / 2 ^ 53) \<le> ?q * (1 - 1 / 2 ^ 53)"
    using lo by (intro mult_right_mono) simp_all
  ultimately have "\<lceil>f64_round (4 * ?q)\<rceil> = 4"
    using assms(1) by (intro ceiling_unique) simp_all
  then show ?thesis by (simp add: percentile_target_def f64_mul_def f64_of_small f64_ceil_u64_def)
qed

lemma summary_reports_percentile_bucket_bounds:
  "summary_test (summary (observe_all test_durations new_histogram))"
proof -
  have half: "percentile_target 4 (f64_round (1 / 2)) = 2"
    using half_target [of 4] by (simp add: word_unat_eq_iff)
  have edges: "edge_ms (Suc (Suc (Suc 0))) = Some 25"
      "edge_ms (Suc (Suc (Suc (Suc (Suc (Suc 0)))))) = Some 2000"
    using edge_in_ms [of 25000] edge_in_ms [of 2000000] by (simp_all add: edge_ms_def BUCKET_EDGES_US_def)
  have "percentile_target 4 (f64_round (95 / 100)) = 4" "percentile_target 4 (f64_round (99 / 100)) = 4"
    by (rule four_target; simp)+
  then have tails: "percentile_target 4 (f64_round (19 / 20)) = 4"
      "percentile_target 4 (f64_round (99 / 100)) = 4" by simp_all
  show ?thesis
    by (simp add: summary_test_def tails summary_def Let_def test_buckets percentile_upper_ms_def half edges word_le_nat_alt)
qed

section \<open>The tests on a database\<close>

text \<open>
  On a database that answers, \<^verbatim>\<open>test_pool\<close> hands over empty tables, whatever was in them.
\<close>

lemma test_pool_ready:
  assumes "healthy d" "connect u = Some d"
    and "\<And>d1. healthy d1 \<Longrightarrow> \<exists>d2. migrate d1 = (Answer (), d2) \<and> healthy d2"
  shows "\<exists>d'. test_pool (Some u) connect schema migrate = Ready d' \<and> healthy d'
    \<and> events (store d') = [] \<and> trades (store d') = [] \<and> pools (store d') = [] \<and> tables_ok (store d')"
proof -
  obtain d1 where d1: "execute (\<lambda>t. Inr (schema, t)) d = (Answer schema, d1)" "healthy d1"
    using execute_healthy [OF assms(1), of "\<lambda>t. Inr (schema, t)"] by auto
  obtain d2 where d2: "(if schema then return () d1 else migrate d1) = (Answer (), d2)" "healthy d2"
    using assms(3) [OF d1(2)] d1(2) by (cases schema) (auto simp: return_def)
  obtain d3 where d3: "execute (\<lambda>t. Inr ((), truncate_all t)) d2 = (Answer (), d3)"
      "store d3 = truncate_all (store d2)" "healthy d3"
    using execute_healthy [OF d2(2), of "\<lambda>t. Inr ((), truncate_all t)"] by auto
  have "test_pool (Some u) connect schema migrate = Ready d3"
    using d1(1) d2(1) d3(1) by (simp add: test_pool_def assms(2) expect_done_def)
  moreover have "tables_ok (truncate_all t)" for t
    by (simp add: truncate_all_def tables_ok_def trades_ok_def gaps_ok_def empty_tables_def)
  ultimately show ?thesis using d3 by (simp add: truncate_all_def empty_tables_def)
qed

lemma count_rows_healthy:
  assumes "healthy d"
  shows "\<exists>d'. count_rows table d = (Answer (length (table (store d))), d') \<and> store d' = store d \<and> healthy d'"
  unfolding count_rows_def by (rule execute_healthy [OF assms]) simp

text \<open>
  The bad batch is refused by the \<^verbatim>\<open>CHECK\<close> on the side: the event goes back with it, and one dead
  letter is written.
\<close>

lemma write_batch_refused:
  assumes "healthy d" "trade_of p = Some r" "trade_error (r_trade r) = Some e"
  shows "\<exists>d'. write_batch [p] slot sig d = (Failure e, d') \<and> store d' = store d \<and> healthy d'"
proof -
  obtain d0 where d0: "execute (\<lambda>t. Inr ((), t)) d = (Answer (), d0)" "store d0 = store d" "healthy d0"
    using execute_healthy [OF assms(1), of "\<lambda>t. Inr ((), t)"] by auto
  obtain d1 where d1: "write_events [p] d0 = (Answer (), d1)" "healthy d1"
    using execute_healthy [OF d0(3), of "events_stmt [p]"] by (auto simp: write_events_def events_stmt_def)
  have "trades_stmt [r] (store d1) = Inl e"
    using assms(3) by (simp add: trades_stmt_def insert_trades_def)
  then obtain d2 where d2: "execute (trades_stmt [r]) d1 = (Failure e, d2)" "healthy d2"
    using execute_healthy_err [OF d1(2), of "trades_stmt [r]" e] by auto
  have "write_trades [p] d1 = (Failure e, d2)"
    using d2(1) assms(2) by (simp add: write_trades_def List.map_filter_simps)
  then have "write_batch [p] slot sig d = (Failure e, d2\<lparr>store := store d0\<rparr>)"
    using d0(1) d1(1) by (simp add: write_batch_def transaction_def and_then_def)
  then show ?thesis using d0(2) d2(2) by (simp add: healthy_def)
qed

lemma failed_batch_rolls_back_and_parks:
  assumes "healthy d"
  shows "\<exists>d'. failed_batch_test err_text clock start d m =
      (Answer (length (events (store d)), length (dead_letters (store d)) + 1, True), d')
    \<and> events (store d') = events (store d)"
proof -
  obtain p where p: "one_bad_batch start = [p]" by (simp add: one_bad_batch_def)
  then obtain r where r: "trade_of p = Some r" "trade_error (r_trade r) = Some Check_violation"
    by (auto simp: one_bad_batch_def trade_of_def trade_error_def numeric_20_0_def)
  obtain d1 where d1: "write_batch [p] (row_slot p) (e_signature (pw_event p)) d = (Failure Check_violation, d1)"
      "store d1 = store d" "healthy d1"
    using write_batch_refused [OF assms r] by blast
  let ?err = "err_text Check_violation"
  obtain d2 where d2: "write_dead_letters [p] ?err d1 = (Answer (), d2)" "healthy d2"
      "store d2 = (store d)\<lparr>dead_letters := dead_letters (store d) @ [letter_of ?err p]\<rparr>"
    using execute_healthy [OF d1(3), of "\<lambda>t. Inr ((), t\<lparr>dead_letters := dead_letters t @ map (letter_of ?err) [p]\<rparr>)"] d1(2)
    by (auto simp: write_dead_letters_def)
  define w where "w = flush err_text clock ((spawn_writer d 1 m)\<lparr>batch := one_bad_batch start\<rparr>)"
  have w: "db w = d2" "batch w = []" "status w = Running"
    using d1(1) d2(1) by (simp_all add: w_def flush_def park_def spawn_writer_def p)
  obtain d3 where d3: "count_rows events d2 = (Answer (length (events (store d))), d3)"
      "store d3 = store d2" "healthy d3"
    using count_rows_healthy [OF d2(2), of events] d2(3) by auto
  obtain d4 where d4: "count_rows dead_letters d3 = (Answer (length (dead_letters (store d)) + 1), d4)"
      "store d4 = store d3"
    using count_rows_healthy [OF d3(3), of dead_letters] d2(3) d3(2) by auto
  have "failed_batch_test err_text clock start d m = (Answer (length (events (store d)), length (dead_letters (store d)) + 1, True), d4)"
    unfolding failed_batch_test_def Let_def w_def [symmetric]
    using w d3(1) d4(1) by (simp add: and_then_def return_def)
  then show ?thesis using d2(3) d3(2) d4(2) by simp
qed

text \<open>
  The trade that the repair test expects, and the tables in which repair is to find it.
\<close>

definition expected_trade :: "codec \<Rightarrow> pubkey \<Rightarrow> pubkey \<Rightarrow> pubkey \<Rightarrow> trade_row" where
  "expected_trade c pool_key user token =
     \<lparr>t_pool = Some (show_key c pool_key), t_token_mint = show_key c token, t_side = ''buy'',
      t_sol_amount = 50, t_token_amount = 1000, t_trader = show_key c user, t_fee = Some 7\<rparr>"

definition repair_tables :: "codec \<Rightarrow> pubkey \<Rightarrow> pubkey \<Rightarrow> pubkey \<Rightarrow> tables \<Rightarrow> tables" where
  "repair_tables c pool_key user token t = t\<lparr>events := [repair_event pool_key user],
     pools := [repair_pool c pool_key token]\<rparr>"

lemma repair_test_built:
  assumes ok: "codec_ok c" "valid_key pool_key" "valid_key user" "valid_key token" "token \<noteq> wsol"
    and wsol: "read_key c WSOL_STR = Some wsol"
  shows "built c wsol (known_from c [repair_pool c pool_key token]) (repair_event pool_key user) =
    Some (repaired_row (repair_event pool_key user) (expected_trade c pool_key user token))"
proof -
  have keys: "read_key c (show_key c token) = Some token"
    using ok(1,4) by (simp add: codec_ok_def)
  have "known_from c [repair_pool c pool_key token] (show_key c pool_key) = Some (test_info token wsol)"
    using keys wsol by (simp add: known_from_def repair_pool_def test_info_def)
  then have "build c wsol (known_from c [repair_pool c pool_key token]) (repair_event pool_key user) m
      = (Inr (expected_trade c pool_key user token), inc ORIENTED_NORMAL m)" for m
    using ok(2,3) by (simp add: build_def build_pumpswap_def repair_event_def Let_def swap_amounts_def
        field_u64_def orient_def test_info_def expected_trade_def side_of_def)
  then show ?thesis by (simp add: built_def)
qed

lemma repair_once_healthy:
  assumes "healthy d" "tables_ok (store d)" "scan_ok scan"
  shows "\<exists>r d'. repair_once c wsol scan d = (Answer r, d') \<and> healthy d'
    \<and> store d' = (store d)\<lparr>trades := trades (store d) @ repairable c wsol scan 100 (store d)\<rparr>"
  using run_repair_healthy [OF assms(1-3), of 100 c wsol new_metrics] by (auto simp: repair_once_def)

lemma repair_fills_a_trade_once:
  assumes ok: "codec_ok c" "valid_key pool_key" "valid_key user" "valid_key token" "token \<noteq> wsol"
    and wsol: "read_key c WSOL_STR = Some wsol"
    and d: "healthy d" "tables_ok (store d)" "events (store d) = []" "trades (store d) = []" "pools (store d) = []"
    and scan: "scan_ok scan"
  shows "\<exists>d'. repair_test c wsol scan pool_key user token d =
    (Answer (1, [expected_trade c pool_key user token], 1), d')"
proof -
  let ?e = "repair_event pool_key user" and ?p = "repair_pool c pool_key token"
  let ?t = "repair_tables c pool_key user token (store d)"
  let ?row = "repaired_row ?e (expected_trade c pool_key user token)"
  let ?t1 = "?t\<lparr>trades := [?row]\<rparr>"
  obtain d1 where d1: "execute (\<lambda>t. map_sum id (\<lambda>es. ((), t\<lparr>events := es\<rparr>)) (insert_new event_key ?e (events t))) d
      = (Answer (), d1)" "store d1 = (store d)\<lparr>events := [?e]\<rparr>" "healthy d1"
    using execute_healthy [OF d(1), of "\<lambda>t. map_sum id (\<lambda>es. ((), t\<lparr>events := es\<rparr>)) (insert_new event_key ?e (events t))"]
      d(3) by (auto simp: insert_new_def)
  obtain d2 where d2: "execute (\<lambda>t. map_sum id (\<lambda>ps. ((), t\<lparr>pools := ps\<rparr>)) (insert_new sp_pool ?p (pools t))) d1
      = (Answer (), d2)" "store d2 = ?t" "healthy d2"
    using execute_healthy [OF d1(3), of "\<lambda>t. map_sum id (\<lambda>ps. ((), t\<lparr>pools := ps\<rparr>)) (insert_new sp_pool ?p (pools t))"]
      d(5) d1(2) by (auto simp: insert_new_def repair_tables_def)
  have t: "tables_ok ?t" "trades ?t = []" "events ?t = [?e]" "pools ?t = [?p]"
    using d(2,4) by (simp_all add: tables_ok_def trades_ok_def repair_tables_def)
  have "mset (scan [?e]) = mset [?e]" using scan by (simp only: scan_ok_def)
  then have one: "scan [?e] = [?e]" by simp
  have rows: "repairable c wsol scan 100 ?t = [?row]"
    using repair_test_built [OF ok wsol]
    by (simp add: repairable_def missing_trades_def t one List.map_filter_simps)
  then have t1: "?t1 = ?t\<lparr>trades := trades ?t @ repairable c wsol scan 100 ?t\<rparr>" by (simp add: t(2))
  have ok1: "tables_ok ?t1" unfolding t1 by (rule repaired_ok [OF t(1) scan])
  obtain r1 d3 where d3: "repair_once c wsol scan d2 = (Answer r1, d3)" "healthy d3" "store d3 = ?t1"
    using repair_once_healthy [OF d2(3) _ scan, of c wsol] t(1) d2(2) t1 by auto
  obtain d4 where d4: "count_rows trades d3 = (Answer 1, d4)" "store d4 = ?t1" "healthy d4"
    using count_rows_healthy [OF d3(2), of trades] d3(3) by auto
  obtain d5 where d5: "execute (\<lambda>t. Inr (map r_trade (take 1 (trades t)), t)) d4
      = (Answer [expected_trade c pool_key user token], d5)" "store d5 = ?t1" "healthy d5"
    using execute_healthy [OF d4(3), of "\<lambda>t. Inr (map r_trade (take 1 (trades t)), t)"] d4(2)
    by (auto simp: repaired_row_def)
  have "repairable c wsol scan 100 ?t1 = []"
    by (rule repairable_again [OF t(1) scan _ t1 ok1]) (simp add: missing_trades_def t one)
  then obtain r2 d6 where d6: "repair_once c wsol scan d5 = (Answer r2, d6)" "healthy d6" "store d6 = ?t1"
    using repair_once_healthy [OF d5(3) _ scan, of c wsol] ok1 d5(2) by auto
  obtain d7 where d7: "count_rows trades d6 = (Answer 1, d7)"
    using count_rows_healthy [OF d6(2), of trades] d6(3) by auto
  show ?thesis
    using d1(1) d2(1) d3(1) d4(1) d5(1) d6(1) d7 by (simp add: repair_test_def and_then_def return_def)
qed

section \<open>The tests of a replay\<close>

lemma replay_ids_stream:
  assumes "replay_ids err_text c wsol v m es = Some ids" "fed deliver updates es"
  shows "ids = sort (map id_of_event (stream_events deliver v updates))"
proof -
  obtain log where log: "collect_ids err_text c wsol v m es = Some log" "ids = sort log"
    using assms(1) by (auto simp: replay_ids_def)
  then show ?thesis using collect_ids_run [OF log(1)] fed_events [OF assms(2), of v] by simp
qed

lemma stream_ordinal: "e \<in> set (stream_events deliver v updates) \<Longrightarrow> e_ordinal e = 0"
proof -
  have one: "e_ordinal e = 0" if "e \<in> set (events_for v m)" for m :: "'x move" and v :: "'x serde"
  proof (cases m)
    case (Swap t i ins)
    show ?thesis
    proof (cases ins)
      case (SwapCpiEvent ev)
      with Swap that show ?thesis by (cases ev) (auto simp: events_for_def row_of_def split: if_splits)
    qed (use Swap that in \<open>simp add: events_for_def\<close>)
  next
    case (Curve t i ins)
    then show ?thesis using that
      by (cases ins; cases "tx_failed i") (auto simp: events_for_def row_of_def)
  qed (use that in \<open>simp add: events_for_def\<close>)
  assume "e \<in> set (stream_events deliver v updates)"
  then obtain cl where "e \<in> set (event_of_call v cl)" by (auto simp: stream_events_def)
  then show "e_ordinal e = 0" by (cases "snd cl") (auto simp: event_of_call_def intro: one)
qed

lemma stream_keys_ids:
  fixes v :: "'x serde"
  shows "distinct (map event_key (stream_events deliver v updates)) \<longleftrightarrow>
     distinct (map id_of_event (stream_events deliver v updates))"
proof -
  let ?es = "stream_events deliver v updates"
  have "id_of_event = key_id \<circ> event_key" by (simp add: fun_eq_iff id_of_event_key)
  moreover have inj: "inj_on key_id (set (map event_key ?es))"
    using stream_ordinal [of _ deliver v updates] by (auto simp: inj_on_def key_id_def event_key_def)
  ultimately show ?thesis using distinct_map [of key_id "map event_key ?es"] by simp
qed

lemma length_insert_do_nothing_card:
  assumes "distinct (map key tbl)" "key ` set rs \<inter> key ` set tbl = {}"
  shows "length (insert_do_nothing key tbl rs) = length tbl + card (key ` set rs)"
proof -
  let ?new = "insert_do_nothing key tbl rs"
  have "length ?new = card (key ` set ?new)"
    using distinct_card [OF distinct_insert_do_nothing [OF assms(1), of rs]] by simp
  also have "\<dots> = card (key ` set tbl) + card (key ` set rs)"
    using assms(2) by (simp add: card_Un_disjoint Int_commute)
  also have "card (key ` set tbl) = length tbl" using distinct_card [OF assms(1)] by simp
  finally show ?thesis .
qed

lemma absorbed_iff: "length (insert_do_nothing key [] rs) < length rs \<longleftrightarrow> \<not> distinct (map key rs)"
proof -
  have "length (insert_do_nothing key [] rs) = card (set (map key rs))"
    using length_insert_do_nothing_card [of key "[]" rs] by simp
  moreover have "card (set (map key rs)) \<le> length rs" using card_length [of "map key rs"] by simp
  moreover have "distinct (map key rs) \<longleftrightarrow> card (set (map key rs)) = length rs"
    using card_distinct [of "map key rs"] distinct_card [of "map key rs"] by (auto simp del: set_map)
  ultimately show ?thesis by linarith
qed

text \<open>What \<^verbatim>\<open>collisions\<close> finds, in terms of the index of an event.\<close>

definition carbon_key :: "event_id \<Rightarrow> (string \<times> u8) option" where
  "carbon_key event = (case absolute_path event of [] \<Rightarrow> None | index # rest \<Rightarrow> Some (signature event, index))"

lemma keys_push_entry: "fst ` set (push_entry k x m) = insert k (fst ` set m)"
  by (induction k x m rule: push_entry.induct) auto

lemma push_entry_counts:
  assumes "distinct (map fst m)" "\<forall>(k', xs) \<in> set m. length xs = f k'" "k \<notin> fst ` set m \<Longrightarrow> f k = 0"
  shows "distinct (map fst (push_entry k x m))
    \<and> (\<forall>(k', xs) \<in> set (push_entry k x m). length xs = (f(k := Suc (f k))) k')"
  using assms
proof (induction k x m rule: push_entry.induct)
  case (2 k x k' xs rest)
  show ?case
  proof (cases "k' = k")
    case True
    then have "k \<notin> fst ` set rest" using "2.prems"(1) by simp
    then show ?thesis using True "2.prems"(1,2) by force
  next
    case False
    with "2.prems" have "distinct (map fst rest)" "\<forall>(k', xs) \<in> set rest. length xs = f k'"
        "k \<notin> fst ` set rest \<Longrightarrow> f k = 0" "length xs = f k'" "k' \<notin> fst ` set rest"
      by auto
    with "2.IH" [OF False this(1-3)] False show ?thesis by (simp add: keys_push_entry)
  qed
qed simp

definition index_counts :: "event_id list \<Rightarrow> string \<times> u8 \<Rightarrow> nat" where
  "index_counts ids = Multiset.count (mset (List.map_filter carbon_key ids))"

lemma index_map_counts:
  "distinct (map fst (fold push_index ids [])) \<and>
   fst ` set (fold push_index ids []) = set (List.map_filter carbon_key ids) \<and>
   (\<forall>(k, paths) \<in> set (fold push_index ids []). length paths = index_counts ids k)"
proof (induction ids rule: rev_induct)
  case (snoc e es)
  let ?m = "fold push_index es []"
  show ?case
  proof (cases "absolute_path e")
    case Nil
    with snoc show ?thesis by (simp add: push_index_def carbon_key_def List.map_filter_simps index_counts_def)
  next
    case (Cons i p)
    let ?k = "(signature e, i)"
    have k: "carbon_key e = Some ?k" using Cons by (simp add: carbon_key_def)
    have m: "fold push_index (es @ [e]) [] = push_entry ?k (absolute_path e) ?m"
      using Cons by (simp add: push_index_def)
    have f: "index_counts (es @ [e]) = (index_counts es)(?k := Suc (index_counts es ?k))"
      by (auto simp: index_counts_def k List.map_filter_simps fun_eq_iff)
    have "?k \<notin> fst ` set ?m \<Longrightarrow> index_counts es ?k = 0"
      using snoc by (simp add: index_counts_def count_eq_zero_iff)
    then show ?thesis
      unfolding m f keys_push_entry
      using push_entry_counts [of ?m "index_counts es" ?k "absolute_path e"] snoc k
      by (auto simp: List.map_filter_simps)
  qed
qed (simp add: List.map_filter_simps)

lemma collisions_iff: "collisions ids = [] \<longleftrightarrow> distinct (List.map_filter carbon_key ids)"
proof -
  let ?ks = "List.map_filter carbon_key ids" and ?m = "fold push_index ids []"
  have "collisions ids = [] \<longleftrightarrow> (\<forall>(k, paths) \<in> set ?m. length paths \<le> 1)"
    by (auto simp: collisions_def filter_empty_conv not_less)
  also have "\<dots> \<longleftrightarrow> (\<forall>k \<in> set ?ks. index_counts ids k \<le> 1)"
  proof -
    have "(\<forall>(k, paths) \<in> set ?m. length paths \<le> 1) \<longleftrightarrow> (\<forall>x \<in> set ?m. index_counts ids (fst x) \<le> 1)"
      using index_map_counts [of ids] by fastforce
    also have "\<dots> \<longleftrightarrow> (\<forall>k \<in> fst ` set ?m. index_counts ids k \<le> 1)" by blast
    finally show ?thesis using index_map_counts [of ids] by metis
  qed
  also have "\<dots> \<longleftrightarrow> distinct ?ks"
  proof -
    have "0 < index_counts ids k \<longleftrightarrow> k \<in> set ?ks" for k
      by (simp add: index_counts_def count_greater_zero_iff)
    then have "(\<forall>k \<in> set ?ks. index_counts ids k \<le> 1) \<longleftrightarrow>
        (\<forall>k. index_counts ids k = (if k \<in> set ?ks then 1 else 0))"
      by (metis One_nat_def Suc_leI le_antisym less_numeral_extra(3) neq0_conv order.refl zero_less_one)
    then show ?thesis unfolding distinct_count_atmost_1 index_counts_def .
  qed
  finally show ?thesis .
qed

text \<open>
  For the golden file the remaining assertion of \<^verbatim>\<open>replay_is_deterministic\<close> is about the file: it
  passes exactly if the file's usable lines have that many trade events.
\<close>

lemma deterministic_test_iff:
  assumes "replay_ids err_text c wsol v m es = Some ids" "fed deliver updates es"
    and "replay_ids err_text' c' wsol' v m' es' = Some ids'" "fed deliver updates es'"
  shows "deterministic_test ids ids' \<longleftrightarrow> length (stream_events deliver v updates) = GOLDEN_EVENTS"
  using replay_ids_stream [OF assms(1,2)] replay_ids_stream [OF assms(3,4)]
  by (simp add: deterministic_test_def)

section \<open>Properties\<close>

text \<open>
  Claim C19. The test \<^verbatim>\<open>replay_is_deterministic\<close>, for every file and every scheduling: two undisturbed
  replays of one file, through collecting pipelines that may interleave differently and see
  other clocks, give the same identities in the same order, those of the trade events of the
  file's usable lines.
\<close>

theorem replay_is_deterministic:
  assumes "\<And>i. open_file i = Some (map Some ls)"
    and "replay_consume lib (\<lambda>_. False) (\<lambda>_. True) open_file 1 1 m = Some (True, s)"
    and "replay_consume lib (\<lambda>_. False) (\<lambda>_. True) open_file 1 1 m' = Some (True, s')"
    and "fed deliver (delivered s) es" "fed deliver (delivered s') es'"
    and "replay_ids err_text c wsol v m es = Some first" "replay_ids err_text' c' wsol' v m' es' = Some second"
  shows "first = second \<and> first = sort (map id_of_event (stream_events deliver v (usable lib ls)))"
  using replay_ids_stream [OF assms(6,4)] replay_ids_stream [OF assms(7,5)]
  by (simp add: replay_once_delivers [OF assms(2,1)] replay_once_delivers [OF assms(3,1)])

definition sample_rereading :: "unit pl_event list" where
  "sample_rereading = map Process
     [Swap no_clock (sample_meta ''b'' 101 False) (SwapCpiEvent (BuyEvent (sample_buy 3))),
      Curve no_clock (sample_meta ''d'' 103 False) (CurveTrade sample_curve)]"

lemma sample_rereading_calls: "calls sample_rereading = calls sample_reading"
  by (simp add: calls_def sample_rereading_def sample_reading_def sample_stream_def)

lemma sample_replay_ids:
  "\<exists>ids. replay_ids (\<lambda>_. ''refused'') byte_codec (sample_key 1) sample_serde new_metrics sample_reading = Some ids"
  "\<exists>ids. replay_ids (\<lambda>_. ''refused'') byte_codec (sample_key 1) sample_serde new_metrics sample_rereading = Some ids"
proof -
  have "\<exists>ids. collect_ids (\<lambda>_. ''refused'') byte_codec (sample_key 1) sample_serde new_metrics
      sample_rereading = Some ids"
    by (simp add: collect_ids_def run_pipeline_def start_pipeline_def sample_rereading_def no_clock_def
        share_def resolver_tables_def sending_def process_pumpswap_def
        process_pumpfun_def swap_arm_def resolve_def record_event_def send_row_def row_of_def
        sample_meta_def sample_buy_def sample_curve_def sample_serde_def check_slot_def ended_def Let_def)
  with sample_collects show
    "\<exists>ids. replay_ids (\<lambda>_. ''refused'') byte_codec (sample_key 1) sample_serde new_metrics sample_reading = Some ids"
    "\<exists>ids. replay_ids (\<lambda>_. ''refused'') byte_codec (sample_key 1) sample_serde new_metrics sample_rereading = Some ids"
    by (auto simp: replay_ids_def)
qed

theorem replay_is_deterministic_witness:
  "\<exists>first second. first = second
    \<and> replay_ids (\<lambda>_. ''refused'') byte_codec (sample_key 1) sample_serde new_metrics sample_reading = Some first
    \<and> replay_ids (\<lambda>_. ''refused'') byte_codec (sample_key 1) sample_serde new_metrics sample_rereading = Some second"
proof -
  obtain s where s: "replay_consume sample_lib (\<lambda>_. False) (\<lambda>_. True) (\<lambda>_. Some (map Some [''x'', ''bad''])) 1 1 new_metrics = Some (True, s)"
    "fed whole_file (delivered s) sample_reading" by (rule whole_file_replay)
  have "fed whole_file (delivered s) sample_rereading"
    using s(2) by (simp add: fed_def sample_rereading_calls)
  from replay_is_deterministic [OF refl s(1) s(1) s(2) this] sample_replay_ids show ?thesis by metis
qed

text \<open>
  Claim C20. What the test \<^verbatim>\<open>identity_is_unique\<close> is for: its assertion holds of a replay exactly if
  ingesting the same updates, into tables that have none of their events, stores one row for
  every decoded event; when two events share an identity, one of them is absorbed.
\<close>

theorem unique_identities_are_all_stored:
  assumes "replay_ids err_text c wsol v m es = Some ids" "fed deliver updates es"
    and "run_pipeline err_text' c' wsol' v rpc collect (Some d) answers gaps m' es' = Inr (Some g)"
    and "fed deliver updates es'" "wr g = Some w" "tables_ok (store d)" "set answers \<subseteq> {Done}"
    and "event_key ` set (stream_events deliver v updates) \<inter> event_key ` set (events (store d)) = {}"
  shows "identity_is_unique ids \<longleftrightarrow>
    length (events (store (db w))) = length (events (store d)) + length ids"
proof -
  let ?es = "stream_events deliver v updates"
  have ev: "events (store (db w)) = insert_do_nothing event_key (events (store d)) ?es"
    using pipeline_stream [OF assms(3) view_ok [OF assms(6)] assms(7)] assms(5) fed_events [OF assms(4), of v]
    by auto
  have "distinct (map event_key (events (store d)))" using assms(6) by (simp add: tables_ok_def)
  then have len: "length (events (store (db w))) = length (events (store d)) + card (event_key ` set ?es)"
    unfolding ev using assms(8) by (rule length_insert_do_nothing_card)
  have ids: "ids = sort (map id_of_event ?es)" by (rule replay_ids_stream [OF assms(1,2)])
  have "identity_is_unique ids \<longleftrightarrow> distinct (map id_of_event ?es)"
    using card_distinct [of "map id_of_event ?es"] distinct_card [of "map id_of_event ?es"]
    by (auto simp: identity_is_unique_def ids)
  also have "\<dots> \<longleftrightarrow> card (event_key ` set ?es) = length ?es"
    unfolding stream_keys_ids [symmetric]
    using card_distinct [of "map event_key ?es"] distinct_card [of "map event_key ?es"] by auto
  finally show ?thesis by (simp add: len ids)
qed

theorem unique_identities_are_all_stored_witness:
  "\<exists>g w ids. sample_pipeline = Inr (Some g) \<and> wr g = Some w
    \<and> replay_ids (\<lambda>_. ''refused'') byte_codec (sample_key 1) sample_serde new_metrics sample_reading = Some ids
    \<and> (identity_is_unique ids \<longleftrightarrow> length (events (store (db w))) = length ids)"
proof -
  obtain g where g: "sample_pipeline = Inr (Some g)" using sample_pipeline_ends by blast
  note run = g [unfolded sample_pipeline_def]
  have ok: "tables_ok (store (sample_db []))" and empty: "events (store (sample_db [])) = []"
    by (simp_all add: sample_db_def empty_tables_def tables_ok_empty [unfolded empty_tables_def])
  obtain w where w: "wr g = Some w" using pipeline_stream [OF run view_ok [OF ok]] by auto
  obtain ids where ids: "replay_ids (\<lambda>_. ''refused'') byte_codec (sample_key 1) sample_serde new_metrics
      sample_reading = Some ids" using sample_replay_ids(1) by blast
  have "identity_is_unique ids \<longleftrightarrow> length (events (store (db w))) = length ids"
    using unique_identities_are_all_stored [OF ids sample_fed(2) run sample_fed(1) w ok] empty by simp
  with g w ids show ?thesis by blast
qed

text \<open>
  What the test \<^verbatim>\<open>carbon_index_alone_would_collide\<close> is for: it finds a collision exactly if
  a store keyed by the signature and the first element of the path, instead of the whole path,
  would absorb one of the events.
\<close>

theorem index_alone_would_absorb:
  "collisions ids \<noteq> [] \<longleftrightarrow>
     (let with_path = filter (\<lambda>e. absolute_path e \<noteq> []) ids in
      length (insert_do_nothing carbon_key [] with_path) < length with_path)"
proof -
  let ?es = "filter (\<lambda>e. absolute_path e \<noteq> []) ids"
  have some: "map carbon_key ?es = map Some (List.map_filter carbon_key ids)"
    by (induction ids) (auto simp: carbon_key_def List.map_filter_simps split: list.splits)
  have "length (insert_do_nothing carbon_key [] ?es) < length ?es \<longleftrightarrow> \<not> distinct (map carbon_key ?es)"
    by (rule absorbed_iff)
  also have "\<dots> \<longleftrightarrow> collisions ids \<noteq> []"
    unfolding some collisions_iff by (simp add: distinct_map)
  finally show ?thesis by (simp add: Let_def)
qed

end
