(* ===== verification/Spec2Isabelle.thy ===== *)
theory Spec2Isabelle
  imports Gaps Pools Processors Chain Repair Datasources Pipeline Shutdown Verify Recover Healing
    Bench Api Capture Entry Log Recording Load Report Tests
begin

text \<open>
  A verification library for the Solana indexer under \<^verbatim>\<open>src/\<close>: a Rust program that decodes the
  trades of two on-chain programs (PumpSwap and pump.fun) from a stream of transactions, stores
  the events with their trades in Postgres, notices what the stream lost, fetches it again, and
  checks the result against recordings and the chain.

  \<^bold>\<open>How the program works.\<close> A source (\<^verbatim>\<open>datasources/replay.rs\<close>, \<^verbatim>\<open>datasources/backfill.rs\<close>, the
  paced source of \<^verbatim>\<open>bench.rs\<close>, or a gRPC client of a third-party crate) sends transactions. The
  framework decodes them and calls the two processors (\<^verbatim>\<open>processors/\<close>) with one instruction at a
  time. A processor moves the shared slot watermark (\<^verbatim>\<open>gaps.rs\<close>), asks the pool resolver
  (\<^verbatim>\<open>pools.rs\<close>) which side of a pool is wrapped SOL, and sends one row per trade event to the
  writer (\<^verbatim>\<open>writer.rs\<close>), a task that commits rows in batches together with a checkpoint. Jumps
  of the watermark go to a second task that records them as gaps. \<^verbatim>\<open>pipeline.rs\<close> puts these
  together. Beside it, \<^verbatim>\<open>recover.rs\<close> runs a pipeline over the slots of each recorded gap,
  \<^verbatim>\<open>repair.rs\<close> builds the trade rows that were missing because a pool was unknown, \<^verbatim>\<open>verify.rs\<close>
  compares a recording or a range of slots with the database, \<^verbatim>\<open>capture.rs\<close> makes the
  recordings, \<^verbatim>\<open>bench.rs\<close> measures a run, \<^verbatim>\<open>api.rs\<close> serves queries, \<^verbatim>\<open>metrics.rs\<close> counts.

  \<^bold>\<open>The theories\<close>, in the order in which they build on each other:

  \<^item> \<open>Prelude\<close>: machine integers and casts (\<^verbatim>\<open>u64\<close> and narrower as words, \<^verbatim>\<open>i64\<close> and \<^verbatim>\<open>i32\<close> as
    integers that come from casts), bounded channels, iterator functions; the locale
    \<open>max_register\<close> of values under \<^verbatim>\<open>fetch_max\<close>.
  \<^item> \<open>Sql\<close>: statements of Postgres over an abstract store, with every way a statement can end; the
    locale \<open>keyed_store\<close> of stores that absorb rows they know. \<open>Json\<close>: \<^verbatim>\<open>serde_json::Value\<close>.
    \<open>F64\<close>: the floating-point numbers the code computes, with error bounds.
  \<^item> \<open>Db\<close> (\<^verbatim>\<open>db.rs\<close> and \<^verbatim>\<open>migrations/\<close>): the tables, their constraints (\<open>tables_ok\<close>) and every
    statement. \<open>Identity\<close> (\<^verbatim>\<open>identity.rs\<close>): an event's identity with its order.
  \<^item> \<open>Metrics\<close> and \<open>Render\<close> (\<^verbatim>\<open>metrics.rs\<close>): counters, gauges, histograms, summaries, the
    Prometheus text character by character and a reader of it.
  \<^item> \<open>Writer\<close> (\<^verbatim>\<open>writer.rs\<close>): the batching task as a step function; its specification is
    \<open>commit_effect\<close>, which \<open>write_batch\<close> refines, and the locale \<open>committed_property\<close> lifts what
    every committed batch keeps to every run.
  \<^item> \<open>Gaps\<close> (\<^verbatim>\<open>gaps.rs\<close>): the watermark with \<open>jumps\<close>, its specification over plain numbers, and
    the recorder.
  \<^item> \<open>Pools\<close> (\<^verbatim>\<open>pools.rs\<close>): orientation, the cache (locale \<open>lookup_table\<close>), requests, the
    background task and priming; \<open>resolver_step\<close> is the inductive relation of its interleavings.
  \<^item> \<open>Processors\<close> (\<^verbatim>\<open>processors/pumpswap.rs\<close>, \<^verbatim>\<open>processors/pumpfun.rs\<close>): \<open>process_pumpswap\<close> and
    \<open>process_pumpfun\<close> over one \<open>indexer\<close> state, with what an instruction should produce
    (\<open>event_for\<close>). \<open>Chain\<close>: what a trade row says (\<open>tells\<close>), stated without the orientation rule.
  \<^item> \<open>Repair\<close> (\<^verbatim>\<open>repair.rs\<close>): rows built from payloads, and the run.
  \<^item> \<open>Pipeline\<close> (\<^verbatim>\<open>pipeline.rs\<close>): processors, writer, resolver and other connections as one
    transition system. \<open>Shutdown\<close>: it can always be brought to its end.
  \<^item> \<open>Datasources\<close> (\<^verbatim>\<open>datasources/\<close>): replay and backfill with cancellation, failing sends, errors.
  \<^item> \<open>Verify\<close> (\<^verbatim>\<open>verify.rs\<close>), \<open>Recover\<close> (\<^verbatim>\<open>recover.rs\<close>, with the locale \<open>refetching\<close>), \<open>Healing\<close>
    (a hole in the stream through watermark, recorder, recovery and backfill), \<open>Bench\<close>
    (\<^verbatim>\<open>bench.rs\<close>), \<open>Api\<close> (\<^verbatim>\<open>api.rs\<close>), \<open>Capture\<close> (\<^verbatim>\<open>capture.rs\<close>), \<open>Entry\<close> (\<^verbatim>\<open>main.rs\<close>, \<^verbatim>\<open>cli.rs\<close>,
    \<^verbatim>\<open>config.rs\<close> and the exporter of \<^verbatim>\<open>metrics.rs\<close>).
  \<^item> \<open>Log\<close>: the abstract specification of the writer, a log of batches each of which is committed,
    parked or named (\<open>log_step\<close>), with the simulation that relates it to \<open>writer_step\<close>.
    \<open>Recording\<close>: a stream through \<^verbatim>\<open>capture\<close>, \<^verbatim>\<open>replay\<close>, the pipeline and \<^verbatim>\<open>verify\<close>. \<open>Load\<close>: the
    paced source, the pipeline and the counters of a benchmark together.
  \<^item> \<open>Report\<close>: the lines that verify prints, and a reader of them. \<open>Tests\<close>: the \<^verbatim>\<open>#[cfg(test)]\<close> modules of six files. Each test with fixed data is a lemma under
    its own name; those over the golden file are properties of every file.
\<close>

section \<open>What is shown\<close>

text \<open>
  \<^item> Nothing is lost in silence: every row given to the writer is stored, dead-lettered, named
    on stderr or still on its way, whatever the server answers (\<open>Writer\<close>, \<open>Pipeline\<close>). With a
    server that executes its statements, an ended run has stored exactly its stream, in order,
    each key once, and batching cannot be seen in the tables. The writer simulates a log in which
    every batch has exactly one fate, and the counters count those fates (\<open>Log\<close>).
  \<^item> What is stored is right: each event is recorded once; a trade row tells who exchanged what on
    the chain or is missing for a stated reason; cached pools have the chain's mints, also after a
    restart (\<open>Processors\<close>, \<open>Chain\<close>, \<open>Pools\<close>). The schema accepts every row.
  \<^item> What is missing comes back: holes of the stream are reported exactly, recorded once, fetched
    with a margin of 64 slots and stored (\<open>Gaps\<close>, \<open>Recover\<close>, \<open>Healing\<close>); repair writes the row the
    processor would have written, and all that can be built (\<open>Repair\<close>).
  \<^item> What is claimed can be checked: ingesting and then verifying answers clean, verification is
    exact in both directions, decides the exit status (\<open>Verify\<close>, \<open>Entry\<close>) and what is printed can
    be read back (\<open>Report\<close>); a capture replays
    (\<open>Capture\<close>), and what was captured, replayed and ingested verifies (\<open>Recording\<close>); scraping reads
    the counters, histograms and medians are what they say (\<open>Metrics\<close>, \<open>Render\<close>); a benchmark that
    does not complain kept up, in exact arithmetic (\<open>Bench\<close>), and one whose server executes its
    statements reports exactly what it stored, with nothing missing, unexpected or uncommitted
    (\<open>Load\<close>); the repository's tests check what they are for, as equivalences (\<open>Tests\<close>);
    queries answer with the newest trades and the backlog (\<open>Api\<close>).
  \<^item> It comes to an end: a shutdown is never stuck when the database answers (\<open>Shutdown\<close>), fetching
    a block gives up after four attempts (\<open>Datasources\<close>).
  \<^item> Where it falls short, as theorems of their theories: a flush whose dead letters are not answered hangs; a batch
    with older slots moves the checkpoint back, and the checkpoint passes rows that were lost
    (\<open>Writer\<close>); a full gap channel loses a gap (\<open>Gaps\<close>); repair can starve (\<open>Repair\<close>); a gap is closed
    although no block was obtained, and a failed recovery is not tried again (\<open>Recover\<close>); a file of
    which nothing can be decoded verifies as clean (\<open>Verify\<close>).
\<close>

section \<open>Conventions, bounds and hypotheses\<close>

text \<open>
  \<^item> Effects are explicit state. A task's loop is a step function on its state with the event it
    reacts to as argument; a run is a list of such events, so that every interleaving the
    scheduler can choose is such a list. What a step cannot do now is \<open>None\<close>.
  \<^item> A server is its store and a script of answers: executed, refused, executed with the answer
    lost, or never answered (executed or not). A statement that is not answered suspends its
    caller; the ten seconds of a flush are such an answer. \<open>healthy\<close> is a script without faults.
    The scanning order of a table is an argument \<open>scan\<close>, \<open>scan_ok\<close> that it is a permutation.
  \<^item> Clocks are arguments: readings in microseconds as natural numbers. The process-wide counters
    are one \<open>metrics\<close> value per task, as every counter is only ever added to or raised.
  \<^item> Additions on words wrap, as in a release build; the properties about the watermark assume
    slots below \<open>2 ^ 63\<close>, which is what a \<^verbatim>\<open>BIGINT\<close> can hold. The properties about \<^verbatim>\<open>f64\<close> hold for
    all 64-bit counts, with \<open>2 ^ 53\<close> assumed where a half is compared.
  \<^item> A replay has fuel, the number of passes over the file: it returns with fuel equal to the
    number of repetitions, and with repetition 0 no fuel is enough, both of which are shown.
    The four attempts of \<open>fetch_loop\<close> need no fuel, all other loops are structural.
  \<^item> Code that is not under \<^verbatim>\<open>src/\<close> is an argument: base58 (\<open>codec\<close>, with \<open>codec_ok\<close>: reading what
    was shown), the conversion of decoded events to JSON (\<open>serde\<close>, with \<open>serde_ok\<close>: it has the
    fields by their names), the account decoder and the RPC client, the readers and writers of
    transactions (\<open>replay_lib\<close>, \<open>backfill_lib\<close>, \<open>capture_lib\<close>, with \<open>inverse_libs\<close>), the text of a
    floating-point number (\<open>plain_f64\<close>: digits and points only), the command line parser and the
    TLS provider (their results are arguments of \<open>main\<close>), the decoder of the fixture test
    (\<open>fixture_lib\<close>), and the decoding
    framework (\<open>fed deliver\<close>: the processors are called, in order, with what \<open>deliver\<close> gives for
    each update; \<open>decodes_by_path\<close>: it hands over the update's signature without
    decoding by it, and the calls of one update have different paths). Each hypothesis is met by a concrete instance in a witness.
\<close>

section \<open>Not modelled\<close>

text \<open>
  \<^item> HTTP: listening, the extraction of parameters, the encoding of answers. The routes of
    \<^verbatim>\<open>run_api\<close> and \<^verbatim>\<open>spawn_exporter\<close> and their handlers are modelled.
  \<^item> \<^verbatim>\<open>db::connect\<close> with its migrations (the schema they produce is in \<open>Db\<close>), the logger, and the
    printed progress lines, but for those of \<^verbatim>\<open>main\<close>, verify, the exporter, the reporter and the
    benchmark, and those that a property is about (rows that could not be parked, the numbers of
    repair as values).
  \<^item> The text that the JSON printer makes of a benchmark's result; the JSON value is modelled.
  \<^item> The gRPC client of a live run, including its own detector of gaps, which feeds the same
    recorder, and the reconnection it does.
  \<^item> The contents of the fixture files: that the golden file has 503 events with distinct
    identities and a collision of indices is a fact about that file.
\<close>

end
